(* ===== verification/Prelude.thy ===== *)
theory Prelude
  imports Main "HOL-Library.Word"
begin

text \<open>
  Shared material of the openv development: the machine integer types of the kernel, the
  result type of kernel operations, little helpers for byte strings and the generic lemmas on
  lists, maps and words that the component theories use.

  Conventions.  A Rust \<open>usize\<close> or \<open>u64\<close> is a \<open>64 word\<close>, a \<open>u32\<close>,
  \<open>u16\<close>, \<open>u8\<close> is a word of that width; process ids (\<open>i32\<close> in the source) are
  \<open>int\<close>.  A fallible kernel operation takes the state of its component and returns a
  value of type \<open>'a rr\<close> together with the new state: \<open>Ok\<close> and \<open>Err\<close> are the two
  constructors of Rust's \<open>Result\<close>, \<open>Panic\<close> is a Rust panic (the kernel is built with
  \<open>panic = "abort"\<close>, so nothing runs after it).  The model follows the \<open>dev\<close> profile
  that \<open>make\<close> builds, in which \<open>cfg!(debug_assertions)\<close> is true.
\<close>

unbundle bit_operations_syntax

type_synonym u8 = "8 word"
type_synonym u16 = "16 word"
type_synonym u32 = "32 word"
type_synonym u64 = "64 word"
type_synonym usize = "64 word"
type_synonym pid = int

named_theorems kernel_defs "definitions of kernel operations, unfolded by the component proofs"
named_theorems frame_lemmas "fields an operation leaves unchanged"

section \<open>Results and the kernel monad\<close>

datatype 'a rr = Ok 'a | Err string | Panic string

type_synonym ('s, 'a) kmon = "'s \<Rightarrow> 'a rr \<times> 's"

definition retK :: "'a \<Rightarrow> ('s, 'a) kmon" where
  "retK x s = (Ok x, s)"

definition errK :: "string \<Rightarrow> ('s, 'a) kmon" where
  "errK e s = (Err e, s)"

definition panicK :: "string \<Rightarrow> ('s, 'a) kmon" where
  "panicK e s = (Panic e, s)"

text \<open>Sequencing, Rust's \<open>?\<close>: the first \<open>Err\<close> or \<open>Panic\<close> ends the operation with the
  state reached so far.\<close>

definition bindK :: "('s, 'a) kmon \<Rightarrow> ('a \<Rightarrow> ('s, 'b) kmon) \<Rightarrow> ('s, 'b) kmon" where
  "bindK m f s =
     (case m s of
        (Ok x, s') \<Rightarrow> f x s'
      | (Err e, s') \<Rightarrow> (Err e, s')
      | (Panic e, s') \<Rightarrow> (Panic e, s'))"

lemma retK_simp [simp]: "retK x s = (Ok x, s)"
  by (simp add: retK_def)

lemma errK_simp [simp]: "errK e s = (Err e, s)"
  by (simp add: errK_def)

lemma panicK_simp [simp]: "panicK e s = (Panic e, s)"
  by (simp add: panicK_def)

lemma bindK_Ok [simp]: "m s = (Ok x, s') \<Longrightarrow> bindK m f s = f x s'"
  by (simp add: bindK_def)

lemma bindK_Err [simp]: "m s = (Err e, s') \<Longrightarrow> bindK m f s = (Err e, s')"
  by (simp add: bindK_def)

lemma bindK_Panic [simp]: "m s = (Panic e, s') \<Longrightarrow> bindK m f s = (Panic e, s')"
  by (simp add: bindK_def)

lemma bindK_ok_iff:
  "bindK m f s = (Ok y, s'') \<longleftrightarrow> (\<exists>x s'. m s = (Ok x, s') \<and> f x s' = (Ok y, s''))"
  by (auto simp: bindK_def split: prod.splits rr.splits)

lemma bindK_okE [elim!]:
  assumes "bindK m f s = (Ok y, s'')"
  obtains x s' where "m s = (Ok x, s')" "f x s' = (Ok y, s'')"
  using assms by (auto simp: bindK_ok_iff)

section \<open>Saturating and checked arithmetic of Rust integers\<close>

definition saturating_add :: "'w::len word \<Rightarrow> 'w word \<Rightarrow> 'w word" where
  "saturating_add a b = (if unat a + unat b < 2 ^ LENGTH('w) then a + b else - 1)"

definition saturating_sub :: "'w::len word \<Rightarrow> 'w word \<Rightarrow> 'w word" where
  "saturating_sub a b = (if b \<le> a then a - b else 0)"

definition checked_add :: "'w::len word \<Rightarrow> 'w word \<Rightarrow> 'w word option" where
  "checked_add a b = (if unat a + unat b < 2 ^ LENGTH('w) then Some (a + b) else None)"

definition checked_mul :: "'w::len word \<Rightarrow> 'w word \<Rightarrow> 'w word option" where
  "checked_mul a b = (if unat a * unat b < 2 ^ LENGTH('w) then Some (a * b) else None)"

lemma unat_lt_2p64: "unat (x :: usize) < 18446744073709551616"
  using unsigned_less [of x] by simp

lemma unat_add_no_wrap:
  fixes a b :: "'w::len word"
  assumes "unat a + unat b < 2 ^ LENGTH('w)"
  shows "unat (a + b) = unat a + unat b"
  using assms by (simp add: unat_word_ariths)

lemma unat_saturating_add:
  fixes a b :: "'w::len word"
  shows "unat (saturating_add a b) = min (unat a + unat b) (2 ^ LENGTH('w) - 1)"
proof (cases "unat a + unat b < 2 ^ LENGTH('w)")
  case True
  then show ?thesis
    by (auto simp: saturating_add_def unat_add_no_wrap min_def not_le)
next
  case False
  then show ?thesis
    by (auto simp: saturating_add_def min_def unsigned_minus_1_eq_mask mask_eq_exp_minus_1)
qed

lemma unat_checked_add:
  "checked_add a b = Some c \<Longrightarrow> unat c = unat a + unat b"
  by (auto simp: checked_add_def unat_add_no_wrap split: if_splits)

section \<open>Lists\<close>

text \<open>\<open>Iterator::position\<close>: index of the first element satisfying a predicate.\<close>

fun position :: "('a \<Rightarrow> bool) \<Rightarrow> 'a list \<Rightarrow> nat option" where
  "position P [] = None"
| "position P (x # xs) = (if P x then Some 0 else map_option Suc (position P xs))"

text \<open>\<open>Vec::remove\<close> at an index.\<close>

definition remove_nth :: "nat \<Rightarrow> 'a list \<Rightarrow> 'a list" where
  "remove_nth i xs = take i xs @ drop (Suc i) xs"

lemma position_Some:
  "position P xs = Some i \<Longrightarrow> i < length xs \<and> P (xs ! i) \<and> (\<forall>j < i. \<not> P (xs ! j))"
proof (induction xs arbitrary: i)
  case Nil
  then show ?case by simp
next
  case (Cons x xs)
  then show ?case
    by (auto split: if_splits simp: nth_Cons split: nat.splits)
qed

lemma position_None: "position P xs = None \<longleftrightarrow> (\<forall>x \<in> set xs. \<not> P x)"
  by (induction xs) auto

lemma remove_nth_Cons [simp]:
  "remove_nth 0 (x # xs) = xs"
  "remove_nth (Suc i) (x # xs) = x # remove_nth i xs"
  by (simp_all add: remove_nth_def)

lemma set_remove_nth: "set (remove_nth i xs) \<subseteq> set xs"
  by (auto simp: remove_nth_def dest: in_set_takeD in_set_dropD)

lemma length_remove_nth [simp]:
  "i < length xs \<Longrightarrow> length (remove_nth i xs) = length xs - 1"
  by (simp add: remove_nth_def)

section \<open>Natural numbers\<close>

lemma multiple_le_add:
  fixes x y n :: nat
  assumes "x mod n = 0" "y mod n = 0" "x < y"
  shows "x + n \<le> y"
proof -
  obtain a b where "x = n * a" "y = n * b"
    using assms(1,2) by (metis mod_0_imp_dvd dvdE)
  with assms(3) show ?thesis
    by (metis Suc_leI mult_Suc_right mult_le_mono2 mult_less_cancel1 add.commute)
qed

text \<open>Multiples of \<open>n\<close> above \<open>r\<close> are told apart by the index of their block of size
  \<open>n\<close> counted from \<open>r\<close>.\<close>

lemma div_diff_inj:
  fixes x y r n :: nat
  assumes "0 < n" "x mod n = 0" "y mod n = 0" "r \<le> x" "r \<le> y"
    and "(x - r) div n = (y - r) div n"
  shows "x = y"
proof -
  have aux: False if "x < y" "x mod n = 0" "y mod n = 0" "r \<le> x"
    "(x - r) div n = (y - r) div n" for x y
  proof -
    have "(x - r) + n \<le> y - r"
      using multiple_le_add [OF that(2,3,1)] that(4) by simp
    then have "((x - r) + n) div n \<le> (y - r) div n" by (rule div_le_mono)
    moreover have "((x - r) + n) div n = (x - r) div n + 1"
      using assms(1) by (intro div_add_self2) simp
    ultimately show False using that(5) by linarith
  qed
  show ?thesis
    using aux [of x y] aux [of y x] assms by (cases x y rule: linorder_cases) auto
qed

section \<open>Loops\<close>

text \<open>\<open>for x in xs { f(x)?; }\<close>: the first error or panic ends the loop.\<close>

primrec forK :: "'x list \<Rightarrow> ('x \<Rightarrow> ('s, unit) kmon) \<Rightarrow> ('s, unit) kmon" where
  "forK [] f = retK ()"
| "forK (x # xs) f = bindK (f x) (\<lambda>_. forK xs f)"

text \<open>The first \<open>Some\<close> a scan produces.\<close>

fun first_some :: "('a \<Rightarrow> 'b option) \<Rightarrow> 'a list \<Rightarrow> 'b option" where
  "first_some f [] = None"
| "first_some f (x # xs) = (case f x of Some y \<Rightarrow> Some y | None \<Rightarrow> first_some f xs)"

lemma first_some_Some:
  "first_some f xs = Some y \<Longrightarrow> \<exists>x \<in> set xs. f x = Some y"
  by (induction xs) (auto split: option.splits)

lemma first_some_upt:
  assumes "first_some f [a..<b] = Some y"
  obtains i where "a \<le> i" "i < b" "f i = Some y"
  using first_some_Some [OF assms] unfolding set_upt by auto

lemma first_some_None: "first_some f xs = None \<longleftrightarrow> (\<forall>x \<in> set xs. f x = None)"
  by (induction xs) (auto split: option.splits)

text \<open>A loop whose body keeps a property of the state, whatever its outcome.\<close>

lemma forK_invariant:
  assumes "\<And>x s. x \<in> set xs \<Longrightarrow> P s \<Longrightarrow> P (snd (f x s))" "P s"
  shows "P (snd (forK xs f s))"
  using assms
proof (induction xs arbitrary: s)
  case (Cons x xs)
  obtain r s1 where fx: "f x s = (r, s1)" by fastforce
  have "P s1" using Cons.prems(1) [of x s] Cons.prems(2) fx by simp
  then show ?case
    using Cons.IH [of s1] Cons.prems(1) fx by (cases r) (simp_all add: bindK_def)
qed (simp add: retK_def)

end
