(* ===== verification/Pmm.thy ===== *)
theory Pmm
  imports Prelude
begin

text \<open>
  The physical memory manager, \<open>src/mm/pmm.rs\<close>.

  A physical page frame is 4096 bytes; every access of the memory manager and of the page-table
  code is to an aligned 8-byte word of a page-aligned frame, so physical memory is a function
  from the base address of a frame and the index of a word in it (below 512) to the word.
  The statics \<open>RAM_START\<close>, \<open>RAM_END\<close>, \<open>FREE_LIST\<close> and \<open>PAGE_REF_COUNTS\<close> and the
  memory are the fields of the record \<open>pmm\<close>.  The two spinlocks are not part of the state:
  each operation below is one critical section.
\<close>

section \<open>State\<close>

type_synonym pframe = "nat \<Rightarrow> usize"
type_synonym memory = "usize \<Rightarrow> pframe"

definition PAGE_SIZE :: usize where
  "PAGE_SIZE = 4096"

definition MAX_PAGES :: nat where
  "MAX_PAGES = 524288"

text \<open>Eight copies of \<open>POISON_BYTE = 0xCD\<close>.\<close>

definition POISON_WORD :: usize where
  "POISON_WORD = 0xCDCDCDCDCDCDCDCD"

record pmm =
  ram_start :: usize
  ram_end :: usize
  free_list :: usize
  page_ref_counts :: "nat \<Rightarrow> u16"
  mem :: memory

section \<open>Operations\<close>

definition page_index :: "pmm \<Rightarrow> usize \<Rightarrow> nat" where
  "page_index s pa =
     (if pa < ram_start s then MAX_PAGES
      else let idx = unat ((pa - ram_start s) div PAGE_SIZE)
           in if idx < MAX_PAGES then idx else MAX_PAGES)"

definition is_managed_page :: "pmm \<Rightarrow> usize \<Rightarrow> bool" where
  "is_managed_page s pa \<longleftrightarrow>
     ram_start s \<le> pa \<and> pa < ram_start s + of_nat MAX_PAGES * PAGE_SIZE"

definition zero_frame :: pframe where
  "zero_frame = (\<lambda>_. 0)"

text \<open>Word 0 of a free page is the link; \<open>write_bytes(page + 8, POISON_BYTE, PAGE_SIZE - 8)\<close>
  fills the rest.\<close>

definition poisoned :: "usize \<Rightarrow> pframe" where
  "poisoned link = (\<lambda>i. if i = 0 then link else POISON_WORD)"

definition set_count :: "nat \<Rightarrow> u16 \<Rightarrow> pmm \<Rightarrow> pmm" where
  "set_count idx c s = s\<lparr>page_ref_counts := (page_ref_counts s)(idx := c)\<rparr>"

definition set_frame :: "usize \<Rightarrow> pframe \<Rightarrow> pmm \<Rightarrow> pmm" where
  "set_frame pa f s = s\<lparr>mem := (mem s)(pa := f)\<rparr>"

definition push_free :: "usize \<Rightarrow> pmm \<Rightarrow> pmm" where
  "push_free page s = (set_frame page (poisoned (free_list s)) s)\<lparr>free_list := page\<rparr>"

text \<open>\<open>alloc_frame\<close>: pop the head of the free list, check the poison byte at offset 8, zero the
  page and set its reference count to one.\<close>

definition alloc_frame :: "(pmm, usize option) kmon" where
  "alloc_frame s =
     (let page = free_list s in
      if page = 0 then (Ok None, s)
      else
        let s1 = s\<lparr>free_list := mem s page 0\<rparr> in
        if mem s1 page 1 AND 0xFF \<noteq> 0xCD then (Panic ''free-list corruption'', s1)
        else
          let s2 = set_frame page zero_frame s1;
              idx = page_index s2 page
          in (Ok (Some page), if idx < MAX_PAGES then set_count idx 1 s2 else s2))"

definition free_page :: "usize \<Rightarrow> (pmm, unit) kmon" where
  "free_page page s =
     (if page mod PAGE_SIZE \<noteq> 0 then (Panic ''free_page: misaligned address'', s)
      else
        let idx = page_index s page in
        if MAX_PAGES \<le> idx then (Ok (), s)
        else if page_ref_counts s idx = 0 then (Panic ''double-free of physical page'', s)
        else (Ok (), push_free page (set_count idx 0 s)))"

definition incr_ref :: "usize \<Rightarrow> pmm \<Rightarrow> pmm" where
  "incr_ref page s =
     (let idx = page_index s page in
      if idx < MAX_PAGES then set_count idx (saturating_add (page_ref_counts s idx) 1) s
      else s)"

definition decr_ref :: "usize \<Rightarrow> pmm \<Rightarrow> nat \<times> pmm" where
  "decr_ref page s =
     (if \<not> is_managed_page s page then (0, s)
      else
        let idx = page_index s page in
        if idx < MAX_PAGES then
          if 1 < page_ref_counts s idx
          then let c = page_ref_counts s idx - 1 in (unat c, set_count idx c s)
          else (0, set_count idx 0 s)
        else (0, s))"

definition decr_ref_and_maybe_free :: "usize \<Rightarrow> pmm \<Rightarrow> pmm" where
  "decr_ref_and_maybe_free page s =
     (let idx = page_index s page in
      if MAX_PAGES \<le> idx \<or> \<not> is_managed_page s page then s
      else if 1 < page_ref_counts s idx then set_count idx (page_ref_counts s idx - 1) s
      else push_free page (set_count idx 0 s))"

text \<open>\<open>PhysFrame\<close> is the address of its frame; dropping the guard gives the frame back, and
  \<open>into_raw\<close> forgets the guard.\<close>

definition PhysFrame_drop :: "usize \<Rightarrow> pmm \<Rightarrow> pmm" where
  "PhysFrame_drop pa = decr_ref_and_maybe_free pa"

subsection \<open>Boot\<close>

text \<open>What \<open>init\<close> reads from the device tree (through the \<open>fdt\<close> crate) and from the linker
  symbol \<open>_stack_end\<close>.\<close>

record boot_info =
  region_start :: usize
  region_size :: usize
  dtb_ptr :: usize
  fdt_total_size :: usize
  chosen_initrd :: "(usize \<times> usize) option"
  stack_end_sym :: usize

record boot_ranges =
  b_ram_end :: usize
  fdt_start :: usize
  fdt_end :: usize
  initrd_start :: usize
  initrd_end :: usize

definition overlaps_reserved :: "boot_ranges \<Rightarrow> usize \<Rightarrow> bool" where
  "overlaps_reserved b cur \<longleftrightarrow>
     (let next = cur + PAGE_SIZE in
        cur < fdt_end b \<and> fdt_start b < next
      \<or> 0 < initrd_start b \<and> cur < initrd_end b \<and> initrd_start b < next)"

text \<open>The loop that links the free pages.  \<open>cur + PAGE_SIZE\<close> is a checked addition.\<close>

function init_loop ::
  "boot_ranges \<Rightarrow> usize \<Rightarrow> usize \<Rightarrow> usize \<Rightarrow> memory \<Rightarrow> (usize \<times> usize \<times> memory) rr" where
  "init_loop b cur head prev m =
     (if 2 ^ 64 \<le> unat cur + 4096 then Panic ''attempt to add with overflow''
      else if cur + PAGE_SIZE \<le> b_ram_end b then
        if \<not> overlaps_reserved b cur then
          let m1 = m(cur := poisoned (m cur 0)) in
          if head = 0 then init_loop b (cur + PAGE_SIZE) cur cur m1
          else init_loop b (cur + PAGE_SIZE) head cur (m1(prev := (m1 prev)(0 := cur)))
        else init_loop b (cur + PAGE_SIZE) head prev m
      else Ok (head, prev, m))"
  by pat_completeness auto
termination
  by (relation "measure (\<lambda>(b, cur, head, prev, m). 2 ^ 64 - unat cur)")
    (auto simp: PAGE_SIZE_def unat_word_ariths)

definition init_ranges :: "boot_info \<Rightarrow> boot_ranges" where
  "init_ranges bi =
     \<lparr>b_ram_end = region_start bi + region_size bi,
      fdt_start = dtb_ptr bi,
      fdt_end = dtb_ptr bi + fdt_total_size bi,
      initrd_start = (case chosen_initrd bi of None \<Rightarrow> 0 | Some (s, e) \<Rightarrow> s),
      initrd_end = (case chosen_initrd bi of None \<Rightarrow> 0 | Some (s, e) \<Rightarrow> e)\<rparr>"

definition kernel_end :: "boot_info \<Rightarrow> usize" where
  "kernel_end bi = (stack_end_sym bi + PAGE_SIZE - 1) AND NOT (PAGE_SIZE - 1)"

definition pmm_init :: "boot_info \<Rightarrow> (pmm, unit) kmon" where
  "pmm_init bi s =
     (let b = init_ranges bi;
          s1 = s\<lparr>ram_start := region_start bi, ram_end := b_ram_end b\<rparr>
      in case init_loop b (kernel_end bi) 0 0 (mem s1) of
           Ok (head, prev, m) \<Rightarrow>
             (Ok (), s1\<lparr>free_list := head,
                        mem := (if prev \<noteq> 0 then m(prev := (m prev)(0 := 0)) else m)\<rparr>)
         | Err e \<Rightarrow> (Err e, s1)
         | Panic e \<Rightarrow> (Panic e, s1))"

section \<open>Invariant\<close>

text \<open>\<open>free_chain m h ps\<close>: following the links from \<open>h\<close> visits exactly the pages \<open>ps\<close>
  and ends at the null address.\<close>

fun free_chain :: "memory \<Rightarrow> usize \<Rightarrow> usize list \<Rightarrow> bool" where
  "free_chain m h [] \<longleftrightarrow> h = 0"
| "free_chain m h (p # ps) \<longleftrightarrow> h = p \<and> p \<noteq> 0 \<and> free_chain m (m p 0) ps"

definition page_aligned :: "usize \<Rightarrow> bool" where
  "page_aligned pa \<longleftrightarrow> pa mod PAGE_SIZE = 0"

text \<open>A free page is aligned, tracked by the reference-count table with count zero, and poisoned.\<close>

definition free_ok :: "pmm \<Rightarrow> usize \<Rightarrow> bool" where
  "free_ok s p \<longleftrightarrow>
     page_aligned p \<and> page_index s p < MAX_PAGES \<and> is_managed_page s p
   \<and> page_ref_counts s (page_index s p) = 0 \<and> mem s p 1 = POISON_WORD"

definition pmm_inv :: "pmm \<Rightarrow> usize list \<Rightarrow> bool" where
  "pmm_inv s ps \<longleftrightarrow>
     free_chain (mem s) (free_list s) ps \<and> distinct ps \<and> (\<forall>p \<in> set ps. free_ok s p)"

text \<open>A page in use: tracked, managed and with a positive count.\<close>

definition in_use :: "pmm \<Rightarrow> usize \<Rightarrow> bool" where
  "in_use s p \<longleftrightarrow>
     p \<noteq> 0 \<and> page_aligned p \<and> page_index s p < MAX_PAGES \<and> is_managed_page s p
   \<and> page_ref_counts s (page_index s p) \<noteq> 0"

definition refs :: "pmm \<Rightarrow> usize \<Rightarrow> nat" where
  "refs s p = unat (page_ref_counts s (page_index s p))"

section \<open>Basic lemmas\<close>

lemma page_index_cong:
  "ram_start s' = ram_start s \<Longrightarrow> page_index s' = page_index s"
  by (rule ext) (simp add: page_index_def)

lemma is_managed_cong:
  "ram_start s' = ram_start s \<Longrightarrow> is_managed_page s' = is_managed_page s"
  by (rule ext) (simp add: is_managed_page_def)

lemma set_count_simps [simp]:
  "ram_start (set_count i c s) = ram_start s"
  "ram_end (set_count i c s) = ram_end s"
  "free_list (set_count i c s) = free_list s"
  "mem (set_count i c s) = mem s"
  "page_ref_counts (set_count i c s) = (page_ref_counts s)(i := c)"
  by (simp_all add: set_count_def)

lemma set_frame_simps [simp]:
  "ram_start (set_frame p f s) = ram_start s"
  "ram_end (set_frame p f s) = ram_end s"
  "free_list (set_frame p f s) = free_list s"
  "mem (set_frame p f s) = (mem s)(p := f)"
  "page_ref_counts (set_frame p f s) = page_ref_counts s"
  by (simp_all add: set_frame_def)

lemma push_free_simps [simp]:
  "ram_start (push_free p s) = ram_start s"
  "ram_end (push_free p s) = ram_end s"
  "free_list (push_free p s) = p"
  "mem (push_free p s) = (mem s)(p := poisoned (free_list s))"
  "page_ref_counts (push_free p s) = page_ref_counts s"
  by (simp_all add: push_free_def)

lemma page_index_simps [simp]:
  "page_index (set_count i c s) = page_index s"
  "page_index (set_frame p f s) = page_index s"
  "page_index (push_free p s) = page_index s"
  "page_index (s\<lparr>free_list := h\<rparr>) = page_index s"
  "page_index (s\<lparr>mem := m\<rparr>) = page_index s"
  by (rule page_index_cong; simp)+

lemma is_managed_simps [simp]:
  "is_managed_page (set_count i c s) = is_managed_page s"
  "is_managed_page (set_frame p f s) = is_managed_page s"
  "is_managed_page (push_free p s) = is_managed_page s"
  "is_managed_page (s\<lparr>free_list := h\<rparr>) = is_managed_page s"
  "is_managed_page (s\<lparr>mem := m\<rparr>) = is_managed_page s"
  by (rule is_managed_cong; simp)+

lemma poisoned_simps [simp]:
  "poisoned l 0 = l" "i \<noteq> 0 \<Longrightarrow> poisoned l i = POISON_WORD"
  by (simp_all add: poisoned_def)

lemma zero_frame_simp [simp]: "zero_frame i = 0"
  by (simp add: zero_frame_def)

text \<open>Two aligned tracked pages with the same index are the same page.\<close>

lemma page_index_inj:
  assumes "page_aligned p" "page_aligned q" "page_index s p < MAX_PAGES"
    and eq: "page_index s p = page_index s q"
  shows "p = q"
proof -
  have lt: "page_index s q < MAX_PAGES" using assms by simp
  have p: "ram_start s \<le> p" and ip: "page_index s p = unat ((p - ram_start s) div PAGE_SIZE)"
    using assms(3) by (auto simp: page_index_def Let_def not_less split: if_splits)
  have q: "ram_start s \<le> q" and iq: "page_index s q = unat ((q - ram_start s) div PAGE_SIZE)"
    using lt by (auto simp: page_index_def Let_def not_less split: if_splits)
  have blk: "(unat p - unat (ram_start s)) div 4096 = (unat q - unat (ram_start s)) div 4096"
    using eq p q unfolding ip iq by (simp add: unat_div unat_sub PAGE_SIZE_def)
  have al: "unat p mod 4096 = 0" "unat q mod 4096 = 0"
    using assms(1,2) by (simp_all add: page_aligned_def PAGE_SIZE_def unat_eq_0 unat_mod
        flip: unat_eq_zero)
  have le: "unat (ram_start s) \<le> unat p" "unat (ram_start s) \<le> unat q"
    using p q by (simp_all add: word_le_nat_alt)
  have "unat p = unat q" by (rule div_diff_inj [OF _ al le blk]) simp
  then show ?thesis by (simp add: word_unat_eq_iff)
qed

lemma free_chain_upd:
  "p \<notin> set ps \<Longrightarrow> free_chain (m(p := f)) h ps = free_chain m h ps"
  by (induction ps arbitrary: h) auto

lemma free_chain_unique:
  "free_chain m h ps \<Longrightarrow> free_chain m h qs \<Longrightarrow> ps = qs"
proof (induction ps arbitrary: h qs)
  case Nil
  then show ?case by (cases qs) auto
next
  case (Cons p ps)
  then show ?case by (cases qs) auto
qed

lemma pmm_inv_unique: "pmm_inv s ps \<Longrightarrow> pmm_inv s qs \<Longrightarrow> ps = qs"
  by (auto simp: pmm_inv_def dest: free_chain_unique)

lemma in_use_not_free: "pmm_inv s ps \<Longrightarrow> in_use s p \<Longrightarrow> p \<notin> set ps"
  by (auto simp: pmm_inv_def in_use_def free_ok_def)

text \<open>Writes to a frame outside the free list keep the invariant.\<close>

lemma pmm_inv_set_frame:
  "pmm_inv s ps \<Longrightarrow> p \<notin> set ps \<Longrightarrow> pmm_inv (set_frame p f s) ps"
  by (auto simp: pmm_inv_def free_ok_def free_chain_upd)

lemma pmm_inv_set_count:
  assumes "pmm_inv s ps" "page_aligned p" "page_index s p < MAX_PAGES" "p \<notin> set ps"
  shows "pmm_inv (set_count (page_index s p) c s) ps"
  using assms by (auto simp: pmm_inv_def free_ok_def dest: page_index_inj)

section \<open>Allocation and release\<close>

lemma alloc_frame_empty: "pmm_inv s [] \<Longrightarrow> alloc_frame s = (Ok None, s)"
  by (simp add: pmm_inv_def alloc_frame_def Let_def)

definition allocated :: "usize \<Rightarrow> pmm \<Rightarrow> pmm" where
  "allocated p s =
     set_count (page_index s p) 1 (set_frame p zero_frame (s\<lparr>free_list := mem s p 0\<rparr>))"

lemma alloc_frame_Cons:
  assumes "pmm_inv s (p # ps)"
  shows "alloc_frame s = (Ok (Some p), allocated p s)"
proof -
  have "free_list s = p" "p \<noteq> 0" "mem s p 1 = POISON_WORD" "page_index s p < MAX_PAGES"
    using assms by (auto simp: pmm_inv_def free_ok_def)
  then show ?thesis
    by (simp add: alloc_frame_def Let_def allocated_def POISON_WORD_def)
qed

lemma pmm_inv_allocated:
  assumes "pmm_inv s (p # ps)"
  shows "pmm_inv (allocated p s) ps"
proof -
  have fresh: "p \<notin> set ps" and ok: "free_ok s p" and oks: "\<forall>q \<in> set ps. free_ok s q"
    using assms by (auto simp: pmm_inv_def)
  have "page_index s q \<noteq> page_index s p" if "q \<in> set ps" for q
    using that fresh ok oks by (auto simp: free_ok_def dest: page_index_inj)
  with assms show ?thesis
    by (auto simp: pmm_inv_def free_ok_def allocated_def free_chain_upd)
qed

lemma allocated_simps [simp]:
  "mem (allocated p s) = (mem s)(p := zero_frame)"
  "page_ref_counts (allocated p s) = (page_ref_counts s)(page_index s p := 1)"
  "page_index (allocated p s) = page_index s"
  "is_managed_page (allocated p s) = is_managed_page s"
  "ram_start (allocated p s) = ram_start s"
  by (simp_all add: allocated_def)

lemma in_use_allocated:
  assumes "pmm_inv s (p # ps)"
  shows "in_use (allocated p s) p"
  using assms by (auto simp: in_use_def pmm_inv_def free_ok_def)

lemma push_free_inv:
  assumes inv: "pmm_inv s ps" and use: "in_use s p"
  shows "pmm_inv (push_free p (set_count (page_index s p) 0 s)) (p # ps)"
proof -
  have fresh: "p \<notin> set ps" using in_use_not_free [OF inv use] .
  from inv use fresh show ?thesis
    by (auto simp: pmm_inv_def free_ok_def in_use_def free_chain_upd)
qed

lemma free_page_in_use:
  assumes "in_use s p"
  shows "free_page p s = (Ok (), push_free p (set_count (page_index s p) 0 s))"
  using assms by (auto simp: free_page_def in_use_def page_aligned_def Let_def)

lemma decr_ref_and_maybe_free_last:
  assumes "in_use s p" "refs s p = 1"
  shows "decr_ref_and_maybe_free p s = push_free p (set_count (page_index s p) 0 s)"
  using assms by (auto simp: decr_ref_and_maybe_free_def in_use_def refs_def Let_def
      word_less_nat_alt)

lemma decr_ref_and_maybe_free_shared:
  assumes "in_use s p" "1 < refs s p"
  shows "decr_ref_and_maybe_free p s =
    set_count (page_index s p) (page_ref_counts s (page_index s p) - 1) s"
  using assms by (auto simp: decr_ref_and_maybe_free_def in_use_def refs_def Let_def
      word_less_nat_alt)

section \<open>Boot builds the free list\<close>

text \<open>The pages \<open>init\<close> links, in the order it links them.\<close>

function boot_pages :: "boot_ranges \<Rightarrow> usize \<Rightarrow> usize list" where
  "boot_pages b cur =
     (if unat cur + 4096 \<le> unat (b_ram_end b) then
        (if overlaps_reserved b cur then [] else [cur]) @ boot_pages b (cur + PAGE_SIZE)
      else [])"
  by pat_completeness auto
termination
proof (relation "measure (\<lambda>(b, cur). 2 ^ 64 - unat cur)")
  fix b :: boot_ranges and cur :: usize
  assume "unat cur + 4096 \<le> unat (b_ram_end b)"
  then have "unat cur + 4096 < 18446744073709551616"
    using unat_lt_2p64 le_less_trans by blast
  then show "((b, cur + PAGE_SIZE), (b, cur)) \<in> measure (\<lambda>(b, cur). 2 ^ 64 - unat cur)"
    by (simp add: PAGE_SIZE_def unat_word_ariths)
qed simp

declare boot_pages.simps [simp del] init_loop.simps [simp del]

text \<open>\<open>links m ps\<close>: each page's first word is the address of the next one.\<close>

fun links :: "memory \<Rightarrow> usize list \<Rightarrow> bool" where
  "links m (p # q # ps) \<longleftrightarrow> m p 0 = q \<and> links m (q # ps)"
| "links m _ \<longleftrightarrow> True"

lemma unat_next_page:
  "unat cur + 4096 < 2 ^ 64 \<Longrightarrow> unat (cur + PAGE_SIZE) = unat cur + 4096"
  by (simp add: PAGE_SIZE_def unat_word_ariths)

lemma boot_pages_bounds:
  "p \<in> set (boot_pages b cur) \<Longrightarrow>
     unat cur \<le> unat p \<and> unat p + 4096 \<le> unat (b_ram_end b) \<and> \<not> overlaps_reserved b p
   \<and> (unat p - unat cur) mod 4096 = 0"
proof (induction b cur rule: boot_pages.induct)
  case (1 b cur)
  have in_range: "unat cur + 4096 \<le> unat (b_ram_end b)"
    using "1.prems" by (subst (asm) boot_pages.simps) (simp split: if_splits)
  have lt: "unat cur + 4096 < 2 ^ 64"
    using in_range unat_lt_2p64 [of "b_ram_end b"] by simp
  from in_range "1.prems" consider
    (here) "p = cur" "\<not> overlaps_reserved b cur" | (later) "p \<in> set (boot_pages b (cur + PAGE_SIZE))"
    by (subst (asm) boot_pages.simps) (auto split: if_splits)
  then show ?case
  proof cases
    case here
    with in_range show ?thesis by simp
  next
    case later
    then have IH: "unat cur + 4096 \<le> unat p" "unat p + 4096 \<le> unat (b_ram_end b)"
      "\<not> overlaps_reserved b p" "(unat p - (unat cur + 4096)) mod 4096 = 0"
      using "1.IH" [OF in_range later] by (simp_all add: unat_next_page [OF lt])
    have "unat p - unat cur = (unat p - (unat cur + 4096)) + 4096"
      using IH(1) by simp
    then have "(unat p - unat cur) mod 4096 = 0"
      using IH(4) by (simp only: mod_add_self2)
    with IH show ?thesis by simp
  qed
qed

lemma boot_pages_sorted: "sorted_wrt (<) (map unat (boot_pages b cur))"
proof (induction b cur rule: boot_pages.induct)
  case (1 b cur)
  show ?case
  proof (cases "unat cur + 4096 \<le> unat (b_ram_end b)")
    case True
    have lt: "unat cur + 4096 < 2 ^ 64"
      using True unat_lt_2p64 [of "b_ram_end b"] by simp
    have "unat cur < unat q" if "q \<in> set (boot_pages b (cur + PAGE_SIZE))" for q
      using boot_pages_bounds [OF that] unat_next_page [OF lt] by simp
    with "1.IH" [OF True] True show ?thesis
      by (subst boot_pages.simps) auto
  next
    case False
    then show ?thesis by (subst boot_pages.simps) simp
  qed
qed

lemma boot_pages_distinct: "distinct (boot_pages b cur)"
  using boot_pages_sorted [of b cur] strict_sorted_iff [of "map unat (boot_pages b cur)"]
  by (auto simp: distinct_map)

lemma boot_pages_fresh:
  assumes "unat cur + 4096 \<le> unat (b_ram_end b)" "unat q \<le> unat cur"
  shows "q \<notin> set (boot_pages b (cur + PAGE_SIZE))"
proof
  assume "q \<in> set (boot_pages b (cur + PAGE_SIZE))"
  then have "unat (cur + PAGE_SIZE) \<le> unat q" by (simp add: boot_pages_bounds)
  moreover have "unat cur + 4096 < 2 ^ 64"
    using assms(1) unat_lt_2p64 [of "b_ram_end b"] by simp
  ultimately show False using assms(2) unat_next_page by simp
qed

text \<open>What the loop does once the first page has been linked.\<close>

definition linked_after ::
  "usize list \<Rightarrow> usize \<Rightarrow> memory \<Rightarrow> memory \<Rightarrow> bool" where
  "linked_after ps prev m m' \<longleftrightarrow>
     links m' (prev # ps) \<and> (\<forall>p \<in> set ps. \<forall>i > 0. m' p i = POISON_WORD)
   \<and> (\<forall>i > 0. m' prev i = m prev i) \<and> (\<forall>q. q \<notin> set (prev # ps) \<longrightarrow> m' q = m q)"

lemma page_le_ram_end:
  assumes "unat (b_ram_end b) + 4096 < 2 ^ 64" "unat cur \<le> unat (b_ram_end b)"
  shows "cur + PAGE_SIZE \<le> b_ram_end b \<longleftrightarrow> unat cur + 4096 \<le> unat (b_ram_end b)"
proof -
  have "unat (cur + PAGE_SIZE) = unat cur + 4096"
    using assms by (intro unat_next_page) simp
  then show ?thesis by (simp add: word_le_nat_alt)
qed

lemma init_loop_linked:
  assumes "unat (b_ram_end b) + 4096 < 2 ^ 64" "unat cur \<le> unat (b_ram_end b)"
    and "head \<noteq> 0" "unat prev < unat cur"
  shows "\<exists>m'. init_loop b cur head prev m = Ok (head, last (prev # boot_pages b cur), m')
            \<and> linked_after (boot_pages b cur) prev m m'"
  using assms
proof (induction b cur head prev m rule: init_loop.induct)
  case (1 b cur head prev m)
  note ov = page_le_ram_end [OF "1.prems"(1,2)]
  have no_ov: "\<not> 2 ^ 64 \<le> unat cur + 4096" using "1.prems"(1,2) by linarith
  show ?case
  proof (cases "unat cur + 4096 \<le> unat (b_ram_end b)")
    case False
    with no_ov ov have "init_loop b cur head prev m = Ok (head, prev, m)"
      by (subst init_loop.simps) simp
    with False show ?thesis
      by (subst (1 2) boot_pages.simps) (simp add: linked_after_def)
  next
    case True
    have nxt: "unat (cur + PAGE_SIZE) = unat cur + 4096"
      using no_ov by (intro unat_next_page) simp
    have ok: "cur + PAGE_SIZE \<le> b_ram_end b" using True ov by simp
    show ?thesis
    proof (cases "overlaps_reserved b cur")
      case res: True
      have eq: "init_loop b cur head prev m = init_loop b (cur + PAGE_SIZE) head prev m"
        using no_ov ok res by (subst init_loop.simps) simp
      have bp: "boot_pages b cur = boot_pages b (cur + PAGE_SIZE)"
        using True res by (subst boot_pages.simps) simp
      show ?thesis
        unfolding eq bp using "1.IH"(3) [OF no_ov ok] res "1.prems" nxt True by simp
    next
      case res: False
      define m1 where "m1 = m(cur := poisoned (m cur 0))"
      define m2 where "m2 = m1(prev := (m1 prev)(0 := cur))"
      have eq: "init_loop b cur head prev m = init_loop b (cur + PAGE_SIZE) head cur m2"
        using no_ov ok res "1.prems"(3) by (subst init_loop.simps) (simp add: m1_def m2_def Let_def)
      have bp: "boot_pages b cur = cur # boot_pages b (cur + PAGE_SIZE)"
        using True res by (subst boot_pages.simps) simp
      obtain m' where m': "init_loop b (cur + PAGE_SIZE) head cur m2 =
          Ok (head, last (cur # boot_pages b (cur + PAGE_SIZE)), m')"
        and la: "linked_after (boot_pages b (cur + PAGE_SIZE)) cur m2 m'"
        using "1.IH"(2) [OF no_ov ok res m1_def "1.prems"(3) "1.prems"(1) _ "1.prems"(3)] nxt True
        unfolding m2_def by (metis less_add_same_cancel1 zero_less_numeral)
      have neq: "prev \<noteq> cur" using "1.prems"(4) by auto
      have fresh: "prev \<notin> set (boot_pages b (cur + PAGE_SIZE))"
        using boot_pages_fresh [OF True] "1.prems"(4) by simp
      have "m' prev = m2 prev" using la neq fresh by (simp add: linked_after_def)
      moreover have "m2 prev = (m prev)(0 := cur)" using neq by (simp add: m2_def m1_def)
      moreover have "m2 cur i = POISON_WORD" if "i > 0" for i
        using neq that by (simp add: m2_def m1_def)
      moreover have "m2 q = m q" if "q \<noteq> prev" "q \<noteq> cur" for q
        using that by (simp add: m2_def m1_def)
      ultimately have "linked_after (cur # boot_pages b (cur + PAGE_SIZE)) prev m m'"
        using la by (auto simp: linked_after_def)
      with m' show ?thesis unfolding eq bp by simp
    qed
  qed
qed

lemma init_loop_first:
  assumes "unat (b_ram_end b) + 4096 < 2 ^ 64" "unat cur \<le> unat (b_ram_end b)" "0 < unat cur"
  shows "case boot_pages b cur of
           [] \<Rightarrow> init_loop b cur 0 0 m = Ok (0, 0, m)
         | p # ps \<Rightarrow> \<exists>m'. init_loop b cur 0 0 m = Ok (p, last (p # ps), m')
             \<and> linked_after ps p (m(p := poisoned (m p 0))) m'"
  using assms
proof (induction b cur rule: boot_pages.induct)
  case (1 b cur)
  note ov = page_le_ram_end [OF "1.prems"(1,2)]
  have no_ov: "\<not> 2 ^ 64 \<le> unat cur + 4096" using "1.prems"(1,2) by linarith
  show ?case
  proof (cases "unat cur + 4096 \<le> unat (b_ram_end b)")
    case False
    with no_ov ov show ?thesis
      by (subst init_loop.simps, subst boot_pages.simps) simp
  next
    case True
    have nxt: "unat (cur + PAGE_SIZE) = unat cur + 4096"
      using no_ov by (intro unat_next_page) simp
    have ok: "cur + PAGE_SIZE \<le> b_ram_end b" using True ov by simp
    show ?thesis
    proof (cases "overlaps_reserved b cur")
      case res: True
      have eq: "init_loop b cur 0 0 m = init_loop b (cur + PAGE_SIZE) 0 0 m"
        using no_ov ok res by (subst init_loop.simps) simp
      have bp: "boot_pages b cur = boot_pages b (cur + PAGE_SIZE)"
        using True res by (subst boot_pages.simps) simp
      show ?thesis
        unfolding eq bp using "1.IH" [OF True] "1.prems" nxt True by simp
    next
      case res: False
      have eq: "init_loop b cur 0 0 m
          = init_loop b (cur + PAGE_SIZE) cur cur (m(cur := poisoned (m cur 0)))"
        using no_ov ok res by (subst init_loop.simps) (simp add: Let_def)
      have bp: "boot_pages b cur = cur # boot_pages b (cur + PAGE_SIZE)"
        using True res by (subst boot_pages.simps) simp
      have "cur \<noteq> 0" using "1.prems"(3) by auto
      then show ?thesis
        unfolding eq bp list.case
        using init_loop_linked [of b "cur + PAGE_SIZE" cur cur] "1.prems"(1) nxt True by simp
    qed
  qed
qed

lemma links_free_chain:
  "ps \<noteq> [] \<Longrightarrow> links m ps \<Longrightarrow> distinct ps \<Longrightarrow> 0 \<notin> set ps \<Longrightarrow>
   free_chain (m(last ps := (m (last ps))(0 := 0))) (hd ps) ps"
proof (induction m ps rule: links.induct)
  case (1 m p q ps)
  then show ?case by (auto simp: fun_upd_def)
qed auto

text \<open>The pages handed to the allocator at boot: page aligned, above the kernel image, below the
  end of memory, and clear of the device tree and of the initial ramdisk.\<close>

definition boot_free :: "boot_info \<Rightarrow> usize list" where
  "boot_free bi = boot_pages (init_ranges bi) (kernel_end bi)"

text \<open>What the boot environment provides: the kernel image lies in the region, the region is
  smaller than the reference-count table and does not touch the end of the address space.\<close>

definition boot_ok :: "boot_info \<Rightarrow> bool" where
  "boot_ok bi \<longleftrightarrow>
     unat (region_start bi) + unat (region_size bi) + 4096 < 2 ^ 64
   \<and> unat (region_start bi) + 4096 * MAX_PAGES < 2 ^ 64
   \<and> unat (region_size bi) \<le> 4096 * MAX_PAGES
   \<and> 0 < unat (kernel_end bi)
   \<and> unat (region_start bi) \<le> unat (kernel_end bi)
   \<and> unat (kernel_end bi) \<le> unat (region_start bi) + unat (region_size bi)"

lemma unat_b_ram_end:
  "boot_ok bi \<Longrightarrow> unat (b_ram_end (init_ranges bi)) = unat (region_start bi) + unat (region_size bi)"
  by (simp add: boot_ok_def init_ranges_def unat_add_no_wrap)

lemma kernel_end_aligned: "unat (kernel_end bi) mod 4096 = 0"
proof -
  have "take_bit 12 (x AND NOT 4095 :: usize) = 0" for x
    by (rule bit_eqI) (auto simp: bit_simps mask_eq_exp_minus_1 simp flip: mask_eq_exp_minus_1
        [of 12, simplified])
  then have "take_bit 12 (kernel_end bi) = 0" by (simp add: kernel_end_def PAGE_SIZE_def)
  then have "take_bit 12 (unat (kernel_end bi)) = 0" by (simp flip: unsigned_take_bit_eq)
  then show ?thesis by (simp add: take_bit_eq_mod)
qed

lemma boot_free_bounds:
  assumes "boot_ok bi" "p \<in> set (boot_free bi)"
  shows "unat (kernel_end bi) \<le> unat p"
    and "unat p + 4096 \<le> unat (region_start bi) + unat (region_size bi)"
    and "\<not> overlaps_reserved (init_ranges bi) p" and "unat p mod 4096 = 0"
proof -
  note * = boot_pages_bounds [OF assms(2) [unfolded boot_free_def]] unat_b_ram_end [OF assms(1)]
  show 1: "unat (kernel_end bi) \<le> unat p"
    and "unat p + 4096 \<le> unat (region_start bi) + unat (region_size bi)"
    and "\<not> overlaps_reserved (init_ranges bi) p"
    using * by auto
  have "unat p = (unat p - unat (kernel_end bi)) + unat (kernel_end bi)" using 1 by simp
  then show "unat p mod 4096 = 0"
    using * kernel_end_aligned by (metis add_0 mod_add_eq mod_0)
qed

lemma boot_free_managed:
  assumes ok: "boot_ok bi" and p: "p \<in> set (boot_free bi)" and rs: "ram_start s = region_start bi"
  shows "page_aligned p" "page_index s p < MAX_PAGES" "is_managed_page s p" "p \<noteq> 0"
proof -
  note b = boot_free_bounds [OF ok p]
  have le: "unat (region_start bi) \<le> unat p"
    using b(1) ok by (simp add: boot_ok_def)
  have d: "unat p - unat (region_start bi) < 4096 * MAX_PAGES"
    using b(2) le ok unfolding boot_ok_def MAX_PAGES_def by linarith
  show "page_aligned p"
    using b(4) by (simp add: page_aligned_def PAGE_SIZE_def unat_mod flip: unat_eq_zero)
  have "unat ((p - region_start bi) div PAGE_SIZE) = (unat p - unat (region_start bi)) div 4096"
    using le by (simp add: unat_div unat_sub word_le_nat_alt PAGE_SIZE_def)
  also have "\<dots> < MAX_PAGES"
    using d by (simp add: less_mult_imp_div_less mult.commute)
  finally show "page_index s p < MAX_PAGES"
    using le rs by (simp add: page_index_def word_less_nat_alt Let_def)
  have "unat (region_start bi + of_nat MAX_PAGES * PAGE_SIZE) = unat (region_start bi) + 4096 * MAX_PAGES"
    using ok by (simp add: boot_ok_def MAX_PAGES_def PAGE_SIZE_def unat_add_no_wrap)
  then show "is_managed_page s p"
    using le d rs by (simp add: is_managed_page_def word_less_nat_alt word_le_nat_alt)
  show "p \<noteq> 0" using b(1) ok by (auto simp: boot_ok_def)
qed

lemma pmm_init_chain:
  assumes ok: "boot_ok bi"
  shows "\<exists>s'. pmm_init bi s = (Ok (), s') \<and> free_chain (mem s') (free_list s') (boot_free bi)
    \<and> (\<forall>p \<in> set (boot_free bi). mem s' p 1 = POISON_WORD)
    \<and> ram_start s' = region_start bi \<and> page_ref_counts s' = page_ref_counts s"
proof (cases "boot_free bi")
  case Nil
  then have "init_loop (init_ranges bi) (kernel_end bi) 0 0 (mem s) = Ok (0, 0, mem s)"
    using init_loop_first [of "init_ranges bi" "kernel_end bi" "mem s"] ok
    by (simp add: unat_b_ram_end boot_free_def boot_ok_def)
  then show ?thesis by (simp add: Nil pmm_init_def Let_def)
next
  case (Cons p ps)
  obtain m' where m': "init_loop (init_ranges bi) (kernel_end bi) 0 0 (mem s) = Ok (p, last (p # ps), m')"
    and la: "linked_after ps p ((mem s)(p := poisoned (mem s p 0))) m'"
    using init_loop_first [of "init_ranges bi" "kernel_end bi" "mem s"] ok Cons
    by (auto simp: unat_b_ram_end boot_free_def boot_ok_def)
  let ?l = "last (p # ps)"
  have z: "0 \<notin> set (p # ps)"
    using boot_free_managed(4) [OF ok, of _ "s\<lparr>ram_start := region_start bi\<rparr>"] Cons by force
  have d: "distinct (p # ps)" using boot_pages_distinct Cons by (metis boot_free_def)
  have fc: "free_chain (m'(?l := (m' ?l)(0 := 0))) p (p # ps)"
    using links_free_chain [of "p # ps" m'] la d z by (simp add: linked_after_def)
  have po: "(m'(?l := (m' ?l)(0 := 0))) q 1 = POISON_WORD" if "q \<in> set (p # ps)" for q
    using la that by (auto simp: linked_after_def)
  have "?l \<noteq> 0" using z by (metis last_in_set list.distinct(1))
  then show ?thesis using m' fc po by (simp add: pmm_init_def Let_def Cons)
qed

lemma pmm_init_establishes_inv:
  assumes "boot_ok bi" "\<And>i. page_ref_counts s i = 0"
  shows "\<exists>s'. pmm_init bi s = (Ok (), s') \<and> pmm_inv s' (boot_free bi)"
proof -
  obtain s' where s': "pmm_init bi s = (Ok (), s')"
    "free_chain (mem s') (free_list s') (boot_free bi)"
    "\<forall>p \<in> set (boot_free bi). mem s' p 1 = POISON_WORD"
    "ram_start s' = region_start bi" "page_ref_counts s' = page_ref_counts s"
    using pmm_init_chain [OF assms(1)] by blast
  have "distinct (boot_free bi)" by (simp add: boot_free_def boot_pages_distinct)
  with s' assms show ?thesis
    by (auto simp: pmm_inv_def free_ok_def boot_free_managed)
qed

end
