(* ===== verification/Frame_Pool.thy ===== *)
theory Frame_Pool
  imports Pmm
begin

text \<open>The interface between the frame allocator and its clients, as a pair of locales.  The laws
  are stated over the list of free frames: an allocation takes the first one and hands it out
  zeroed and exclusively owned, a release of an exclusively owned frame puts it back in front.
  The clients' loops over these operations (allocate \<open>n\<close> frames or give back what was taken) are
  proved here once; \<open>Pmm\<close> provides the interface with \<open>alloc_frame\<close> and the drop of a
  \<open>PhysFrame\<close>, and \<open>Swap\<close> provides it with \<open>alloc_page\<close> and \<open>free_page\<close>.\<close>

section \<open>Client loops\<close>

text \<open>\<open>for p in pages { free(p) }\<close>.\<close>

definition free_all :: "(usize \<Rightarrow> ('s, unit) kmon) \<Rightarrow> usize list \<Rightarrow> ('s, unit) kmon" where
  "free_all free pages = forK pages free"

text \<open>\<open>for _ in 0..n { if let Some(page) = alloc() { pages.push(page) } else { free all; return None } }\<close>.\<close>

primrec alloc_pages ::
  "('s, usize option) kmon \<Rightarrow> (usize \<Rightarrow> ('s, unit) kmon) \<Rightarrow> nat \<Rightarrow> usize list
   \<Rightarrow> ('s, usize list option) kmon" where
  "alloc_pages alloc free 0 pages = retK (Some pages)"
| "alloc_pages alloc free (Suc n) pages =
     bindK alloc (\<lambda>r. case r of
         Some page \<Rightarrow> alloc_pages alloc free n (pages @ [page])
       | None \<Rightarrow> bindK (free_all free pages) (\<lambda>_. retK None))"

section \<open>The interface\<close>

locale frame_pool =
  fixes alloc :: "('s, usize option) kmon"
    and free :: "usize \<Rightarrow> ('s, unit) kmon"
    and inv :: "'s \<Rightarrow> usize list \<Rightarrow> bool"
    and sole :: "'s \<Rightarrow> usize \<Rightarrow> bool"
    and frame :: "'s \<Rightarrow> usize \<Rightarrow> pframe"
  assumes alloc_first:
    "inv s (p # ps) \<Longrightarrow> \<exists>s'. alloc s = (Ok (Some p), s') \<and> inv s' ps \<and> sole s' p
       \<and> frame s' p = zero_frame \<and> (\<forall>q. q \<noteq> p \<longrightarrow> frame s' q = frame s q)
       \<and> (\<forall>q. sole s q \<longrightarrow> sole s' q)"
    and free_sole:
    "inv s ps \<Longrightarrow> sole s p \<Longrightarrow> \<exists>s'. free p s = (Ok (), s') \<and> inv s' (p # ps)
       \<and> (\<forall>q. q \<noteq> p \<longrightarrow> frame s' q = frame s q) \<and> (\<forall>q. q \<noteq> p \<longrightarrow> sole s q \<longrightarrow> sole s' q)"
    and free_not_sole: "inv s ps \<Longrightarrow> p \<in> set ps \<Longrightarrow> \<not> sole s p"
    and inv_distinct: "inv s ps \<Longrightarrow> distinct ps"
begin

lemma free_all_sole:
  assumes "inv s ps" "\<forall>p \<in> set qs. sole s p" "distinct qs"
  shows "\<exists>s'. free_all free qs s = (Ok (), s') \<and> inv s' (rev qs @ ps)
    \<and> (\<forall>q. q \<notin> set qs \<longrightarrow> frame s' q = frame s q)
    \<and> (\<forall>q. q \<notin> set qs \<longrightarrow> sole s q \<longrightarrow> sole s' q)"
  using assms
proof (induction qs arbitrary: s ps)
  case Nil
  then show ?case by (simp add: free_all_def)
next
  case (Cons p qs)
  obtain s1 where s1: "free p s = (Ok (), s1)" "inv s1 (p # ps)"
    "\<forall>q. q \<noteq> p \<longrightarrow> frame s1 q = frame s q" "\<forall>q. q \<noteq> p \<longrightarrow> sole s q \<longrightarrow> sole s1 q"
    using free_sole [OF Cons.prems(1), of p] Cons.prems(2) by auto
  have "\<forall>q \<in> set qs. sole s1 q" using s1(4) Cons.prems(2,3) by auto
  from Cons.IH [OF s1(2) this] Cons.prems(3) s1 show ?case
    by (auto simp: free_all_def)
qed

lemma alloc_pages_enough:
  assumes "inv s ps" "n \<le> length ps"
  shows "\<exists>s'. alloc_pages alloc free n acc s = (Ok (Some (acc @ take n ps)), s')
    \<and> inv s' (drop n ps) \<and> (\<forall>p \<in> set (take n ps). sole s' p \<and> frame s' p = zero_frame)
    \<and> (\<forall>q. q \<notin> set (take n ps) \<longrightarrow> frame s' q = frame s q)
    \<and> (\<forall>q. sole s q \<longrightarrow> sole s' q)"
  using assms
proof (induction n arbitrary: s ps acc)
  case (Suc n)
  then obtain p qs where ps: "ps = p # qs" by (cases ps) auto
  obtain s1 where s1: "alloc s = (Ok (Some p), s1)" "inv s1 qs" "sole s1 p"
    "frame s1 p = zero_frame" "\<forall>q. q \<noteq> p \<longrightarrow> frame s1 q = frame s q"
    "\<forall>q. sole s q \<longrightarrow> sole s1 q"
    using alloc_first Suc.prems(1) ps by blast
  have "p \<notin> set (take n qs)"
    using inv_distinct Suc.prems(1) ps by (metis distinct.simps(2) in_set_takeD)
  with Suc.IH [OF s1(2), of "acc @ [p]"] Suc.prems(2) s1 ps show ?case
    by (auto simp: zero_frame_def)
qed simp

text \<open>Giving back what was just taken leaves the pool with the same frames.\<close>

lemma alloc_free_round_trip:
  assumes "inv s ps" "n \<le> length ps"
  shows "\<exists>s' s''. alloc_pages alloc free n [] s = (Ok (Some (take n ps)), s')
    \<and> free_all free (take n ps) s' = (Ok (), s'') \<and> inv s'' (rev (take n ps) @ drop n ps)"
proof -
  obtain s' where s': "alloc_pages alloc free n [] s = (Ok (Some (take n ps)), s')"
    "inv s' (drop n ps)" "\<forall>p \<in> set (take n ps). sole s' p"
    using alloc_pages_enough [OF assms, of "[]"] by auto
  from free_all_sole [OF s'(2,3)] inv_distinct [OF assms(1)] s'(1) show ?thesis by auto
qed

end

text \<open>A pool that reports exhaustion and changes nothing.\<close>

locale bounded_frame_pool = frame_pool +
  assumes alloc_empty: "inv s [] \<Longrightarrow> alloc s = (Ok None, s)"
begin

lemma alloc_pages_short:
  assumes "inv s ps" "length ps < n" "\<forall>p \<in> set acc. sole s p" "distinct acc"
  shows "\<exists>s'. alloc_pages alloc free n acc s = (Ok None, s') \<and> inv s' (rev (acc @ ps))"
  using assms
proof (induction n arbitrary: s ps acc)
  case (Suc n)
  show ?case
  proof (cases ps)
    case Nil
    then have "alloc s = (Ok None, s)" using alloc_empty Suc.prems(1) by simp
    with free_all_sole [OF Suc.prems(1,3,4)] Nil show ?thesis by auto
  next
    case (Cons p qs)
    obtain s1 where s1: "alloc s = (Ok (Some p), s1)" "inv s1 qs" "sole s1 p"
      "\<forall>q. sole s q \<longrightarrow> sole s1 q"
      using alloc_first Suc.prems(1) Cons by blast
    have "p \<notin> set acc" using free_not_sole [OF Suc.prems(1), of p] Suc.prems(3) Cons by auto
    with Suc.IH [OF s1(2), of "acc @ [p]"] Suc.prems s1 Cons show ?thesis by auto
  qed
qed simp

end

section \<open>The frame allocator provides it\<close>

definition pmm_sole :: "pmm \<Rightarrow> usize \<Rightarrow> bool" where
  "pmm_sole s p \<longleftrightarrow> in_use s p \<and> refs s p = 1"

definition drop_frame :: "usize \<Rightarrow> (pmm, unit) kmon" where
  "drop_frame p s = (Ok (), PhysFrame_drop p s)"

lemma pmm_sole_allocated:
  assumes "pmm_inv s (p # ps)"
  shows "pmm_sole (allocated p s) p" and "pmm_sole s q \<Longrightarrow> pmm_sole (allocated p s) q"
proof -
  show "pmm_sole (allocated p s) p"
    using in_use_allocated [OF assms] by (simp add: pmm_sole_def refs_def)
  assume "pmm_sole s q"
  then show "pmm_sole (allocated p s) q"
    using assms by (auto simp: pmm_sole_def in_use_def refs_def)
qed

lemma pmm_sole_push_free:
  assumes "pmm_sole s p" "pmm_sole s q" "q \<noteq> p"
  shows "pmm_sole (push_free p (set_count (page_index s p) 0 s)) q"
  using assms page_index_inj [of p q s] by (auto simp: pmm_sole_def in_use_def refs_def)

interpretation pool: bounded_frame_pool alloc_frame drop_frame pmm_inv pmm_sole mem
proof
  fix s p ps
  assume "pmm_inv s (p # ps)"
  then show "\<exists>s'. alloc_frame s = (Ok (Some p), s') \<and> pmm_inv s' ps \<and> pmm_sole s' p
    \<and> mem s' p = zero_frame \<and> (\<forall>q. q \<noteq> p \<longrightarrow> mem s' q = mem s q)
    \<and> (\<forall>q. pmm_sole s q \<longrightarrow> pmm_sole s' q)"
    by (auto simp: alloc_frame_Cons pmm_inv_allocated pmm_sole_allocated)
next
  fix s ps p
  assume inv: "pmm_inv s ps" and sole: "pmm_sole s p"
  have "drop_frame p s = (Ok (), push_free p (set_count (page_index s p) 0 s))"
    using sole by (simp add: drop_frame_def PhysFrame_drop_def decr_ref_and_maybe_free_last
        pmm_sole_def)
  moreover have "pmm_inv (push_free p (set_count (page_index s p) 0 s)) (p # ps)"
    using inv sole by (simp add: push_free_inv pmm_sole_def)
  ultimately show "\<exists>s'. drop_frame p s = (Ok (), s') \<and> pmm_inv s' (p # ps)
    \<and> (\<forall>q. q \<noteq> p \<longrightarrow> mem s' q = mem s q) \<and> (\<forall>q. q \<noteq> p \<longrightarrow> pmm_sole s q \<longrightarrow> pmm_sole s' q)"
    using sole by (auto intro: pmm_sole_push_free)
next
  fix s ps p
  assume "pmm_inv s ps" "p \<in> set ps"
  then show "\<not> pmm_sole s p"
    by (auto simp: pmm_sole_def dest: in_use_not_free)
qed (simp_all add: pmm_inv_def alloc_frame_empty)

section \<open>A concrete pool\<close>

text \<open>Memory of zeros from \<open>0x80000000\<close> on, with the given frames released into the free list.\<close>

definition empty_pmm :: pmm where
  "empty_pmm = \<lparr>ram_start = 0x80000000, ram_end = 0x88000000, free_list = 0,
                page_ref_counts = (\<lambda>_. 0), mem = (\<lambda>_. zero_frame)\<rparr>"

definition sample_pmm :: "usize list \<Rightarrow> pmm" where
  "sample_pmm ps = foldr push_free ps empty_pmm"

lemma sample_pmm_simps [simp]:
  "ram_start (sample_pmm ps) = 0x80000000" "page_ref_counts (sample_pmm ps) = (\<lambda>_. 0)"
  "page_index (sample_pmm ps) = page_index empty_pmm"
  "is_managed_page (sample_pmm ps) = is_managed_page empty_pmm"
proof -
  show "ram_start (sample_pmm ps) = 0x80000000" "page_ref_counts (sample_pmm ps) = (\<lambda>_. 0)"
    by (induction ps) (simp_all add: sample_pmm_def empty_pmm_def)
  then show "page_index (sample_pmm ps) = page_index empty_pmm"
    "is_managed_page (sample_pmm ps) = is_managed_page empty_pmm"
    by (auto intro: page_index_cong is_managed_cong simp: empty_pmm_def)
qed

lemma sample_pmm_mem: "q \<notin> set ps \<Longrightarrow> mem (sample_pmm ps) q = zero_frame"
  by (induction ps) (simp_all add: sample_pmm_def empty_pmm_def zero_frame_def)

definition sample_frame :: "usize \<Rightarrow> bool" where
  "sample_frame p \<longleftrightarrow> page_aligned p \<and> 0x80000000 \<le> p \<and> p < 0x88000000"

lemma sample_frame_managed:
  assumes "sample_frame p"
  shows "page_index empty_pmm p < MAX_PAGES" "is_managed_page empty_pmm p" "p \<noteq> 0"
proof -
  have le: "0x80000000 \<le> unat p" "unat p < 0x88000000"
    using assms by (simp_all add: sample_frame_def word_le_nat_alt word_less_nat_alt)
  have "unat ((p - 0x80000000) div 4096) = (unat p - 0x80000000) div 4096"
    using le by (simp add: unat_div unat_sub word_le_nat_alt)
  also have "\<dots> < MAX_PAGES" using le(2) by (simp add: MAX_PAGES_def less_mult_imp_div_less)
  finally show "page_index empty_pmm p < MAX_PAGES"
    using le by (simp add: page_index_def empty_pmm_def PAGE_SIZE_def word_less_nat_alt Let_def)
  show "is_managed_page empty_pmm p" "p \<noteq> 0"
    using le by (auto simp: is_managed_page_def empty_pmm_def MAX_PAGES_def PAGE_SIZE_def
        word_le_nat_alt word_less_nat_alt)
qed

lemma sample_pmm_inv:
  "distinct ps \<Longrightarrow> \<forall>p \<in> set ps. sample_frame p \<Longrightarrow> pmm_inv (sample_pmm ps) ps"
proof (induction ps)
  case Nil
  then show ?case by (simp add: sample_pmm_def empty_pmm_def pmm_inv_def)
next
  case (Cons p ps)
  then have IH: "pmm_inv (sample_pmm ps) ps" by simp
  have eq: "sample_pmm (p # ps) = push_free p (sample_pmm ps)" by (simp add: sample_pmm_def)
  have p: "sample_frame p" "p \<notin> set ps" using Cons.prems by auto
  have "free_ok (push_free p (sample_pmm ps)) p"
    using p sample_frame_managed [OF p(1)] by (simp add: free_ok_def sample_frame_def)
  moreover have "free_ok (push_free p (sample_pmm ps)) q" if "q \<in> set ps" for q
    using IH that p(2) by (auto simp: pmm_inv_def free_ok_def)
  ultimately show ?case
    using IH p sample_frame_managed(3) [OF p(1)]
    by (auto simp: eq pmm_inv_def free_chain_upd)
qed

lemmas sample_eval = sample_frame_def page_aligned_def PAGE_SIZE_def

end
