(* ===== verification/Vmm.thy ===== *)
theory Vmm
  imports Frame_Pool
begin

text \<open>The Sv39 page tables of \<open>src/mm/vmm.rs\<close>.  A page table is a frame of physical memory read
  as 512 entries, so the tables live in \<open>mem\<close> of the allocator's state and the operations work on
  that state.  The walk over the levels 2 and 1 is written out as two steps.  TLB flushes and
  inter-processor interrupts have no state in the model.\<close>

section \<open>Page table entries\<close>

definition PTE_V :: usize where "PTE_V = 1"
definition PTE_R :: usize where "PTE_R = 2"
definition PTE_W :: usize where "PTE_W = 4"
definition PTE_X :: usize where "PTE_X = 8"
definition PTE_U :: usize where "PTE_U = 16"
definition PTE_COW :: usize where "PTE_COW = 256"

lemmas pte_defs = PTE_V_def PTE_R_def PTE_W_def PTE_X_def PTE_U_def PTE_COW_def

text \<open>\<open>vpn[level]\<close> of a virtual address.\<close>

definition vpn :: "nat \<Rightarrow> usize \<Rightarrow> nat" where
  "vpn level va = unat (drop_bit (12 + 9 * level) va AND 0x1FF)"

text \<open>\<open>(entry >> 10) << 12\<close>, and \<open>((pa >> 12) << 10) | flags\<close>.\<close>

definition pte_pa :: "usize \<Rightarrow> usize" where
  "pte_pa entry = push_bit 12 (drop_bit 10 entry)"

definition mk_pte :: "usize \<Rightarrow> usize \<Rightarrow> usize" where
  "mk_pte pa flags = push_bit 10 (drop_bit 12 pa) OR flags"

definition is_leaf :: "usize \<Rightarrow> bool" where
  "is_leaf entry \<longleftrightarrow> entry AND (PTE_R OR PTE_X) \<noteq> 0"

definition get_entry :: "usize \<Rightarrow> nat \<Rightarrow> pmm \<Rightarrow> usize" where
  "get_entry pt i s = mem s pt i"

definition set_entry :: "usize \<Rightarrow> nat \<Rightarrow> usize \<Rightarrow> pmm \<Rightarrow> pmm" where
  "set_entry pt i e s = set_frame pt ((mem s pt)(i := e)) s"

section \<open>Mapping and walking\<close>

text \<open>The four root entries saved by \<open>vmm::init\<close> for the tables of all processes.\<close>

definition new_process_table :: "(nat \<Rightarrow> usize) \<Rightarrow> (pmm, usize) kmon" where
  "new_process_table KERNEL_ROOT_ENTRIES =
     bindK alloc_frame (\<lambda>r. case r of
         None \<Rightarrow> errK ''Out of memory''
       | Some root_page \<Rightarrow>
           (\<lambda>s. (Ok root_page,
                 fold (\<lambda>i. set_entry root_page i (KERNEL_ROOT_ENTRIES i)) [0..<4] s)))"

text \<open>One level of \<open>map_page\<close>: make the entry point to a table if it is not valid, refuse a leaf,
  and descend.\<close>

definition map_step :: "string \<Rightarrow> string \<Rightarrow> usize \<Rightarrow> nat \<Rightarrow> (pmm, usize) kmon" where
  "map_step oom conflict pt i =
     bindK
       (\<lambda>s. if get_entry pt i s AND PTE_V = 0 then
               bindK alloc_frame (\<lambda>r. case r of
                   None \<Rightarrow> errK oom
                 | Some new_page \<Rightarrow> (\<lambda>s. (Ok (), set_entry pt i (mk_pte new_page PTE_V) s))) s
             else (Ok (), s))
       (\<lambda>_ s. if get_entry pt i s AND (PTE_R OR PTE_W OR PTE_X) \<noteq> 0 then (Err conflict, s)
               else (Ok (pte_pa (get_entry pt i s)), s))"

definition map_leaf :: "string \<Rightarrow> usize \<Rightarrow> nat \<Rightarrow> usize \<Rightarrow> usize \<Rightarrow> (pmm, unit) kmon" where
  "map_leaf mapped pt i pa flags s =
     (if get_entry pt i s AND PTE_V \<noteq> 0 then (Err mapped, s)
      else (Ok (), set_entry pt i (mk_pte pa (PTE_V OR flags)) s))"

definition map_page :: "usize \<Rightarrow> usize \<Rightarrow> usize \<Rightarrow> usize \<Rightarrow> (pmm, unit) kmon" where
  "map_page root va pa flags =
     bindK (map_step ''Out of memory mapping page''
              ''map_page: intermediate PTE is already a leaf (megapage conflict)'' root (vpn 2 va))
       (\<lambda>l1. bindK (map_step ''Out of memory mapping page''
                     ''map_page: intermediate PTE is already a leaf (megapage conflict)'' l1 (vpn 1 va))
          (\<lambda>l0. map_leaf ''Page already mapped'' l0 (vpn 0 va) pa flags))"

definition map_megapage :: "usize \<Rightarrow> usize \<Rightarrow> usize \<Rightarrow> usize \<Rightarrow> (pmm, unit) kmon" where
  "map_megapage root va pa flags =
     bindK (map_step ''Out of memory for L1 table in map_megapage''
              ''map_megapage: L2 entry is already a 1GB leaf'' root (vpn 2 va))
       (\<lambda>l1. map_leaf ''map_megapage: 2MB region already mapped'' l1 (vpn 1 va) pa flags)"

text \<open>The descent shared by \<open>walk_page_table\<close> and \<open>handle_store_page_fault\<close>, with their error
  messages.\<close>

definition walk_step :: "string \<Rightarrow> string \<Rightarrow> memory \<Rightarrow> usize \<Rightarrow> nat \<Rightarrow> usize rr" where
  "walk_step unmapped huge m pt i =
     (if m pt i AND PTE_V = 0 then Err unmapped
      else if is_leaf (m pt i) then Err huge
      else Ok (pte_pa (m pt i)))"

definition walk_tables :: "string \<Rightarrow> string \<Rightarrow> memory \<Rightarrow> usize \<Rightarrow> usize \<Rightarrow> usize rr" where
  "walk_tables unmapped huge m root va =
     (case walk_step unmapped huge m root (vpn 2 va) of
        Ok l1 \<Rightarrow> walk_step unmapped huge m l1 (vpn 1 va)
      | e \<Rightarrow> e)"

definition walk_page_table :: "memory \<Rightarrow> usize \<Rightarrow> usize \<Rightarrow> (usize \<times> usize) rr" where
  "walk_page_table m root va =
     (case walk_tables ''unmapped'' ''huge pages not supported'' m root va of
        Ok l0 \<Rightarrow>
          let entry = m l0 (vpn 0 va) in
          if entry AND PTE_V = 0 then Err ''unmapped''
          else Ok (pte_pa entry OR (va AND 0xFFF), entry AND 0x3FF)
      | Err e \<Rightarrow> Err e
      | Panic e \<Rightarrow> Panic e)"

section \<open>Copy on write\<close>

definition cow_flags :: "usize \<Rightarrow> usize" where
  "cow_flags flags = flags AND NOT PTE_W OR PTE_COW"

text \<open>One entry of \<open>clone_level\<close>; \<open>rec\<close> is the call for the next level.\<close>

definition clone_entry ::
  "(usize \<Rightarrow> usize \<Rightarrow> (pmm, unit) kmon) \<Rightarrow> usize \<Rightarrow> usize \<Rightarrow> nat \<Rightarrow> (pmm, unit) kmon" where
  "clone_entry rec parent child idx s =
     (let entry = get_entry parent idx s in
      if entry = 0 then (Ok (), set_entry child idx 0 s)
      else if \<not> is_leaf entry then
        bindK alloc_frame (\<lambda>r. case r of
            None \<Rightarrow> errK ''OOM cloning page table''
          | Some new_page \<Rightarrow>
              (\<lambda>s. rec (pte_pa entry) new_page (set_entry child idx (mk_pte new_page PTE_V) s))) s
      else
        let pa = pte_pa entry;
            flags = entry AND 0x3FF;
            cow = flags AND PTE_U \<noteq> 0 \<and> is_managed_page s pa \<and> flags AND PTE_W \<noteq> 0;
            s1 = (if cow
                  then set_entry parent idx (mk_pte pa (cow_flags flags AND 0x3FF OR PTE_V)) s else s);
            s2 = (if flags AND PTE_U \<noteq> 0 \<and> is_managed_page s pa then incr_ref pa s1 else s1);
            flags' = (if cow then cow_flags flags else flags)
        in (Ok (), set_entry child idx (mk_pte pa (flags' AND 0x3FF OR PTE_V)) s2))"

text \<open>At level 0 the recursive call's argument \<open>level - 1\<close> underflows.\<close>

primrec clone_level :: "nat \<Rightarrow> usize \<Rightarrow> usize \<Rightarrow> (pmm, unit) kmon" where
  "clone_level 0 parent child =
     forK [0..<512]
       (clone_entry (\<lambda>_ _. panicK ''attempt to subtract with overflow'') parent child)"
| "clone_level (Suc level) parent child =
     forK [(if Suc level = 2 then 4 else 0)..<512]
       (clone_entry (clone_level level) parent child)"

definition clone_user_space :: "usize \<Rightarrow> usize \<Rightarrow> (pmm, unit) kmon" where
  "clone_user_space parent_root child_root = clone_level 2 parent_root child_root"

definition handle_store_page_fault :: "usize \<Rightarrow> usize \<Rightarrow> (pmm, unit) kmon" where
  "handle_store_page_fault root fault_va s =
     (case walk_tables ''no mapping at level'' ''huge page (1GB/2MB) not supported for COW''
             (mem s) root fault_va of
        Err e \<Rightarrow> (Err e, s)
      | Panic e \<Rightarrow> (Panic e, s)
      | Ok pt \<Rightarrow>
          let entry = get_entry pt (vpn 0 fault_va) s;
              pa = pte_pa entry;
              flags = entry AND 0x3FF
          in if entry AND PTE_V = 0 then (Err ''no mapping for faulting VA'', s)
             else if flags AND PTE_COW \<noteq> 0 then
               if \<not> is_managed_page s pa
               then (Err ''Cannot COW an unmanaged physical page (e.g., MMIO)'', s)
               else bindK alloc_frame (\<lambda>r. case r of
                   None \<Rightarrow> errK ''OOM in COW''
                 | Some new_pa \<Rightarrow> (\<lambda>s1.
                     let s2 = set_frame new_pa (mem s1 pa) s1;
                         new_flags = flags AND NOT PTE_COW OR PTE_W;
                         s3 = set_entry pt (vpn 0 fault_va)
                                (mk_pte new_pa (new_flags AND 0x3FF OR PTE_V)) s2
                     in (Ok (), decr_ref_and_maybe_free pa s3))) s
             else (Err ''write to read-only page (not COW)'', s))"

section \<open>Tearing down\<close>

definition destroy_entry ::
  "(usize \<Rightarrow> (pmm, unit) kmon) \<Rightarrow> usize \<Rightarrow> nat \<Rightarrow> (pmm, unit) kmon" where
  "destroy_entry rec pt idx s =
     (let entry = get_entry pt idx s in
      if entry = 0 then (Ok (), s)
      else if is_leaf entry then
        (Ok (), set_entry pt idx 0
                  (if entry AND 0x3FF AND PTE_U \<noteq> 0 then decr_ref_and_maybe_free (pte_pa entry) s
                   else s))
      else bindK (rec (pte_pa entry)) (\<lambda>_. bindK (free_page (pte_pa entry))
             (\<lambda>_ s. (Ok (), set_entry pt idx 0 s))) s)"

primrec destroy_level :: "nat \<Rightarrow> usize \<Rightarrow> (pmm, unit) kmon" where
  "destroy_level 0 pt = forK [0..<512] (destroy_entry (\<lambda>_. retK ()) pt)"
| "destroy_level (Suc level) pt = forK [0..<512] (destroy_entry (destroy_level level) pt)"

definition destroy_user_space :: "usize \<Rightarrow> (pmm, unit) kmon" where
  "destroy_user_space root =
     bindK (forK [0..<512] (\<lambda>i. if i < 4 then retK () else destroy_entry (destroy_level 1) root i))
       (\<lambda>_. free_page root)"

text \<open>The loop of \<open>unmap_range\<close>.  It need not end: at the top of the address space the skip
  saturates and the mask brings the address back.\<close>

definition page_mask :: "usize \<Rightarrow> usize" where
  "page_mask va = va AND NOT (PAGE_SIZE - 1)"

definition clear_leaf :: "usize \<Rightarrow> nat \<Rightarrow> pmm \<Rightarrow> pmm" where
  "clear_leaf l0 i s =
     (let l0e = get_entry l0 i s in
      if l0e AND PTE_V \<noteq> 0 then
        set_entry l0 i 0
          (if l0e AND 0x3FF AND PTE_U \<noteq> 0 then decr_ref_and_maybe_free (pte_pa l0e) s else s)
      else s)"

partial_function (option) unmap_loop ::
  "usize \<Rightarrow> usize \<Rightarrow> usize \<Rightarrow> pmm \<Rightarrow> (unit rr \<times> pmm) option" where
  "unmap_loop root end va s =
     (if va < end then
        let l2e = get_entry root (vpn 2 va) s in
        if l2e AND PTE_V = 0 \<or> is_leaf l2e
        then unmap_loop root end (page_mask (saturating_add va (2 ^ 30))) s
        else
          let l1e = get_entry (pte_pa l2e) (vpn 1 va) s in
          if l1e AND PTE_V = 0 \<or> is_leaf l1e
          then unmap_loop root end (page_mask (saturating_add va (2 ^ 21))) s
          else
            let s1 = clear_leaf (pte_pa l1e) (vpn 0 va) s in
            if 2 ^ 64 \<le> unat va + 4096 then Some (Panic ''attempt to add with overflow'', s1)
            else unmap_loop root end (va + PAGE_SIZE) s1
      else Some (Ok (), s))"

definition unmap_range :: "usize \<Rightarrow> usize \<Rightarrow> usize \<Rightarrow> pmm \<Rightarrow> (unit rr \<times> pmm) option" where
  "unmap_range root va_start len s =
     unmap_loop root (saturating_add va_start len) (page_mask va_start) s"

section \<open>User pointers\<close>

definition saturating_mul :: "usize \<Rightarrow> usize \<Rightarrow> usize" where
  "saturating_mul x y = (if unat x * unat y < 2 ^ 64 then x * y else - 1)"

text \<open>\<open>sz\<close> is \<open>size_of::<T>()\<close>.\<close>

definition is_user_pointer_valid :: "usize \<Rightarrow> usize \<Rightarrow> usize \<Rightarrow> bool" where
  "is_user_pointer_valid sz ptr count \<longleftrightarrow>
     (if ptr = 0 then False
      else let end = saturating_add ptr (saturating_mul sz count)
           in 0x100000000 \<le> ptr \<and> end \<le> 0x800000000000)"

section \<open>The kernel's own mapping\<close>

record linker_symbols =
  text_start_sym :: usize
  text_end_sym :: usize
  rodata_end_sym :: usize
  stack_guard_sym :: usize
  stack_start_sym :: usize
  stack_top_sym :: usize

definition MEGAPAGE :: usize where "MEGAPAGE = 0x200000"
definition GB2 :: usize where "GB2 = 0x80000000"
definition GB3 :: usize where "GB3 = 0xC0000000"

text \<open>\<open>while pa < end { body(pa)?; pa += step; }\<close>, with \<open>step\<close> one of the two page sizes (never
  zero).\<close>

function map_while :: "(usize \<Rightarrow> (pmm, unit) kmon) \<Rightarrow> usize \<Rightarrow> usize \<Rightarrow> usize \<Rightarrow> (pmm, unit) kmon" where
  "map_while body step end pa =
     (if pa < end then
        bindK (body pa) (\<lambda>_.
          if 2 ^ 64 \<le> unat pa + unat step \<or> step = 0 then panicK ''attempt to add with overflow''
          else map_while body step end (pa + step))
      else retK ())"
  by pat_completeness auto
termination
  by (relation "measure (\<lambda>(body, step, end, pa). 2 ^ 64 - unat pa)")
    (auto simp: unat_word_ariths unat_gt_0 intro!: diff_less_mono2)

declare map_while.simps [simp del]

definition identity_tables :: "usize \<Rightarrow> (pmm, unit) kmon" where
  "identity_tables root =
     bindK alloc_frame (\<lambda>r. case r of None \<Rightarrow> errK ''OOM for L1 identity-map table'' | Some l1_pa \<Rightarrow>
     (\<lambda>s. bindK alloc_frame (\<lambda>r. case r of
         None \<Rightarrow> (\<lambda>s. (Err ''OOM for L0 identity-map table'', PhysFrame_drop l1_pa s))
       | Some l0_pa \<Rightarrow> (\<lambda>s.
           let s1 = fold (\<lambda>i. set_entry l0_pa i (mk_pte (of_nat i * 4096) (PTE_V OR PTE_R OR PTE_W)))
                      [1..<512] (set_frame l0_pa zero_frame s);
               s2 = set_entry l1_pa 0 (mk_pte l0_pa PTE_V) s1;
               s3 = fold (\<lambda>i. set_entry l1_pa i
                            (mk_pte (of_nat i * 0x200000) (PTE_V OR PTE_R OR PTE_W))) [1..<512] s2
           in (Ok (), set_entry root 0 (mk_pte l1_pa PTE_V) s3)))
       (set_frame l1_pa zero_frame s)))"

definition setup_kernel_memory_protection :: "linker_symbols \<Rightarrow> usize \<Rightarrow> (pmm, unit) kmon" where
  "setup_kernel_memory_protection ld root =
     (let page = (\<lambda>flags pa. map_page root pa pa flags);
          heap_base = (stack_top_sym ld + MEGAPAGE - 1) AND NOT (MEGAPAGE - 1)
      in bindK (identity_tables root) (\<lambda>_.
         bindK (map_megapage root GB2 GB2 (PTE_R OR PTE_W)) (\<lambda>_.
         bindK (map_while (page (PTE_R OR PTE_X)) PAGE_SIZE (text_end_sym ld) (text_start_sym ld)) (\<lambda>_.
         bindK (map_while (page PTE_R) PAGE_SIZE (rodata_end_sym ld) (text_end_sym ld)) (\<lambda>_.
         bindK (map_while (page (PTE_R OR PTE_W)) PAGE_SIZE (stack_guard_sym ld) (rodata_end_sym ld)) (\<lambda>_.
         bindK (map_while (page (PTE_R OR PTE_W)) PAGE_SIZE (stack_top_sym ld) (stack_start_sym ld)) (\<lambda>_.
         bindK (map_while (page (PTE_R OR PTE_W)) PAGE_SIZE heap_base (stack_top_sym ld)) (\<lambda>_.
         map_while (\<lambda>pa. map_megapage root pa pa (PTE_R OR PTE_W)) MEGAPAGE GB3 heap_base))))))))"

text \<open>\<open>init\<close> returns the root page, the saved root entries and the value written to \<open>satp\<close>.\<close>

definition vmm_init :: "linker_symbols \<Rightarrow> (pmm, usize \<times> (nat \<Rightarrow> usize) \<times> usize) kmon" where
  "vmm_init ld =
     bindK alloc_frame (\<lambda>r. case r of
         None \<Rightarrow> panicK ''Failed to allocate root page table''
       | Some root_page \<Rightarrow> (\<lambda>s.
           case setup_kernel_memory_protection ld root_page s of
             (Ok _, s1) \<Rightarrow>
               (Ok (root_page, \<lambda>i. if i < 4 then get_entry root_page i s1 else 0,
                    push_bit 60 8 OR drop_bit 12 root_page), s1)
           | (Err e, s1) \<Rightarrow> (Panic ''kernel memory protection setup failed'', s1)
           | (Panic e, s1) \<Rightarrow> (Panic e, s1)))"

section \<open>Entries bit by bit\<close>

lemma mk_pte_pa:
  assumes "pa mod 4096 = 0" "fl < 1024"
  shows "pte_pa (mk_pte pa fl) = pa" and "mk_pte pa fl AND 0x3FF = fl"
proof -
  have pa: "12 \<le> n" if "bit pa n" for n
    using assms(1) that take_bit_eq_mod [of 12 pa] bit_take_bit_iff [of 12 pa n]
    by (simp add: not_le [symmetric])
  have fl: "n < 10" if "bit fl n" for n
  proof -
    have "take_bit 10 fl = fl"
      using assms(2) by (simp add: take_bit_eq_mod word_unat_eq_iff unat_mod word_less_nat_alt)
    then show ?thesis using that bit_take_bit_iff [of 10 fl n] by simp
  qed
  have sh: "bit pa (12 + (n - 12)) \<longleftrightarrow> bit pa n" if "bit pa n" for n
    using pa [OF that] by simp
  show "pte_pa (mk_pte pa fl) = pa"
    by (rule bit_word_eqI) (auto simp: pte_pa_def mk_pte_def bit_simps sh dest: pa fl)
  have m: "(0x3FF :: usize) = mask 10" by (simp add: mask_eq_exp_minus_1)
  show "mk_pte pa fl AND 0x3FF = fl"
    unfolding m by (rule bit_word_eqI) (auto simp: mk_pte_def bit_simps dest: pa fl)
qed

lemma vpn_less: "vpn l va < 512"
proof -
  have "drop_bit (12 + 9 * l) va AND 0x1FF \<le> 0x1FF" by (rule word_and_le1)
  then show ?thesis by (simp add: vpn_def word_le_nat_alt)
qed

section \<open>The tree of tables\<close>

text \<open>The table reached from \<open>r\<close> along a path of indices, with the walker's errors.\<close>

fun descend :: "string \<Rightarrow> string \<Rightarrow> memory \<Rightarrow> usize \<Rightarrow> nat list \<Rightarrow> usize rr" where
  "descend u h m r [] = Ok r"
| "descend u h m r (i # p) =
     (case walk_step u h m r i of Ok t \<Rightarrow> descend u h m t p | e \<Rightarrow> e)"

lemma walk_tables_descend: "walk_tables u h m r va = descend u h m r [vpn 2 va, vpn 1 va]"
  by (auto simp: walk_tables_def split: rr.splits)

lemma descend_append:
  "descend u h m r (p @ q) = (case descend u h m r p of Ok t \<Rightarrow> descend u h m t q | e \<Rightarrow> e)"
  by (induction p arbitrary: r) (auto split: rr.splits)

lemma walk_step_Ok:
  "walk_step u h m r i = Ok t \<longleftrightarrow>
     m r i AND PTE_V \<noteq> 0 \<and> \<not> is_leaf (m r i) \<and> t = pte_pa (m r i)"
  by (auto simp: walk_step_def)

lemma descend_Ok_messages: "descend u h m r p = Ok f \<Longrightarrow> descend u' h' m r p = Ok f"
  by (induction p arbitrary: r) (auto simp: walk_step_def split: rr.splits if_splits)

definition is_path :: "nat list \<Rightarrow> bool" where
  "is_path p \<longleftrightarrow> length p \<le> 2 \<and> (\<forall>i \<in> set p. i < 512)"

definition table_at :: "memory \<Rightarrow> usize \<Rightarrow> nat list \<Rightarrow> usize \<Rightarrow> bool" where
  "table_at m r p f \<longleftrightarrow> is_path p \<and> descend [] [] m r p = Ok f"

text \<open>The tables form a tree (no frame is reached along two paths) that lies outside the free
  list.\<close>

definition pt_wf :: "memory \<Rightarrow> usize \<Rightarrow> usize set \<Rightarrow> bool" where
  "pt_wf m r free \<longleftrightarrow>
     (\<forall>p q f. table_at m r p f \<longrightarrow> table_at m r q f \<longrightarrow> p = q)
   \<and> (\<forall>p f. table_at m r p f \<longrightarrow> f \<notin> free)"

lemma is_path_simps [simp]:
  "is_path []" "is_path [i] \<longleftrightarrow> i < 512" "is_path [i, j] \<longleftrightarrow> i < 512 \<and> j < 512"
  by (auto simp: is_path_def)

lemma is_path_append: "is_path (p @ q) \<Longrightarrow> is_path p"
  by (auto simp: is_path_def)

text \<open>A write to a frame the descent does not read.\<close>

lemma descend_frame:
  assumes "\<And>q1 j q2. q = q1 @ j # q2 \<Longrightarrow> descend u h m r q1 \<noteq> Ok t"
  shows "descend u h (m(t := f)) r q = descend u h m r q"
  using assms
proof (induction q arbitrary: r)
  case (Cons i q)
  have rt: "r \<noteq> t" using Cons.prems [of "[]" i q] by auto
  then have ws: "walk_step u h (m(t := f)) r i = walk_step u h m r i"
    by (simp add: walk_step_def)
  show ?case
  proof (cases "walk_step u h m r i")
    case (Ok t1)
    have "descend u h m t1 q1 \<noteq> Ok t" if "q = q1 @ j # q2" for q1 j q2
      using Cons.prems [of "i # q1" j q2] that Ok by simp
    from Cons.IH [OF this] show ?thesis by (simp only: descend.simps ws Ok rr.case)
  qed (simp_all only: descend.simps ws rr.case)
qed simp

text \<open>A write into a table on the last level, or into an entry of a frame that is no table,
  changes no descent.\<close>

lemma descend_set_last:
  assumes wf: "pt_wf m r F" and p: "table_at m r p t" "length p = 2" and q: "is_path q"
  shows "descend u h (m(t := f)) r q = descend u h m r q"
proof (rule descend_frame)
  fix q1 j q2
  assume split: "q = q1 @ j # q2"
  show "descend u h m r q1 \<noteq> Ok t"
  proof
    assume "descend u h m r q1 = Ok t"
    then have "table_at m r q1 t"
      using q split by (auto simp: table_at_def intro: descend_Ok_messages is_path_append)
    with wf p(1) have "q1 = p" by (auto simp: pt_wf_def)
    with p(2) q split show False by (simp add: is_path_def)
  qed
qed

lemma descend_set_other:
  assumes "\<And>p. \<not> table_at m r p t" "is_path q"
  shows "descend u h (m(t := f)) r q = descend u h m r q"
proof (rule descend_frame)
  fix q1 j q2
  assume "q = q1 @ j # q2"
  with assms(2) have "is_path q1" using is_path_append by blast
  with assms(1) [of q1] show "descend u h m r q1 \<noteq> Ok t"
    by (auto simp: table_at_def dest: descend_Ok_messages)
qed

lemma table_at_set_last:
  assumes "pt_wf m r F" "table_at m r p t" "length p = 2"
  shows "table_at (m(t := f)) r = table_at m r"
  using descend_set_last [OF assms] by (intro ext) (auto simp: table_at_def)

lemma table_at_set_other:
  assumes "\<And>p. \<not> table_at m r p t"
  shows "table_at (m(t := f)) r = table_at m r"
  using descend_set_other [OF assms] by (intro ext) (auto simp: table_at_def)

lemma mk_pte_and:
  assumes "pa mod 4096 = 0" "fl < 1024" "f AND 0x3FF = f"
  shows "mk_pte pa fl AND f = fl AND f"
proof -
  have "mk_pte pa fl AND f = (mk_pte pa fl AND 0x3FF) AND f"
    using assms(3) by (simp add: and.assoc and.commute [of f])
  then show ?thesis using mk_pte_pa(2) [OF assms(1,2)] by simp
qed

lemma mk_table_entry:
  assumes "n mod 4096 = 0"
  shows "mk_pte n PTE_V AND PTE_V \<noteq> 0" "\<not> is_leaf (mk_pte n PTE_V)" "pte_pa (mk_pte n PTE_V) = n"
    "mk_pte n PTE_V AND (PTE_R OR PTE_W OR PTE_X) = 0"
  using assms by (simp_all add: is_leaf_def pte_defs mk_pte_and mk_pte_pa)

text \<open>Linking a fresh zeroed table into an invalid entry adds that table and nothing else.\<close>

lemma descend_link:
  assumes wf: "pt_wf m r F" and p: "table_at m r p t" "length p \<le> 1"
    and inv: "m t i AND PTE_V = 0"
    and fresh: "\<And>q. \<not> table_at m r q n" and n: "m n = zero_frame" "n mod 4096 = 0"
    and q: "is_path q"
  shows "descend u h (m(t := (m t)(i := mk_pte n PTE_V))) r q =
    (if q = p @ [i] then Ok n else descend u h m r q)" (is "descend u h ?m r q = _")
proof (cases "\<exists>q1 j q2. q = q1 @ j # q2 \<and> descend u h m r q1 = Ok t")
  case False
  have p_ok: "descend u h m r p = Ok t"
    using p by (auto simp: table_at_def intro: descend_Ok_messages)
  from False have "q \<noteq> p @ [i]" using p_ok by blast
  with False show ?thesis by (simp only: if_False) (rule descend_frame, blast)
next
  case True
  then obtain q1 j q2 where split: "q = q1 @ j # q2" and q1: "descend u h m r q1 = Ok t" by blast
  have "table_at m r q1 t"
    using q q1 split by (auto simp: table_at_def intro: descend_Ok_messages is_path_append)
  with wf p(1) have [simp]: "q1 = p" by (auto simp: pt_wf_def)
  have len: "length q2 \<le> 1" "length p = 1 \<longrightarrow> q2 = []"
    using q split by (cases q2; auto simp: is_path_def)+
  have p_same: "descend u h ?m r p = Ok t"
  proof -
    have "descend u h ?m r p = descend u h m r p"
    proof (rule descend_frame)
      fix p1 j' p2
      assume ps: "p = p1 @ j' # p2"
      show "descend u h m r p1 \<noteq> Ok t"
      proof
        assume "descend u h m r p1 = Ok t"
        then have "table_at m r p1 t"
          using ps p(1) by (auto simp: table_at_def intro: descend_Ok_messages is_path_append)
        with wf p(1) have "p1 = p" by (auto simp: pt_wf_def)
        with ps show False by simp
      qed
    qed
    then show ?thesis using q1 by simp
  qed
  have nt: "n \<noteq> t" using fresh p(1) by blast
  have zero: "walk_step u h ?m n k = Err u" for k
    using nt n by (simp add: walk_step_def)
  show ?thesis
  proof (cases "j = i")
    case True
    have new: "walk_step u h ?m t i = Ok n"
      using mk_table_entry [OF n(2)] by (simp add: walk_step_def)
    have old: "walk_step u h m t i = Err u" using inv by (simp add: walk_step_def)
    have "descend u h m r q = Err u" using q1 old split True by (simp add: descend_append)
    moreover have "descend u h ?m r q = descend u h ?m n q2"
      using p_same new split True by (simp only: descend_append rr.case descend.simps \<open>q1 = p\<close>)
    moreover have "descend u h ?m n q2 = (if q2 = [] then Ok n else Err u)"
      by (cases q2) (simp_all only: descend.simps zero rr.case list.distinct if_True if_False simp_thms)
    ultimately show ?thesis using split True by simp
  next
    case ji: False
    have ws: "walk_step u h ?m t j = walk_step u h m t j" using ji by (simp add: walk_step_def)
    have rest: "descend u h ?m f q2 = descend u h m f q2" if f: "walk_step u h m t j = Ok f" for f
    proof (cases q2)
      case (Cons k q3)
      have "table_at m r (p @ [j]) f"
        using f q1 q split Cons p
        by (auto simp: table_at_def is_path_def descend_append walk_step_def
            intro: descend_Ok_messages split: if_splits rr.splits)
      then have "f \<noteq> t" using wf p(1) by (auto simp: pt_wf_def)
      then show ?thesis using Cons len by (simp add: walk_step_def)
    qed simp
    have "descend u h ?m r q = descend u h m r q"
      unfolding split descend_append p_same q1 \<open>q1 = p\<close> descend.simps ws rr.case
      using rest q1 by (auto simp del: fun_upd_apply split: rr.split)
    then show ?thesis using split ji by simp
  qed
qed

lemma walk_page_table_descend:
  "walk_page_table m r va =
     (case descend ''unmapped'' ''huge pages not supported'' m r [vpn 2 va, vpn 1 va] of
        Ok l0 \<Rightarrow>
          if m l0 (vpn 0 va) AND PTE_V = 0 then Err ''unmapped''
          else Ok (pte_pa (m l0 (vpn 0 va)) OR (va AND 0xFFF), m l0 (vpn 0 va) AND 0x3FF)
      | Err e \<Rightarrow> Err e | Panic e \<Rightarrow> Panic e)"
  by (simp only: walk_page_table_def walk_tables_descend Let_def)

lemma va_path [simp]: "is_path [vpn 2 va, vpn 1 va]"
  by (simp add: vpn_less)

lemma walk_set_other:
  assumes "\<And>p. \<not> table_at m r p t"
  shows "walk_page_table (m(t := f)) r va = walk_page_table m r va"
proof -
  note d = descend_set_other [OF assms va_path]
  have "l0 \<noteq> t" if "descend u h m r [vpn 2 va, vpn 1 va] = Ok l0" for l0 u h
    using assms that descend_Ok_messages va_path unfolding table_at_def by blast
  then show ?thesis
    unfolding walk_page_table_descend d
    by (cases "descend ''unmapped'' ''huge pages not supported'' m r [vpn 2 va, vpn 1 va]")
      (simp_all del: descend.simps)
qed

lemma walk_link:
  assumes wf: "pt_wf m r F" and p: "table_at m r p t" "length p \<le> 1"
    and inv: "m t i AND PTE_V = 0"
    and fresh: "\<And>q. \<not> table_at m r q n" and n: "m n = zero_frame" "n mod 4096 = 0"
  shows "walk_page_table (m(t := (m t)(i := mk_pte n PTE_V))) r va = walk_page_table m r va"
    (is "walk_page_table ?m r va = _")
proof -
  let ?q = "[vpn 2 va, vpn 1 va]"
  note d = descend_link [OF assms va_path]
  have nt: "n \<noteq> t" using fresh p(1) by blast
  have l0t: "l0 \<noteq> t" if "descend u h m r ?q = Ok l0" for l0 u h
  proof
    assume "l0 = t"
    with that have "table_at m r ?q t"
      unfolding table_at_def using va_path descend_Ok_messages by blast
    with wf p have "?q = p" by (auto simp: pt_wf_def)
    from arg_cong [OF this, of length] show False using p(2) by simp
  qed
  show ?thesis
  proof (cases "?q = p @ [i]")
    case True
    have "descend ''unmapped'' h m r p = Ok t" for h
      using p by (auto simp: table_at_def intro: descend_Ok_messages)
    then have "descend ''unmapped'' h m r ?q = Err ''unmapped''" for h
      unfolding True using inv by (simp add: descend_append walk_step_def)
    then show ?thesis
      unfolding walk_page_table_descend d using True nt n by (simp del: descend.simps)
  next
    case False
    show ?thesis
      unfolding walk_page_table_descend d if_not_P [OF False] using l0t
      by (cases "descend ''unmapped'' ''huge pages not supported'' m r ?q")
        (simp_all del: descend.simps)
  qed
qed

lemma pt_wf_link:
  assumes wf: "pt_wf m r F" and p: "table_at m r p t" "length p \<le> 1" and i: "i < 512"
    and inv: "m t i AND PTE_V = 0"
    and fresh: "\<And>q. \<not> table_at m r q n" and n: "m n = zero_frame" "n mod 4096 = 0"
  shows "table_at (m(t := (m t)(i := mk_pte n PTE_V))) r q f \<longleftrightarrow>
      q = p @ [i] \<and> f = n \<or> table_at m r q f" (is ?tab)
    and "n \<notin> F' \<Longrightarrow> F' \<subseteq> F \<Longrightarrow> pt_wf (m(t := (m t)(i := mk_pte n PTE_V))) r F'"
proof -
  have path: "is_path (p @ [i])" using p i by (auto simp: table_at_def is_path_def)
  have bad: "\<not> table_at m r (p @ [i]) f" for f
    using p(1) inv by (auto simp: table_at_def descend_append walk_step_def)
  show tab: "table_at (m(t := (m t)(i := mk_pte n PTE_V))) r q f \<longleftrightarrow>
      q = p @ [i] \<and> f = n \<or> table_at m r q f" for q f
  proof (cases "is_path q")
    case True
    show ?thesis
      using descend_link [OF wf p inv fresh n True, of "[]" "[]"] bad path True
      by (auto simp: table_at_def)
  qed (use path in \<open>auto simp: table_at_def\<close>)
  show "n \<notin> F' \<Longrightarrow> F' \<subseteq> F \<Longrightarrow> pt_wf (m(t := (m t)(i := mk_pte n PTE_V))) r F'"
    unfolding pt_wf_def tab using wf fresh by (auto simp: pt_wf_def)
qed

section \<open>Correctness of \<open>map_page\<close>\<close>

text \<open>What the steps of a mapping keep: the allocator's invariant, the tree of tables (extended
  only by frames that were free), the contents of all other frames, and the frames in use.\<close>

definition vm_step :: "usize \<Rightarrow> pmm \<Rightarrow> usize list \<Rightarrow> pmm \<Rightarrow> usize list \<Rightarrow> bool" where
  "vm_step r s ps s' ps' \<longleftrightarrow>
     pmm_inv s' ps' \<and> pt_wf (mem s') r (set ps') \<and> set ps' \<subseteq> set ps
   \<and> ram_start s' = ram_start s
   \<and> (\<forall>p q. table_at (mem s') r p q \<longrightarrow> table_at (mem s) r p q \<or> q \<in> set ps)
   \<and> (\<forall>q. q \<notin> set ps \<longrightarrow> (\<forall>p. \<not> table_at (mem s) r p q) \<longrightarrow> mem s' q = mem s q)
   \<and> (\<forall>q. in_use s q \<longrightarrow> in_use s' q \<and> refs s' q = refs s q)"

lemma vm_step_refl: "pmm_inv s ps \<Longrightarrow> pt_wf (mem s) r (set ps) \<Longrightarrow> vm_step r s ps s ps"
  by (simp add: vm_step_def)

lemma vm_step_trans:
  "vm_step r s ps s1 ps1 \<Longrightarrow> vm_step r s1 ps1 s2 ps2 \<Longrightarrow> vm_step r s ps s2 ps2"
  unfolding vm_step_def by (auto simp: subset_iff) metis+

lemma set_entry_simps [simp]:
  "mem (set_entry t i e s) = (mem s)(t := (mem s t)(i := e))"
  "ram_start (set_entry t i e s) = ram_start s"
  "page_ref_counts (set_entry t i e s) = page_ref_counts s"
  "free_list (set_entry t i e s) = free_list s"
  "page_index (set_entry t i e s) = page_index s"
  "is_managed_page (set_entry t i e s) = is_managed_page s"
  "in_use (set_entry t i e s) = in_use s"
  "refs (set_entry t i e s) = refs s"
  by (simp_all add: set_entry_def fun_eq_iff in_use_def refs_def)

lemma pmm_inv_set_entry:
  "pmm_inv s ps \<Longrightarrow> t \<notin> set ps \<Longrightarrow> pmm_inv (set_entry t i e s) ps"
  by (simp add: set_entry_def pmm_inv_set_frame)

lemma pt_wf_mono: "pt_wf m r F \<Longrightarrow> F' \<subseteq> F \<Longrightarrow> pt_wf m r F'"
  by (auto simp: pt_wf_def)

lemma free_page_aligned: "pmm_inv s ps \<Longrightarrow> p \<in> set ps \<Longrightarrow> p mod 4096 = 0"
  by (auto simp: pmm_inv_def free_ok_def page_aligned_def PAGE_SIZE_def)

lemma alloc_link_step:
  assumes inv: "pmm_inv s (n # ps)" and wf: "pt_wf (mem s) r (set (n # ps))"
    and t: "table_at (mem s) r p t" "length p \<le> 1" and i: "i < 512"
    and e: "mem s t i AND PTE_V = 0"
  defines "s' \<equiv> set_entry t i (mk_pte n PTE_V) (allocated n s)"
  shows "vm_step r s (n # ps) s' ps" and "table_at (mem s') r (p @ [i]) n"
    and "walk_page_table (mem s') r va = walk_page_table (mem s) r va"
proof -
  let ?m1 = "(mem s)(n := zero_frame)"
  have nt: "\<And>q. \<not> table_at (mem s) r q n" using wf by (auto simp: pt_wf_def)
  have tps: "t \<notin> set ps" and tn: "t \<noteq> n" using wf t by (auto simp: pt_wf_def)
  have tab1: "table_at ?m1 r = table_at (mem s) r" by (rule table_at_set_other [OF nt])
  have wf1: "pt_wf ?m1 r (set (n # ps))" using wf by (simp add: pt_wf_def tab1)
  have m1: "t \<noteq> n \<Longrightarrow> ?m1 t i AND PTE_V = 0" "?m1 n = zero_frame" using e by simp_all
  have al: "n mod 4096 = 0" using free_page_aligned [OF inv] by simp
  have nps: "n \<notin> set ps" using inv by (simp add: pmm_inv_def)
  have t1: "table_at ?m1 r p t" and f1: "\<And>q. \<not> table_at ?m1 r q n" using t nt by (simp_all add: tab1)
  note link = pt_wf_link [OF wf1 t1 t(2) i m1(1) [OF tn] f1 m1(2) al]
  have mem': "mem s' = ?m1(t := (?m1 t)(i := mk_pte n PTE_V))" by (simp add: s'_def)
  show "table_at (mem s') r (p @ [i]) n" unfolding mem' link(1) by simp
  show "walk_page_table (mem s') r va = walk_page_table (mem s) r va"
    unfolding mem' walk_link [OF wf1 t1 t(2) m1(1) [OF tn] f1 m1(2) al]
    by (rule walk_set_other [OF nt])
  have "pmm_inv s' ps"
    unfolding s'_def by (rule pmm_inv_set_entry [OF pmm_inv_allocated [OF inv] tps])
  moreover have "pt_wf (mem s') r (set ps)"
    unfolding mem' by (rule link(2)) (use nps in auto)
  moreover have "in_use s' q \<and> refs s' q = refs s q" if "in_use s q" for q
  proof -
    have "q \<noteq> n" using in_use_not_free [OF inv that] by auto
    moreover have "page_index s q \<noteq> page_index s n"
      using that inv \<open>q \<noteq> n\<close> page_index_inj [of q n s]
      by (auto simp: in_use_def pmm_inv_def free_ok_def)
    ultimately show ?thesis using that by (auto simp: s'_def in_use_def refs_def)
  qed
  moreover have "table_at (mem s) r p' q \<or> q \<in> set (n # ps)" if "table_at (mem s') r p' q" for p' q
    using that unfolding mem' link(1) tab1 by auto
  ultimately show "vm_step r s (n # ps) s' ps"
    using t(1) by (auto simp: vm_step_def s'_def)
qed

lemma map_step_spec:
  assumes inv: "pmm_inv s ps" and wf: "pt_wf (mem s) r (set ps)"
    and t: "table_at (mem s) r p t" "length p \<le> 1" and i: "i < 512"
  shows "\<exists>res s' ps'. map_step oom conflict t i s = (res, s') \<and> vm_step r s ps s' ps'
    \<and> (\<forall>va. walk_page_table (mem s') r va = walk_page_table (mem s) r va)
    \<and> (case res of Ok f \<Rightarrow> table_at (mem s') r (p @ [i]) f
       | Err e \<Rightarrow> e = oom \<and> ps = [] \<and> s' = s \<and> mem s t i AND PTE_V = 0
           \<or> e = conflict \<and> s' = s \<and> mem s t i AND PTE_V \<noteq> 0
             \<and> mem s t i AND (PTE_R OR PTE_W OR PTE_X) \<noteq> 0
       | Panic e \<Rightarrow> False)
    \<and> (ps' = ps \<and> s' = s
       \<or> (\<exists>n. ps = n # ps' \<and> mem s t i AND PTE_V = 0
            \<and> s' = set_entry t i (mk_pte n PTE_V) (allocated n s)))"
proof (cases "mem s t i AND PTE_V = 0")
  case valid: False
  have ws: "table_at (mem s) r (p @ [i]) (pte_pa (mem s t i))"
    if "mem s t i AND (PTE_R OR PTE_W OR PTE_X) = 0"
  proof -
    have "mem s t i AND (PTE_R OR PTE_X) = 0"
      using that by (simp add: bit_eq_iff bit_simps)
    with valid t i show ?thesis
      by (auto simp: table_at_def is_path_def descend_append walk_step_def is_leaf_def)
  qed
  show ?thesis
    using valid ws vm_step_refl [OF inv wf]
    by (auto simp: map_step_def get_entry_def bindK_def)
next
  case invalid: True
  show ?thesis
  proof (cases ps)
    case Nil
    then show ?thesis
      using invalid alloc_frame_empty inv vm_step_refl [OF inv wf]
      by (auto simp: map_step_def get_entry_def bindK_def)
  next
    case (Cons n qs)
    note st = alloc_link_step [OF inv [unfolded Cons] wf [unfolded Cons] t i invalid]
    have al: "n mod 4096 = 0" using free_page_aligned [OF inv] Cons by simp
    have tn: "t \<noteq> n" using wf t Cons by (auto simp: pt_wf_def)
    show ?thesis
      using st invalid alloc_frame_Cons [OF inv [unfolded Cons]] mk_table_entry [OF al] Cons
      by (auto simp: map_step_def get_entry_def bindK_def)
  qed
qed

definition same_page :: "usize \<Rightarrow> usize \<Rightarrow> bool" where
  "same_page va va' \<longleftrightarrow> (\<forall>l < 3. vpn l va = vpn l va')"

lemma same_page_path:
  "same_page va va' \<longleftrightarrow> [vpn 2 va, vpn 1 va] = [vpn 2 va', vpn 1 va'] \<and> vpn 0 va = vpn 0 va'"
  by (auto simp: same_page_def numeral_3_eq_3 less_Suc_eq numeral_2_eq_2)

text \<open>Writing a leaf changes the translation of its page only.\<close>

lemma walk_set_leaf:
  assumes wf: "pt_wf m r F" and t: "table_at m r [vpn 2 va, vpn 1 va] t"
  shows "walk_page_table (m(t := (m t)(vpn 0 va := e))) r va' =
    (if same_page va va' then
       if e AND PTE_V = 0 then Err ''unmapped'' else Ok (pte_pa e OR (va' AND 0xFFF), e AND 0x3FF)
     else walk_page_table m r va')" (is "walk_page_table ?m r va' = _")
proof -
  let ?p = "[vpn 2 va, vpn 1 va]" and ?q = "[vpn 2 va', vpn 1 va']"
  have d: "descend u h ?m r ?q = descend u h m r ?q" for u h
    by (rule descend_set_last [OF wf t _ va_path]) simp
  show ?thesis
  proof (cases "?p = ?q")
    case True
    then have "descend u h m r ?q = Ok t" for u h
      using t descend_Ok_messages unfolding table_at_def by metis
    then show ?thesis
      using True unfolding walk_page_table_descend d same_page_path
      by (simp del: descend.simps)
  next
    case False
    have "l0 \<noteq> t" if "descend u h m r ?q = Ok l0" for l0 u h
    proof
      assume "l0 = t"
      with that have "table_at m r ?q t"
        unfolding table_at_def using va_path descend_Ok_messages by blast
      with wf t False show False unfolding pt_wf_def by blast
    qed
    then show ?thesis
      unfolding walk_page_table_descend d same_page_path if_not_P [OF False]
      by (cases "descend ''unmapped'' ''huge pages not supported'' m r ?q")
        (use False in \<open>auto simp del: descend.simps\<close>)
  qed
qed

lemma vm_step_set_leaf:
  assumes "pmm_inv s ps" and wf: "pt_wf (mem s) r (set ps)" and t: "table_at (mem s) r p t" "length p = 2"
  shows "vm_step r s ps (set_entry t i e s) ps"
proof -
  have "t \<notin> set ps" using wf t by (auto simp: pt_wf_def)
  moreover have "table_at (mem (set_entry t i e s)) r = table_at (mem s) r"
    unfolding set_entry_simps by (rule table_at_set_last [OF wf t])
  ultimately show ?thesis
    using assms pmm_inv_set_entry [OF assms(1), of t i e] by (auto simp: vm_step_def pt_wf_def)
qed

lemma walk_at_table:
  assumes "table_at m r [vpn 2 va, vpn 1 va] t"
  shows "walk_page_table m r va =
    (if m t (vpn 0 va) AND PTE_V = 0 then Err ''unmapped''
     else Ok (pte_pa (m t (vpn 0 va)) OR (va AND 0xFFF), m t (vpn 0 va) AND 0x3FF))"
proof -
  have "descend u h m r [vpn 2 va, vpn 1 va] = Ok t" for u h
    using assms descend_Ok_messages unfolding table_at_def by metis
  then show ?thesis unfolding walk_page_table_descend by (simp del: descend.simps)
qed

lemma map_leaf_spec:
  assumes inv: "pmm_inv s ps" and wf: "pt_wf (mem s) r (set ps)"
    and t: "table_at (mem s) r [vpn 2 va, vpn 1 va] t" and pa: "pa mod 4096 = 0" "flags < 1024"
  shows "\<exists>res s'. map_leaf msg t (vpn 0 va) pa flags s = (res, s') \<and> vm_step r s ps s' ps
    \<and> (\<forall>va'. walk_page_table (mem s') r va' =
         (if res = Ok () \<and> same_page va va' then Ok (pa OR (va' AND 0xFFF), PTE_V OR flags)
          else walk_page_table (mem s) r va'))
    \<and> (res = Ok () \<and> walk_page_table (mem s) r va = Err ''unmapped''
       \<or> res = Err msg \<and> (\<exists>x. walk_page_table (mem s) r va = Ok x))"
proof (cases "mem s t (vpn 0 va) AND PTE_V = 0")
  case True
  have fl: "PTE_V OR flags < 1024"
  proof -
    have "take_bit 10 flags = flags"
      using pa(2) by (simp add: take_bit_eq_mod word_unat_eq_iff unat_mod word_less_nat_alt)
    then have "take_bit 10 (PTE_V OR flags) = PTE_V OR flags" by (simp add: PTE_V_def take_bit_or)
    then have "(PTE_V OR flags) mod 1024 = PTE_V OR flags" by (simp add: take_bit_eq_mod)
    moreover have "x mod 1024 < (1024 :: usize)" for x
      by (simp add: word_less_nat_alt unat_mod)
    ultimately show ?thesis by metis
  qed
  have "mk_pte pa (PTE_V OR flags) AND PTE_V \<noteq> 0"
    using mk_pte_and [OF pa(1) fl, of PTE_V] by (simp add: PTE_V_def bit.conj_disj_distrib2)
  then show ?thesis
    using True walk_set_leaf [OF wf t, of "mk_pte pa (PTE_V OR flags)"] mk_pte_pa [OF pa(1) fl]
      vm_step_set_leaf [OF inv wf t] walk_at_table [OF t]
    by (auto simp: map_leaf_def get_entry_def)
next
  case False
  then show ?thesis
    using vm_step_refl [OF inv wf] walk_at_table [OF t] by (auto simp: map_leaf_def get_entry_def)
qed

definition map_conflict :: string where
  "map_conflict = ''map_page: intermediate PTE is already a leaf (megapage conflict)''"

lemma map_page_steps:
  "map_page r va pa flags =
     bindK (map_step ''Out of memory mapping page'' map_conflict r (vpn 2 va))
       (\<lambda>l1. bindK (map_step ''Out of memory mapping page'' map_conflict l1 (vpn 1 va))
          (\<lambda>l0. map_leaf ''Page already mapped'' l0 (vpn 0 va) pa flags))"
  by (simp add: map_page_def map_conflict_def)

text \<open>The result of \<open>map_page\<close> on a well-formed table: it never panics, an error changes no
  translation, and success adds exactly the requested one.\<close>

lemma map_page_spec:
  assumes inv: "pmm_inv s ps" and wf: "pt_wf (mem s) r (set ps)"
    and pa: "pa mod 4096 = 0" "flags < 1024"
  shows "\<exists>res s' ps'. map_page r va pa flags s = (res, s') \<and> vm_step r s ps s' ps'
    \<and> (\<forall>va'. walk_page_table (mem s') r va' =
         (if res = Ok () \<and> same_page va va' then Ok (pa OR (va' AND 0xFFF), PTE_V OR flags)
          else walk_page_table (mem s) r va'))
    \<and> (res = Ok () \<and> walk_page_table (mem s) r va = Err ''unmapped''
       \<or> res = Err ''Out of memory mapping page'' \<or> res = Err map_conflict
       \<or> res = Err ''Page already mapped'' \<and> (\<exists>x. walk_page_table (mem s) r va = Ok x))"
proof -
  let ?ms = "map_step ''Out of memory mapping page'' map_conflict"
  have root: "table_at (mem s) r [] r" by (simp add: table_at_def)
  obtain res1 s1 ps1 where 1: "?ms r (vpn 2 va) s = (res1, s1)" "vm_step r s ps s1 ps1"
    "\<forall>va. walk_page_table (mem s1) r va = walk_page_table (mem s) r va"
    and c1: "case res1 of Ok f \<Rightarrow> table_at (mem s1) r [vpn 2 va] f
       | Err e \<Rightarrow> e = ''Out of memory mapping page'' \<or> e = map_conflict | Panic e \<Rightarrow> False"
    using map_step_spec [OF inv wf root _ vpn_less, of "''Out of memory mapping page''" map_conflict 2 va]
    by (fastforce split: rr.splits)
  show ?thesis
  proof (cases res1)
    case (Ok l1)
    have inv1: "pmm_inv s1 ps1" "pt_wf (mem s1) r (set ps1)" using 1 by (simp_all add: vm_step_def)
    have l1: "table_at (mem s1) r [vpn 2 va] l1" using c1 Ok by simp
    obtain res2 s2 ps2 where 2: "?ms l1 (vpn 1 va) s1 = (res2, s2)" "vm_step r s1 ps1 s2 ps2"
      "\<forall>va. walk_page_table (mem s2) r va = walk_page_table (mem s1) r va"
      and c2: "case res2 of Ok f \<Rightarrow> table_at (mem s2) r [vpn 2 va, vpn 1 va] f
         | Err e \<Rightarrow> e = ''Out of memory mapping page'' \<or> e = map_conflict | Panic e \<Rightarrow> False"
      using map_step_spec [OF inv1 l1 _ vpn_less, of "''Out of memory mapping page''" map_conflict 1 va]
      by (fastforce split: rr.splits)
    note st = vm_step_trans [OF 1(2) 2(2)]
    show ?thesis
    proof (cases res2)
      case Ok2: (Ok l0)
      have inv2: "pmm_inv s2 ps2" "pt_wf (mem s2) r (set ps2)" using 2 by (simp_all add: vm_step_def)
      have l0: "table_at (mem s2) r [vpn 2 va, vpn 1 va] l0" using c2 Ok2 by simp
      obtain res s' where 3: "map_leaf ''Page already mapped'' l0 (vpn 0 va) pa flags s2 = (res, s')"
        "vm_step r s2 ps2 s' ps2"
        "\<forall>va'. walk_page_table (mem s') r va' =
           (if res = Ok () \<and> same_page va va' then Ok (pa OR (va' AND 0xFFF), PTE_V OR flags)
            else walk_page_table (mem s2) r va')"
        "res = Ok () \<and> walk_page_table (mem s2) r va = Err ''unmapped''
         \<or> res = Err ''Page already mapped'' \<and> (\<exists>x. walk_page_table (mem s2) r va = Ok x)"
        using map_leaf_spec [OF inv2 l0 pa, of "''Page already mapped''"] by blast
      have "map_page r va pa flags s = (res, s')"
        using 1(1) 2(1) 3(1) Ok Ok2 by (simp add: map_page_steps bindK_def)
      with vm_step_trans [OF st 3(2)] 3(3,4) 1(3) 2(3) show ?thesis
        by (intro exI [of _ res] exI [of _ s'] exI [of _ ps2]) auto
    next
      case (Err e)
      then have "map_page r va pa flags s = (Err e, s2)"
        using 1(1) 2(1) Ok by (simp add: map_page_steps bindK_def)
      with st c2 Err 1(3) 2(3) show ?thesis
        by (intro exI [of _ "Err e"] exI [of _ s2] exI [of _ ps2]) auto
    qed (use c2 in simp)
  next
    case (Err e)
    then have "map_page r va pa flags s = (Err e, s1)"
      using 1(1) by (simp add: map_page_steps bindK_def)
    with 1 c1 Err show ?thesis
      by (intro exI [of _ "Err e"] exI [of _ s1] exI [of _ ps1]) auto
  qed (use c1 in simp)
qed

text \<open>No table entry carries the write bit alone (a reserved encoding, which \<open>map_page\<close> takes for a
  leaf and \<open>walk_page_table\<close> for a table).\<close>

definition tables_clean :: "memory \<Rightarrow> usize \<Rightarrow> bool" where
  "tables_clean m r \<longleftrightarrow>
     (\<forall>p t i. table_at m r p t \<longrightarrow> length p \<le> 1 \<longrightarrow> m t i AND PTE_V \<noteq> 0 \<longrightarrow> \<not> is_leaf (m t i)
        \<longrightarrow> m t i AND PTE_W = 0)"

lemma rwx_split: "e AND (PTE_R OR PTE_W OR PTE_X) \<noteq> 0 \<longleftrightarrow> is_leaf e \<or> e AND PTE_W \<noteq> 0"
  by (auto simp: is_leaf_def bit_eq_iff bit_simps)

lemma clean_link:
  assumes inv: "pmm_inv s (n # ps)" and wf: "pt_wf (mem s) r (set (n # ps))"
    and clean: "tables_clean (mem s) r"
    and t: "table_at (mem s) r p t" "length p \<le> 1" and i: "i < 512" and e: "mem s t i AND PTE_V = 0"
  shows "tables_clean (mem (set_entry t i (mk_pte n PTE_V) (allocated n s))) r"
proof -
  let ?m1 = "(mem s)(n := zero_frame)"
  have nt: "\<And>q. \<not> table_at (mem s) r q n" using wf by (auto simp: pt_wf_def)
  have tn: "t \<noteq> n" using nt t by auto
  have tab1: "table_at ?m1 r = table_at (mem s) r" by (rule table_at_set_other [OF nt])
  have wf1: "pt_wf ?m1 r (set (n # ps))" using wf by (simp add: pt_wf_def tab1)
  have t1: "table_at ?m1 r p t" and f1: "\<And>q. \<not> table_at ?m1 r q n" using t nt by (simp_all add: tab1)
  have al: "n mod 4096 = 0" using free_page_aligned [OF inv] by simp
  have "?m1 t i AND PTE_V = 0" "?m1 n = zero_frame" using e tn by simp_all
  note link = pt_wf_link(1) [OF wf1 t1 t(2) i this(1) f1 this(2) al]
  have w: "mk_pte n PTE_V AND PTE_W = 0" using mk_pte_and [OF al, of PTE_V PTE_W] by (simp add: pte_defs)
  show ?thesis
    using clean w unfolding tables_clean_def set_entry_simps allocated_simps link tab1
    by (auto split: if_splits)
qed

lemma map_page_success:
  assumes inv: "pmm_inv s ps" and wf: "pt_wf (mem s) r (set ps)" and clean: "tables_clean (mem s) r"
    and two: "2 \<le> length ps" and un: "walk_page_table (mem s) r va = Err ''unmapped''"
    and pa: "pa mod 4096 = 0" "flags < 1024"
  shows "fst (map_page r va pa flags s) = Ok ()"
proof -
  let ?ms = "map_step ''Out of memory mapping page'' map_conflict"
  have no_conflict: "\<not> (mem s' t (vpn 2 va) AND PTE_V \<noteq> 0 \<and> is_leaf (mem s' t (vpn 2 va)))"
    if "walk_page_table (mem s') r va = Err ''unmapped''" "t = r" for s' t
    using that by (auto simp: walk_page_table_descend walk_step_def)
  have root: "table_at (mem s) r [] r" by (simp add: table_at_def)
  obtain res1 s1 ps1 where 1: "?ms r (vpn 2 va) s = (res1, s1)" "vm_step r s ps s1 ps1"
    "walk_page_table (mem s1) r va = Err ''unmapped''"
    and c1: "case res1 of Ok f \<Rightarrow> table_at (mem s1) r [vpn 2 va] f
       | Err e \<Rightarrow> e = ''Out of memory mapping page'' \<and> ps = []
          \<or> mem s r (vpn 2 va) AND PTE_V \<noteq> 0 \<and> mem s r (vpn 2 va) AND (PTE_R OR PTE_W OR PTE_X) \<noteq> 0
       | Panic e \<Rightarrow> False"
    and d1: "ps1 = ps \<and> s1 = s \<or> (\<exists>n. ps = n # ps1 \<and> mem s r (vpn 2 va) AND PTE_V = 0
       \<and> s1 = set_entry r (vpn 2 va) (mk_pte n PTE_V) (allocated n s))"
    using map_step_spec [OF inv wf root _ vpn_less, of "''Out of memory mapping page''" map_conflict 2 va] un
    by (fastforce split: rr.splits)
  have "\<not> (mem s r (vpn 2 va) AND PTE_V \<noteq> 0 \<and> mem s r (vpn 2 va) AND (PTE_R OR PTE_W OR PTE_X) \<noteq> 0)"
    using no_conflict [OF un] clean root unfolding rwx_split tables_clean_def by fastforce
  with c1 two obtain l1 where l1: "res1 = Ok l1" "table_at (mem s1) r [vpn 2 va] l1"
    by (cases res1) auto
  have inv1: "pmm_inv s1 ps1" "pt_wf (mem s1) r (set ps1)" using 1 by (simp_all add: vm_step_def)
  have clean1: "tables_clean (mem s1) r"
    using d1 clean clean_link [OF _ _ clean root] inv wf vpn_less by auto
  have ne: "ps1 \<noteq> []" using d1 two by auto
  obtain res2 s2 ps2 where 2: "?ms l1 (vpn 1 va) s1 = (res2, s2)" "vm_step r s1 ps1 s2 ps2"
    "walk_page_table (mem s2) r va = Err ''unmapped''"
    and c2: "case res2 of Ok f \<Rightarrow> table_at (mem s2) r [vpn 2 va, vpn 1 va] f
       | Err e \<Rightarrow> e = ''Out of memory mapping page'' \<and> ps1 = []
          \<or> mem s1 l1 (vpn 1 va) AND PTE_V \<noteq> 0 \<and> mem s1 l1 (vpn 1 va) AND (PTE_R OR PTE_W OR PTE_X) \<noteq> 0
       | Panic e \<Rightarrow> False"
    using map_step_spec [OF inv1 l1(2) _ vpn_less, of "''Out of memory mapping page''" map_conflict 1 va] 1(3)
    by (fastforce split: rr.splits)
  have "\<not> (mem s1 l1 (vpn 1 va) AND PTE_V \<noteq> 0 \<and> is_leaf (mem s1 l1 (vpn 1 va)))"
    using 1(3) l1(2) by (auto simp: walk_page_table_descend walk_step_def table_at_def split: if_splits)
  with clean1 l1(2) have "\<not> (mem s1 l1 (vpn 1 va) AND PTE_V \<noteq> 0
      \<and> mem s1 l1 (vpn 1 va) AND (PTE_R OR PTE_W OR PTE_X) \<noteq> 0)"
    unfolding rwx_split tables_clean_def by fastforce
  with c2 ne obtain l0 where l0: "res2 = Ok l0" "table_at (mem s2) r [vpn 2 va, vpn 1 va] l0"
    by (cases res2) auto
  have "fst (map_leaf ''Page already mapped'' l0 (vpn 0 va) pa flags s2) = Ok ()"
    using 2(3) walk_at_table [OF l0(2)] by (auto simp: map_leaf_def get_entry_def split: if_splits)
  then show ?thesis using 1(1) 2(1) l1(1) l0(1) by (simp add: map_page_steps bindK_def)
qed

section \<open>Correctness of the copy-on-write fault\<close>

lemma and_3FF_less: "x AND 0x3FF < (0x400 :: usize)"
proof -
  have "x AND 0x3FF \<le> (0x3FF :: usize)" by (rule word_and_le1)
  then show ?thesis by (simp add: word_le_nat_alt word_less_nat_alt)
qed

lemma cow_new_flags:
  assumes "e AND PTE_V \<noteq> 0"
  defines "fl \<equiv> e AND 0x3FF"
  shows "(fl AND NOT PTE_COW OR PTE_W) AND 0x3FF OR PTE_V = fl AND NOT PTE_COW OR PTE_W"
    and "fl AND NOT PTE_COW OR PTE_W < 0x400"
    and "(fl AND NOT PTE_COW OR PTE_W) AND PTE_V \<noteq> 0"
proof -
  have v: "bit e 0" using assms(1) by (simp add: PTE_V_def and_one_eq odd_iff_mod_2_eq_one bit_0)
  have m: "(0x3FF :: usize) = mask 10" by (simp add: mask_eq_exp_minus_1)
  have p: "PTE_V = push_bit 0 1" "PTE_W = push_bit 2 1" "PTE_COW = push_bit 8 1"
    by (simp_all add: pte_defs)
  have b: "bit PTE_V n \<longleftrightarrow> n = 0" "bit PTE_W n \<longleftrightarrow> n = 2" "bit PTE_COW n \<longleftrightarrow> n = 8" for n
    unfolding p bit_push_bit_iff bit_1_iff by auto
  have 1: "(fl AND NOT PTE_COW OR PTE_W) AND 0x3FF = fl AND NOT PTE_COW OR PTE_W"
    unfolding fl_def m by (rule bit_word_eqI) (auto simp: bit_simps b)
  show "(fl AND NOT PTE_COW OR PTE_W) AND 0x3FF OR PTE_V = fl AND NOT PTE_COW OR PTE_W"
    unfolding 1 unfolding fl_def m by (rule bit_word_eqI) (use v in \<open>auto simp: bit_simps b\<close>)
  show "fl AND NOT PTE_COW OR PTE_W < 0x400" using and_3FF_less [of "fl AND NOT PTE_COW OR PTE_W"] 1 by simp
  have "bit ((fl AND NOT PTE_COW OR PTE_W) AND PTE_V) 0"
    unfolding fl_def m using v by (simp add: bit_simps b)
  then show "(fl AND NOT PTE_COW OR PTE_W) AND PTE_V \<noteq> 0" by auto
qed

lemma walk_Ok_table:
  assumes "walk_page_table m r va = Ok (pa, fl)"
  obtains t where "table_at m r [vpn 2 va, vpn 1 va] t" "m t (vpn 0 va) AND PTE_V \<noteq> 0"
    "pa = pte_pa (m t (vpn 0 va)) OR (va AND 0xFFF)" "fl = m t (vpn 0 va) AND 0x3FF"
proof -
  obtain t where t: "descend ''unmapped'' ''huge pages not supported'' m r [vpn 2 va, vpn 1 va] = Ok t"
    using assms unfolding walk_page_table_descend by (auto split: rr.splits simp del: descend.simps)
  then have tab: "table_at m r [vpn 2 va, vpn 1 va] t"
    unfolding table_at_def using va_path descend_Ok_messages by blast
  with assms show ?thesis
    using walk_at_table [OF tab] that [OF tab] by (auto split: if_splits)
qed

lemma pmm_inv_decr:
  assumes inv: "pmm_inv s ps" and use: "in_use s p"
  shows "pmm_inv (decr_ref_and_maybe_free p s) (if refs s p = 1 then p # ps else ps)"
    and "refs s p \<noteq> 1 \<Longrightarrow> in_use (decr_ref_and_maybe_free p s) p \<and>
      refs (decr_ref_and_maybe_free p s) p = refs s p - 1"
proof -
  have pos: "refs s p \<noteq> 0" using use by (simp add: refs_def in_use_def unat_eq_0)
  have fresh: "p \<notin> set ps" by (rule in_use_not_free [OF inv use])
  show "pmm_inv (decr_ref_and_maybe_free p s) (if refs s p = 1 then p # ps else ps)"
    using inv use fresh pos
    by (auto simp: decr_ref_and_maybe_free_last decr_ref_and_maybe_free_shared push_free_inv
        in_use_def intro: pmm_inv_set_count)
  assume "refs s p \<noteq> 1"
  with pos have gt: "1 < refs s p" by simp
  then have "unat (page_ref_counts s (page_index s p) - 1) = refs s p - 1"
    by (simp add: refs_def unat_sub word_le_nat_alt)
  with gt use show "in_use (decr_ref_and_maybe_free p s) p \<and>
      refs (decr_ref_and_maybe_free p s) p = refs s p - 1"
    by (auto simp: decr_ref_and_maybe_free_shared in_use_def refs_def)
qed

lemma decr_ref_mem:
  "q \<noteq> p \<Longrightarrow> mem (decr_ref_and_maybe_free p s) q = mem s q"
  by (simp add: decr_ref_and_maybe_free_def Let_def)

lemma decr_ref_mem_form:
  "\<exists>f. mem (decr_ref_and_maybe_free p s) = (mem s)(p := f)"
  by (auto simp: decr_ref_and_maybe_free_def Let_def intro: fun_upd_triv [symmetric])

lemma page_mask_pte: "page_mask (pte_pa e OR (va AND 0xFFF)) = pte_pa e"
proof -
  have m: "(0xFFF :: usize) = mask 12" by (simp add: mask_eq_exp_minus_1)
  show ?thesis
    unfolding page_mask_def PAGE_SIZE_def m
    by (rule bit_word_eqI) (auto simp: pte_pa_def bit_simps m)
qed

lemma pte_pa_aligned: "pte_pa e mod 4096 = 0"
proof -
  have "take_bit 12 (pte_pa e) = 0"
    by (rule bit_word_eqI) (auto simp: pte_pa_def bit_simps)
  then show ?thesis by (simp add: take_bit_eq_mod)
qed

lemma decr_ref_simps [simp]:
  "ram_start (decr_ref_and_maybe_free p s) = ram_start s"
  by (simp add: decr_ref_and_maybe_free_def Let_def)

lemma refs_decr_other:
  assumes "in_use s p" "page_aligned q" "page_index s q < MAX_PAGES" "q \<noteq> p"
  shows "refs (decr_ref_and_maybe_free p s) q = refs s q"
proof -
  have "page_index s q \<noteq> page_index s p"
    using assms page_index_inj [of q p s] by (auto simp: in_use_def)
  moreover have "page_index (decr_ref_and_maybe_free p s) = page_index s"
    by (rule page_index_cong) simp
  ultimately show ?thesis
    by (simp add: refs_def decr_ref_and_maybe_free_def Let_def)
qed

text \<open>The state after the copy, before the reference to the old frame is dropped.\<close>

definition cow_copied :: "usize \<Rightarrow> usize \<Rightarrow> usize \<Rightarrow> nat \<Rightarrow> usize \<Rightarrow> pmm \<Rightarrow> pmm" where
  "cow_copied n pa t i e s = set_entry t i e (set_frame n (mem s pa) (allocated n s))"

lemma cow_run:
  assumes inv: "pmm_inv s (n # ps)" and use: "in_use s pa"
    and t: "table_at (mem s) r [vpn 2 va, vpn 1 va] t" "mem s t (vpn 0 va) AND PTE_V \<noteq> 0"
    and pa: "pte_pa (mem s t (vpn 0 va)) = pa" and fl: "fl = mem s t (vpn 0 va) AND 0x3FF"
    and cow: "fl AND PTE_COW \<noteq> 0"
  shows "handle_store_page_fault r va s =
    (Ok (), decr_ref_and_maybe_free pa
       (cow_copied n pa t (vpn 0 va) (mk_pte n (fl AND NOT PTE_COW OR PTE_W)) s))"
proof -
  have w: "walk_tables u h (mem s) r va = Ok t" for u h
    unfolding walk_tables_descend using t(1) descend_Ok_messages unfolding table_at_def by metis
  have m: "is_managed_page s pa" using use by (simp add: in_use_def)
  have "pa \<noteq> n" using in_use_not_free [OF inv use] by auto
  then have c: "mem (allocated n s) pa = mem s pa" by simp
  show ?thesis
    unfolding handle_store_page_fault_def w
    using t(2) cow alloc_frame_Cons [OF inv] cow_new_flags(1) [OF t(2), folded fl] pa m c
    by (simp add: get_entry_def Let_def bindK_def cow_copied_def fl [symmetric])
qed

lemma cow_copied_tables:
  fixes pa :: usize
  assumes inv: "pmm_inv s (n # ps)" and wf: "pt_wf (mem s) r (set (n # ps))"
    and t: "table_at (mem s) r [vpn 2 va, vpn 1 va] t"
    and e: "e AND PTE_V \<noteq> 0"
  defines "s3 \<equiv> cow_copied n pa t (vpn 0 va) e s"
  shows "pmm_inv s3 ps" and "table_at (mem s3) r = table_at (mem s) r"
    and "walk_page_table (mem s3) r va' =
      (if same_page va va' then Ok (pte_pa e OR (va' AND 0xFFF), e AND 0x3FF)
       else walk_page_table (mem s) r va')"
proof -
  have nt: "\<And>p. \<not> table_at (mem s) r p n" and tn: "t \<noteq> n" "t \<notin> set ps"
    using wf t by (auto simp: pt_wf_def)
  let ?m2 = "(mem s)(n := mem s pa)"
  have tab2: "table_at ?m2 r = table_at (mem s) r" by (rule table_at_set_other [OF nt])
  have wf2: "pt_wf ?m2 r (set (n # ps))" using wf by (simp add: pt_wf_def tab2)
  have t2: "table_at ?m2 r [vpn 2 va, vpn 1 va] t" using t by (simp only: tab2)
  have m3: "mem s3 = ?m2(t := (?m2 t)(vpn 0 va := e))" by (simp add: s3_def cow_copied_def)
  show "pmm_inv s3 ps"
    unfolding s3_def cow_copied_def using inv tn
    by (intro pmm_inv_set_entry pmm_inv_set_frame pmm_inv_allocated) (auto simp: pmm_inv_def)
  show "table_at (mem s3) r = table_at (mem s) r"
    unfolding m3 tab2 [symmetric] by (rule table_at_set_last [OF wf2 t2]) simp
  show "walk_page_table (mem s3) r va' =
      (if same_page va va' then Ok (pte_pa e OR (va' AND 0xFFF), e AND 0x3FF)
       else walk_page_table (mem s) r va')"
    unfolding m3 walk_set_leaf [OF wf2 t2] walk_set_other [OF nt] using e by simp
qed

lemma cow_copied_frames:
  fixes i :: nat and e :: usize
  assumes inv: "pmm_inv s (n # ps)" and use: "in_use s pa"
    and t: "t \<noteq> n" "t \<noteq> pa"
  defines "s3 \<equiv> cow_copied n pa t i e s"
  shows "in_use s3 pa" "refs s3 pa = refs s pa" "refs s3 n = 1" "mem s3 n = mem s pa" "mem s3 pa = mem s pa"
    and "q \<noteq> n \<Longrightarrow> q \<noteq> t \<Longrightarrow> mem s3 q = mem s q"
    and "page_index s3 = page_index s"
proof -
  have pan: "pa \<noteq> n" using in_use_not_free [OF inv use] by auto
  have "page_index s pa \<noteq> page_index s n"
    using use pan inv page_index_inj [of pa n s]
    by (auto simp: in_use_def pmm_inv_def free_ok_def)
  then show "in_use s3 pa" "refs s3 pa = refs s pa"
    using use by (auto simp: s3_def cow_copied_def in_use_def refs_def)
  show "refs s3 n = 1" "page_index s3 = page_index s" by (simp_all add: s3_def cow_copied_def refs_def)
  show "mem s3 n = mem s pa" "mem s3 pa = mem s pa" "q \<noteq> n \<Longrightarrow> q \<noteq> t \<Longrightarrow> mem s3 q = mem s q"
    using t pan by (simp_all add: s3_def cow_copied_def)
qed

lemma cow_fault_spec:
  assumes inv: "pmm_inv s (n # ps)" and wf: "pt_wf (mem s) r (set (n # ps))"
    and walk: "walk_page_table (mem s) r va = Ok (a, fl)" and cow: "fl AND PTE_COW \<noteq> 0"
    and use: "in_use s pa" and pa: "pa = page_mask a" and data: "\<And>p. \<not> table_at (mem s) r p pa"
  defines "ps' \<equiv> (if refs s pa = 1 then pa # ps else ps)"
  shows "\<exists>s'. handle_store_page_fault r va s = (Ok (), s')
    \<and> pmm_inv s' ps' \<and> pt_wf (mem s') r (set ps')
    \<and> (\<forall>va'. walk_page_table (mem s') r va' =
         (if same_page va va' then Ok (n OR (va' AND 0xFFF), fl AND NOT PTE_COW OR PTE_W)
          else walk_page_table (mem s) r va'))
    \<and> mem s' n = mem s pa \<and> refs s' n = 1
    \<and> (\<forall>q. q \<noteq> n \<longrightarrow> q \<noteq> pa \<longrightarrow> (\<forall>p. \<not> table_at (mem s) r p q) \<longrightarrow> mem s' q = mem s q)
    \<and> (refs s pa \<noteq> 1 \<longrightarrow> mem s' pa = mem s pa \<and> refs s' pa = refs s pa - 1)"
proof -
  obtain t where t: "table_at (mem s) r [vpn 2 va, vpn 1 va] t" "mem s t (vpn 0 va) AND PTE_V \<noteq> 0"
    and a: "a = pte_pa (mem s t (vpn 0 va)) OR (va AND 0xFFF)" and fl: "fl = mem s t (vpn 0 va) AND 0x3FF"
    using walk by (rule walk_Ok_table)
  have ppa: "pte_pa (mem s t (vpn 0 va)) = pa" unfolding pa a by (rule page_mask_pte [symmetric])
  define e where "e = mk_pte n (fl AND NOT PTE_COW OR PTE_W)"
  define s3 where "s3 = cow_copied n pa t (vpn 0 va) e s"
  let ?s' = "decr_ref_and_maybe_free pa s3"
  have tn: "t \<noteq> n" "t \<noteq> pa" using wf t data by (auto simp: pt_wf_def)
  have pan: "pa \<noteq> n" using in_use_not_free [OF inv use] by auto
  have al: "n mod 4096 = 0" using free_page_aligned [OF inv] by simp
  note nf = cow_new_flags [OF t(2), folded fl]
  have e: "e AND PTE_V \<noteq> 0" "pte_pa e = n" "e AND 0x3FF = fl AND NOT PTE_COW OR PTE_W"
    using nf mk_pte_and [OF al nf(2), of PTE_V] mk_pte_pa [OF al nf(2)]
    by (simp_all add: e_def PTE_V_def)
  note tabs = cow_copied_tables [OF inv wf t(1) e(1), where pa = pa, folded s3_def]
  note fr = cow_copied_frames [OF inv use tn, where i = "vpn 0 va" and e = e, folded s3_def]
  have run: "handle_store_page_fault r va s = (Ok (), ?s')"
    unfolding s3_def e_def by (rule cow_run [OF inv use t ppa fl cow])
  obtain f where f: "mem ?s' = (mem s3)(pa := f)" using decr_ref_mem_form by blast
  have data3: "\<And>p. \<not> table_at (mem s3) r p pa" using data by (simp add: tabs(2))
  have tab': "table_at (mem ?s') r = table_at (mem s) r"
    unfolding f table_at_set_other [OF data3] by (rule tabs(2))
  have walk': "walk_page_table (mem ?s') r va' =
      (if same_page va va' then Ok (n OR (va' AND 0xFFF), fl AND NOT PTE_COW OR PTE_W)
       else walk_page_table (mem s) r va')" for va'
    unfolding f walk_set_other [OF data3] tabs(3) e ..
  have "\<forall>q. q \<noteq> n \<longrightarrow> q \<noteq> pa \<longrightarrow> (\<forall>p. \<not> table_at (mem s) r p q) \<longrightarrow> mem ?s' q = mem s q"
    using t(1) fr(6) by (auto simp: f)
  moreover have "mem ?s' n = mem s pa" using fr(4) pan by (simp add: f)
  moreover have "refs ?s' n = 1"
    using refs_decr_other [OF fr(1), of n] inv pan fr(3)
    by (auto simp: fr(7) pmm_inv_def free_ok_def)
  moreover have "refs s pa \<noteq> 1 \<longrightarrow> mem ?s' pa = mem s pa \<and> refs ?s' pa = refs s pa - 1"
  proof
    assume r1: "refs s pa \<noteq> 1"
    have "refs s pa \<noteq> 0" using use by (simp add: refs_def in_use_def unat_eq_0)
    with r1 have "mem ?s' = mem s3" using decr_ref_and_maybe_free_shared [OF fr(1)] fr(2) by simp
    with pmm_inv_decr(2) [OF tabs(1) fr(1)] fr(2,5) r1
    show "mem ?s' pa = mem s pa \<and> refs ?s' pa = refs s pa - 1" by simp
  qed
  moreover have "pmm_inv ?s' ps'" using pmm_inv_decr(1) [OF tabs(1) fr(1)] fr(2) by (simp add: ps'_def)
  moreover have "pt_wf (mem ?s') r (set ps')" using wf data by (auto simp: pt_wf_def tab' ps'_def)
  ultimately show ?thesis using run walk' by blast
qed

text \<open>An empty root table.\<close>

lemma empty_table_wf:
  assumes "m r = zero_frame" "r \<notin> F"
  shows "pt_wf m r F" "tables_clean m r" "walk_page_table m r va = Err ''unmapped''"
proof -
  have only: "p = [] \<and> f = r" if "table_at m r p f" for p f
    using that assms by (cases p) (auto simp: table_at_def walk_step_def)
  then show "pt_wf m r F" using assms by (auto simp: pt_wf_def)
  have "m t i = 0" if "table_at m r p t" for p t i using only [OF that] assms by simp
  then show "tables_clean m r" by (auto simp: tables_clean_def)
  show "walk_page_table m r va = Err ''unmapped''"
    using assms by (simp add: walk_page_table_descend walk_step_def)
qed

text \<open>Taking a frame from the free list does not touch the tables.\<close>

lemma allocated_tables:
  assumes inv: "pmm_inv s (n # ps)" and wf: "pt_wf (mem s) r (set (n # ps))"
  shows "pmm_inv (allocated n s) ps" "pt_wf (mem (allocated n s)) r (set ps)"
    "table_at (mem (allocated n s)) r = table_at (mem s) r"
    "walk_page_table (mem (allocated n s)) r va = walk_page_table (mem s) r va"
    "tables_clean (mem s) r \<Longrightarrow> tables_clean (mem (allocated n s)) r"
    "n mod 4096 = 0" "n \<notin> set ps" "\<not> table_at (mem s) r p n"
proof -
  have nt: "\<And>q. \<not> table_at (mem s) r q n" using wf by (auto simp: pt_wf_def)
  have m1: "mem (allocated n s) = (mem s)(n := zero_frame)" by simp
  show tab: "table_at (mem (allocated n s)) r = table_at (mem s) r"
    unfolding m1 by (rule table_at_set_other [OF nt])
  show "walk_page_table (mem (allocated n s)) r va = walk_page_table (mem s) r va"
    unfolding m1 by (rule walk_set_other [OF nt])
  show "pmm_inv (allocated n s) ps" by (rule pmm_inv_allocated [OF inv])
  show "pt_wf (mem (allocated n s)) r (set ps)"
    using wf by (simp add: pt_wf_def tab del: allocated_simps)
  show "tables_clean (mem s) r \<Longrightarrow> tables_clean (mem (allocated n s)) r"
    using nt unfolding tables_clean_def tab by (auto simp: m1 simp del: allocated_simps)
  show "n mod 4096 = 0" "n \<notin> set ps" "\<not> table_at (mem s) r p n"
    using free_page_aligned [OF inv] inv nt by (simp_all add: pmm_inv_def)
qed

lemma walk_same_page:
  "same_page va va' \<Longrightarrow> walk_page_table m r va' = Err e \<Longrightarrow> walk_page_table m r va = Err e"
  by (auto simp: walk_page_table_descend same_page_path simp del: descend.simps split: rr.splits if_splits)

section \<open>The unmap loop\<close>

lemma unat_page_mask: "unat (page_mask va) = unat va div 4096 * 4096"
proof -
  have m: "(0xFFF :: usize) = mask 12" by (simp add: mask_eq_exp_minus_1)
  have "page_mask va = push_bit 12 (drop_bit 12 va)"
    unfolding page_mask_def PAGE_SIZE_def
    by (rule bit_word_eqI) (auto simp: bit_simps m)
  moreover have "unat va div 4096 * 4096 < 18446744073709551616"
    using unat_lt_2p64 [of va] div_times_less_eq_dividend [of "unat va" 4096] by linarith
  ultimately show ?thesis
    by (simp add: push_bit_eq_mult drop_bit_eq_div unat_mult_lem [THEN iffD1] unat_div mult.commute)
qed

lemma skip_step:
  assumes "unat va + 2 ^ k < 2 ^ 64" "unat va mod 4096 = 0" "12 \<le> k"
  shows "unat (page_mask (saturating_add va (2 ^ k))) = unat va + 2 ^ k"
    and "unat (page_mask (saturating_add va (2 ^ k))) mod 4096 = 0"
proof -
  have k: "unat (2 ^ k :: usize) = 2 ^ k"
  proof -
    have "(2 :: nat) ^ k < 2 ^ 64" using assms(1) by linarith
    then have "take_bit 64 ((2 :: nat) ^ k) = 2 ^ k" by (rule take_bit_nat_eq_self)
    then have "unat (of_nat (2 ^ k) :: usize) = 2 ^ k" by (simp only: unsigned_of_nat) simp
    then show ?thesis by simp
  qed
  have "saturating_add va (2 ^ k) = va + 2 ^ k"
    using assms(1) k by (simp add: saturating_add_def)
  moreover have "unat (va + 2 ^ k) = unat va + 2 ^ k"
    using assms(1) k by (simp add: unat_add_no_wrap)
  moreover have "(unat va + 2 ^ k) mod 4096 = 0"
  proof -
    have "(4096 :: nat) dvd 2 ^ k" using assms(3) le_imp_power_dvd [of 12 k "2 :: nat"] by simp
    then show ?thesis using assms(2) by (simp add: mod_eq_0_iff_dvd)
  qed
  ultimately show "unat (page_mask (saturating_add va (2 ^ k))) = unat va + 2 ^ k"
    and "unat (page_mask (saturating_add va (2 ^ k))) mod 4096 = 0"
    using unat_page_mask by (auto simp: div_mult_mod_eq)
qed

lemma page_step:
  assumes "unat va + 4096 < 2 ^ 64" "unat va mod 4096 = 0"
  shows "unat (va + PAGE_SIZE) = unat va + 4096" "unat (va + PAGE_SIZE) mod 4096 = 0"
  using assms unat_next_page [of va] by simp_all

text \<open>Away from the top of the address space the loop ends, without a panic.\<close>

lemma unmap_loop_terminates:
  assumes "unat end + 2 ^ 30 < 2 ^ 64" "unat va mod 4096 = 0"
  shows "\<exists>s'. unmap_loop r end va s = Some (Ok (), s')"
  using assms
proof (induction "unat end - unat va" arbitrary: va s rule: less_induct)
  case less
  show ?case
  proof (cases "va < end")
    case False
    then show ?thesis by (subst unmap_loop.simps) simp
  next
    case True
    then have lt: "unat va < unat end" by (simp add: word_less_nat_alt)
    let ?l2e = "get_entry r (vpn 2 va) s"
    let ?l1e = "get_entry (pte_pa ?l2e) (vpn 1 va) s"
    have sk: "\<exists>s'. unmap_loop r end (page_mask (saturating_add va (2 ^ k))) s = Some (Ok (), s')"
      if "12 \<le> k" "k \<le> 30" for k
    proof -
      have "(2 :: nat) ^ k \<le> 2 ^ 30" using that(2) by (rule power_increasing) simp
      then have "unat va + 2 ^ k < 2 ^ 64" using lt less.prems by linarith
      note st = skip_step [OF this less.prems(2) that(1)]
      have "unat end - unat (page_mask (saturating_add va (2 ^ k))) < unat end - unat va"
        unfolding st(1) using lt by (intro diff_less_mono2) simp_all
      from less.hyps [OF this less.prems(1) st(2)] show ?thesis .
    qed
    have pg: "unat va + 4096 < 2 ^ 64" using lt less.prems(1) by simp
    note st = page_step [OF pg less.prems(2)]
    have nx: "\<exists>s'. unmap_loop r end (va + PAGE_SIZE) s1 = Some (Ok (), s')" for s1
      using less.hyps [OF _ less.prems(1) st(2)] lt st(1) by simp
    show ?thesis
      using True pg nx sk [of 30] sk [of 21]
      by (subst unmap_loop.simps) (auto simp: Let_def not_le)
  qed
qed

text \<open>At the top of the address space an unmapped root entry makes it loop forever.\<close>

lemma unmap_loop_diverges:
  "unmap_loop r end va s = Some res \<Longrightarrow>
   \<not> (va = - 4096 \<and> end = - 1 \<and> get_entry r (vpn 2 va) s AND PTE_V = 0)"
proof (rule unmap_loop.raw_induct
    [of "\<lambda>r end va s res. \<not> (va = - 4096 \<and> end = - 1 \<and> get_entry r (vpn 2 va) s AND PTE_V = 0)"])
  fix f r' end' va' s' y
  assume IH: "\<And>r end va s y. f r end va s = Some y \<Longrightarrow>
      \<not> (va = - 4096 \<and> end = - 1 \<and> get_entry r (vpn 2 va) s AND PTE_V = 0)"
    and body: "(if va' < end' then
        let l2e = get_entry r' (vpn 2 va') s' in
        if l2e AND PTE_V = 0 \<or> is_leaf l2e
        then f r' end' (page_mask (saturating_add va' (2 ^ 30))) s'
        else
          let l1e = get_entry (pte_pa l2e) (vpn 1 va') s' in
          if l1e AND PTE_V = 0 \<or> is_leaf l1e
          then f r' end' (page_mask (saturating_add va' (2 ^ 21))) s'
          else
            let s1 = clear_leaf (pte_pa l1e) (vpn 0 va') s' in
            if 2 ^ 64 \<le> unat va' + 4096 then Some (Panic ''attempt to add with overflow'', s1)
            else f r' end' (va' + PAGE_SIZE) s1
      else Some (Ok (), s')) = Some y"
  have "page_mask (saturating_add (- 4096) (2 ^ 30)) = - 4096"
    by (simp add: page_mask_def saturating_add_def PAGE_SIZE_def)
  with body show "\<not> (va' = - 4096 \<and> end' = - 1 \<and> get_entry r' (vpn 2 va') s' AND PTE_V = 0)"
    using IH [of r' end' va' s' y] by (auto simp: Let_def)
qed

end
