(* ===== verification/Swap.thy ===== *)
theory Swap
  imports Vmm "HOL-Library.AList"
begin

text \<open>The compressed in-memory swap of \<open>src/mm/swap.rs\<close>, and \<open>alloc_page\<close> of \<open>src/mm/pmm.rs\<close>,
  which evicts a page when no frame is free.  The swap map is an association list with one entry
  per key; the two counters are atomics that wrap.\<close>

section \<open>Bytes of a frame\<close>

definition frame_byte :: "pframe \<Rightarrow> nat \<Rightarrow> u8" where
  "frame_byte f i = ucast (drop_bit (8 * (i mod 8)) (f (i div 8)))"

definition frame_bytes :: "pframe \<Rightarrow> u8 list" where
  "frame_bytes f = map (frame_byte f) [0..<4096]"

definition le_word :: "u8 list \<Rightarrow> usize" where
  "le_word bs = foldr (\<lambda>b w. push_bit 8 w OR ucast b) bs 0"

definition bytes_frame :: "u8 list \<Rightarrow> pframe" where
  "bytes_frame bs i = (if i < 512 then le_word (take 8 (drop (8 * i) bs)) else 0)"

section \<open>Compression\<close>

text \<open>The inner loop: extend the run while the byte repeats, up to 255.\<close>

function run_length :: "u8 list \<Rightarrow> nat \<Rightarrow> u8 \<Rightarrow> nat \<Rightarrow> nat" where
  "run_length src i b run =
     (if i + run < 4096 \<and> src ! (i + run) = b \<and> run < 255 then run_length src i b (run + 1)
      else run)"
  by pat_completeness auto
termination by (relation "measure (\<lambda>(src, i, b, run). 255 - run)") auto

declare run_length.simps [simp del]

lemma run_length_ge: "run \<le> run_length src i b run"
proof (induction src i b run rule: run_length.induct)
  case (1 src i b run)
  then show ?case by (subst run_length.simps) (auto dest: Suc_leD)
qed

function compress_loop :: "u8 list \<Rightarrow> nat \<Rightarrow> u8 list" where
  "compress_loop src i =
     (if i < 4096 then
        let b = src ! i; run = run_length src i b 1
        in b # of_nat run # compress_loop src (i + run)
      else [])"
  by pat_completeness auto
termination
proof (relation "measure (\<lambda>(src, i). 4096 - i)")
  fix src :: "u8 list" and i x xa
  assume "i < 4096" "x = src ! i" "xa = run_length src i x 1"
  then show "((src, i + xa), (src, i)) \<in> measure (\<lambda>(src, i). 4096 - i)"
    using run_length_ge [of 1 src i x] by simp
qed simp

declare compress_loop.simps [simp del]

definition compress_page :: "u8 list \<Rightarrow> u8 list" where
  "compress_page src = compress_loop src 0"

definition fill :: "u8 list \<Rightarrow> nat \<Rightarrow> nat \<Rightarrow> u8 \<Rightarrow> u8 list" where
  "fill dst from to b = take from dst @ replicate (to - from) b @ drop to dst"

function decompress_loop :: "u8 list \<Rightarrow> nat \<Rightarrow> nat \<Rightarrow> u8 list \<Rightarrow> u8 list" where
  "decompress_loop src i out_pos dst =
     (if i + 1 < length src \<and> out_pos < 4096 then
        let b = src ! i; run = unat (src ! (i + 1)); end = min (out_pos + run) 4096
        in decompress_loop src (i + 2) end (fill dst out_pos end b)
      else dst)"
  by pat_completeness auto
termination by (relation "measure (\<lambda>(src, i, out_pos, dst). length src - i)") auto

declare decompress_loop.simps [simp del]

definition decompress_page :: "u8 list \<Rightarrow> u8 list \<Rightarrow> u8 list" where
  "decompress_page src dst = decompress_loop src 0 0 dst"

section \<open>State\<close>

record swapped_page =
  sp_data :: "u8 list"
  sp_flags :: usize

record kmm =
  pm :: pmm
  SWAP_MAP :: "((usize \<times> usize) \<times> swapped_page) list"
  SWAP_TOTAL_PAGES :: usize
  SWAP_TOTAL_BYTES :: usize

text \<open>An operation of the allocator or of the page tables, on the whole state.\<close>

definition on_pm :: "(pmm, 'a) kmon \<Rightarrow> (kmm, 'a) kmon" where
  "on_pm f s = (case f (pm s) of (r, p) \<Rightarrow> (r, s\<lparr>pm := p\<rparr>))"

section \<open>Eviction\<close>

definition va_of :: "nat \<Rightarrow> nat \<Rightarrow> nat \<Rightarrow> usize" where
  "va_of l2i l1i l0i =
     push_bit 30 (of_nat l2i) OR push_bit 21 (of_nat l1i) OR push_bit 12 (of_nat l0i)"

definition table_entry :: "usize \<Rightarrow> bool" where
  "table_entry e \<longleftrightarrow> \<not> (e AND PTE_V = 0 \<or> is_leaf e)"

text \<open>The three nested loops over the levels; they only read until the first hit.\<close>

definition scan_l0 :: "pmm \<Rightarrow> nat \<Rightarrow> nat \<Rightarrow> usize \<Rightarrow> nat \<Rightarrow> (usize \<times> nat \<times> usize) option" where
  "scan_l0 s l2i l1i l0_pa l0i =
     (let pte = get_entry l0_pa l0i s in
      if pte AND PTE_V = 0 \<or> pte AND PTE_U = 0 then None
      else if \<not> is_managed_page s (pte_pa pte) then None
      else Some (l0_pa, l0i, va_of l2i l1i l0i))"

definition scan_l1 :: "pmm \<Rightarrow> nat \<Rightarrow> usize \<Rightarrow> nat \<Rightarrow> (usize \<times> nat \<times> usize) option" where
  "scan_l1 s l2i l1_pa l1i =
     (let l1e = get_entry l1_pa l1i s in
      if \<not> table_entry l1e then None
      else first_some (scan_l0 s l2i l1i (pte_pa l1e)) [0..<512])"

definition scan_l2 :: "pmm \<Rightarrow> usize \<Rightarrow> nat \<Rightarrow> (usize \<times> nat \<times> usize) option" where
  "scan_l2 s root l2i =
     (let l2e = get_entry root l2i s in
      if \<not> table_entry l2e then None
      else first_some (scan_l1 s l2i (pte_pa l2e)) [0..<512])"

definition evict_candidate :: "pmm \<Rightarrow> usize \<Rightarrow> (usize \<times> nat \<times> usize) option" where
  "evict_candidate s root = first_some (scan_l2 s root) [4..<512]"

definition evict_page :: "usize \<Rightarrow> usize \<times> nat \<times> usize \<Rightarrow> kmm \<Rightarrow> kmm" where
  "evict_page root c s =
     (let (l0_pa, l0i, va) = c;
          pte = get_entry l0_pa l0i (pm s);
          pa = pte_pa pte;
          compressed = compress_page (frame_bytes (mem (pm s) pa))
      in s\<lparr>SWAP_MAP := AList.update (root, va) \<lparr>sp_data = compressed, sp_flags = pte AND 0x3FF\<rparr> (SWAP_MAP s),
           pm := decr_ref_and_maybe_free pa (set_entry l0_pa l0i 0 (pm s)),
           SWAP_TOTAL_PAGES := SWAP_TOTAL_PAGES s + 1,
           SWAP_TOTAL_BYTES := SWAP_TOTAL_BYTES s + of_nat (length compressed)\<rparr>)"

text \<open>\<open>procs\<close>: for each process of the table in pid order, whether it is stopped, and its
  \<open>satp_val\<close>.\<close>

type_synonym proc_view = "(bool \<times> usize) list"

definition satp_root :: "usize \<Rightarrow> usize" where
  "satp_root satp = push_bit 12 (satp AND 0xFFFFFFFFFFF)"

definition try_evict_page :: "proc_view \<Rightarrow> kmm \<Rightarrow> bool \<times> kmm" where
  "try_evict_page procs s =
     (case first_some (\<lambda>(stopped, satp).
             let root = satp_root satp in
             if \<not> stopped \<or> root = 0 then None
             else map_option (Pair root) (evict_candidate (pm s) root)) procs of
        None \<Rightarrow> (False, s)
      | Some (root, c) \<Rightarrow> (True, evict_page root c s))"

definition lookup_swap :: "usize \<Rightarrow> usize \<Rightarrow> kmm \<Rightarrow> bool" where
  "lookup_swap root va s \<longleftrightarrow> map_of (SWAP_MAP s) (root, va) \<noteq> None"

section \<open>Restoring\<close>

text \<open>The errors after the removal leave the entry removed; a frame that was not mapped is dropped.\<close>

definition swap_in :: "usize \<Rightarrow> usize \<Rightarrow> (kmm, unit) kmon" where
  "swap_in root va s =
     (case map_of (SWAP_MAP s) (root, va) of
        None \<Rightarrow> (Err ''swap entry not found'', s)
      | Some swapped \<Rightarrow>
          bindK (on_pm alloc_frame) (\<lambda>r. case r of
              None \<Rightarrow> errK ''OOM during swap-in''
            | Some pa \<Rightarrow> (\<lambda>s1.
                let bytes = decompress_page (sp_data swapped) (frame_bytes (mem (pm s1) pa));
                    s2 = s1\<lparr>pm := set_frame pa (bytes_frame bytes) (pm s1)\<rparr>
                in case on_pm (map_page root va pa (sp_flags swapped)) s2 of
                     (Ok _, s3) \<Rightarrow>
                       (Ok (), s3\<lparr>SWAP_TOTAL_PAGES := SWAP_TOTAL_PAGES s3 - 1,
                                  SWAP_TOTAL_BYTES := SWAP_TOTAL_BYTES s3
                                    - of_nat (length (sp_data swapped))\<rparr>)
                   | (Err e, s3) \<Rightarrow> (Err e, s3\<lparr>pm := PhysFrame_drop pa (pm s3)\<rparr>)
                   | (Panic e, s3) \<Rightarrow> (Panic e, s3)))
            (s\<lparr>SWAP_MAP := AList.delete (root, va) (SWAP_MAP s)\<rparr>))"

definition evict_all :: "usize \<Rightarrow> kmm \<Rightarrow> kmm" where
  "evict_all root s =
     (let mine = filter (\<lambda>((rp, _), _). rp = root) (SWAP_MAP s);
          freed = sum_list (map (\<lambda>(_, sp). length (sp_data sp)) mine)
      in s\<lparr>SWAP_MAP := filter (\<lambda>((rp, _), _). rp \<noteq> root) (SWAP_MAP s),
           SWAP_TOTAL_PAGES := SWAP_TOTAL_PAGES s - of_nat (length mine),
           SWAP_TOTAL_BYTES := SWAP_TOTAL_BYTES s - of_nat freed\<rparr>)"

section \<open>Allocation with eviction\<close>

definition alloc_page :: "proc_view \<Rightarrow> (kmm, usize option) kmon" where
  "alloc_page procs =
     bindK (on_pm alloc_frame) (\<lambda>r. case r of
         Some f \<Rightarrow> retK (Some f)
       | None \<Rightarrow> (\<lambda>s. case try_evict_page procs s of
            (True, s1) \<Rightarrow> on_pm alloc_frame s1
          | (False, s1) \<Rightarrow> (Ok None, s1)))"

section \<open>Bytes and words\<close>

lemma bit_le_word:
  "bit (le_word bs) n \<longleftrightarrow> n < 64 \<and> n < 8 * length bs \<and> bit (bs ! (n div 8)) (n mod 8)"
proof (induction bs arbitrary: n)
  case Nil
  then show ?case by (simp add: le_word_def)
next
  case (Cons b bs)
  have le: "le_word (b # bs) = push_bit 8 (le_word bs) OR ucast b" by (simp add: le_word_def)
  show ?case
  proof (cases "n < 8")
    case True
    then show ?thesis unfolding le by (auto simp: bit_simps)
  next
    case False
    have "\<not> bit b n" using False bit_imp_le_length [of b n] by auto
    moreover have "n div 8 = Suc ((n - 8) div 8)" "n mod 8 = (n - 8) mod 8"
      using False by (auto simp: le_div_geq le_mod_geq not_less)
    ultimately show ?thesis
      unfolding le using False Cons.IH [of "n - 8"] by (auto simp: bit_simps)
  qed
qed

lemma length_frame_bytes [simp]: "length (frame_bytes f) = 4096"
  by (simp add: frame_bytes_def)

lemma bytes_frame_bytes:
  assumes "i < 512"
  shows "bytes_frame (frame_bytes f) i = f i"
proof (rule bit_word_eqI)
  fix n
  assume n: "n < LENGTH(64)"
  let ?bs = "take 8 (drop (8 * i) (frame_bytes f))"
  have len: "length ?bs = 8" using assms by simp
  have nth: "?bs ! k = frame_byte f (8 * i + k)" if "k < 8" for k
    using that assms by (simp add: frame_bytes_def)
  have k: "n div 8 < 8" using n by simp
  have "(8 * i + n div 8) div 8 = i" "(8 * i + n div 8) mod 8 = n div 8" using k by simp_all
  then have "bit (?bs ! (n div 8)) (n mod 8) \<longleftrightarrow> bit (f i) (8 * (n div 8) + n mod 8)"
    unfolding nth [OF k] frame_byte_def by (simp add: bit_simps)
  moreover have "bytes_frame (frame_bytes f) i = le_word ?bs" using assms by (simp add: bytes_frame_def)
  ultimately show "bit (bytes_frame (frame_bytes f) i) n \<longleftrightarrow> bit (f i) n"
    using n len by (simp only: bit_le_word mult_div_mod_eq) simp
qed

section \<open>Decompression undoes compression\<close>

lemma run_length_le:
  "run \<le> 255 \<Longrightarrow> i + run \<le> 4096 \<Longrightarrow> run_length src i b run \<le> 255 \<and> i + run_length src i b run \<le> 4096"
proof (induction src i b run rule: run_length.induct)
  case (1 src i b run)
  then show ?case by (subst (1 2) run_length.simps) auto
qed

lemma run_length_same:
  "\<forall>k < run. src ! (i + k) = b \<Longrightarrow> k < run_length src i b run \<Longrightarrow> src ! (i + k) = b"
proof (induction src i b run arbitrary: k rule: run_length.induct)
  case (1 src i b run)
  show ?case
  proof (cases "i + run < 4096 \<and> src ! (i + run) = b \<and> run < 255")
    case True
    then have "\<forall>k < run + 1. src ! (i + k) = b" using "1.prems"(1) by (auto simp: less_Suc_eq)
    moreover have "k < run_length src i b (run + 1)"
      using "1.prems"(2) True by (subst (asm) run_length.simps) simp
    ultimately show ?thesis using "1.IH" [OF True] by blast
  next
    case False
    then have "run_length src i b run = run" by (subst run_length.simps) auto
    then show ?thesis using "1.prems" by simp
  qed
qed

lemma decompress_compress_loop:
  assumes "length page = 4096" "length dst = 4096" "i \<le> 4096" "take i dst = take i page"
  shows "decompress_loop (pre @ compress_loop page i) (length pre) i dst = page"
  using assms
proof (induction page i arbitrary: pre dst rule: compress_loop.induct)
  case (1 page i)
  show ?case
  proof (cases "i < 4096")
    case False
    then have "compress_loop page i = []" by (subst compress_loop.simps) simp
    then show ?thesis using "1.prems" False by (subst decompress_loop.simps) simp
  next
    case True
    define b where "b = page ! i"
    define run where "run = run_length page i b 1"
    have run: "1 \<le> run" "run \<le> 255" "i + run \<le> 4096"
      using run_length_ge [of 1 page i b] run_length_le [of 1 i page b] True by (simp_all add: run_def)
    have same: "page ! (i + k) = b" if "k < run" for k
      using run_length_same [of 1 page i b k] that by (simp add: run_def b_def)
    have c: "compress_loop page i = b # of_nat run # compress_loop page (i + run)"
      using True by (subst compress_loop.simps) (simp add: b_def run_def Let_def)
    have u: "unat (of_nat run :: u8) = run" using run by (simp add: unsigned_of_nat take_bit_nat_eq_self)
    let ?src = "pre @ compress_loop page i" and ?dst = "fill dst i (i + run) b"
    have step: "decompress_loop ?src (length pre) i dst =
        decompress_loop ?src (length pre + 2) (i + run) ?dst"
      using True run u by (subst decompress_loop.simps) (simp add: c nth_append Let_def)
    have "take (i + run) ?dst = take (i + run) page"
    proof (rule nth_equalityI)
      fix k
      assume "k < length (take (i + run) ?dst)"
      then have k: "k < i + run" by (simp add: fill_def)
      show "take (i + run) ?dst ! k = take (i + run) page ! k"
      proof (cases "k < i")
        case True
        then have "take i dst ! k = take i page ! k" using "1.prems"(4) by simp
        then show ?thesis using True k run "1.prems" by (simp add: fill_def nth_append)
      next
        case False
        then show ?thesis
          using same [of "k - i"] k run "1.prems" by (simp add: fill_def nth_append)
      qed
    qed (use run "1.prems" in \<open>simp add: fill_def\<close>)
    moreover have "length ?dst = 4096" using run "1.prems" by (simp add: fill_def)
    ultimately have "decompress_loop ((pre @ [b, of_nat run]) @ compress_loop page (i + run))
        (length (pre @ [b, of_nat run])) (i + run) ?dst = page"
      using run "1.prems" by (intro "1.IH" [OF True b_def run_def]) simp_all
    then show ?thesis unfolding step by (simp add: c)
  qed
qed

lemma decompress_compress:
  "length page = 4096 \<Longrightarrow> length dst = 4096 \<Longrightarrow> decompress_page (compress_page page) dst = page"
  using decompress_compress_loop [of page dst 0 "[]"]
  by (simp add: decompress_page_def compress_page_def)

section \<open>Evicting and restoring a page\<close>

lemma bit_index: "bit (i :: nat) n \<Longrightarrow> i < 512 \<Longrightarrow> n < 9"
  using bit_take_bit_iff [of 9 i n] take_bit_nat_eq_self [of i 9] by simp

lemma vpn_va_of:
  assumes "i < 512" "j < 512" "k < 512"
  shows "vpn 2 (va_of i j k) = i" "vpn 1 (va_of i j k) = j" "vpn 0 (va_of i j k) = k"
    "va_of i j k AND 0xFFF = 0"
proof -
  have m: "(0x1FF :: usize) = mask 9" "(0xFFF :: usize) = mask 12" by (simp_all add: mask_eq_exp_minus_1)
  have u: "unat (of_nat x :: usize) = x" if "x < 512" for x
    using that by (simp add: unsigned_of_nat take_bit_nat_eq_self)
  note b = bit_index [OF _ assms(1)] bit_index [OF _ assms(2)] bit_index [OF _ assms(3)]
  have "drop_bit 30 (va_of i j k) AND 0x1FF = of_nat i"
    unfolding va_of_def m by (rule bit_word_eqI) (auto simp: bit_simps dest: b)
  then show "vpn 2 (va_of i j k) = i" using u assms(1) by (simp add: vpn_def)
  have "drop_bit 21 (va_of i j k) AND 0x1FF = of_nat j"
    unfolding va_of_def m by (rule bit_word_eqI) (auto simp: bit_simps dest: b)
  then show "vpn 1 (va_of i j k) = j" using u assms(2) by (simp add: vpn_def)
  have "drop_bit 12 (va_of i j k) AND 0x1FF = of_nat k"
    unfolding va_of_def m by (rule bit_word_eqI) (auto simp: bit_simps dest: b)
  then show "vpn 0 (va_of i j k) = k" using u assms(3) by (simp add: vpn_def)
  show "va_of i j k AND 0xFFF = 0"
    unfolding va_of_def m by (rule bit_word_eqI) (auto simp: bit_simps)
qed

text \<open>The tables on the path to a page, free of permission bits.\<close>

definition strict_path :: "memory \<Rightarrow> usize \<Rightarrow> usize \<Rightarrow> usize \<Rightarrow> bool" where
  "strict_path m r va t \<longleftrightarrow>
     (let e2 = m r (vpn 2 va); e1 = m (pte_pa e2) (vpn 1 va)
      in e2 AND PTE_V \<noteq> 0 \<and> e2 AND (PTE_R OR PTE_W OR PTE_X) = 0
       \<and> e1 AND PTE_V \<noteq> 0 \<and> e1 AND (PTE_R OR PTE_W OR PTE_X) = 0 \<and> t = pte_pa e1)"

lemma no_rwx_not_leaf: "e AND (PTE_R OR PTE_W OR PTE_X) = 0 \<Longrightarrow> \<not> is_leaf e"
  by (simp add: is_leaf_def bit_eq_iff bit_simps)

lemma strict_path_table: "strict_path m r va t \<Longrightarrow> table_at m r [vpn 2 va, vpn 1 va] t"
  by (auto simp: strict_path_def table_at_def vpn_less walk_step_def no_rwx_not_leaf Let_def)

lemma map_page_strict:
  "strict_path (mem s) r va t \<Longrightarrow>
   map_page r va pa flags s = map_leaf ''Page already mapped'' t (vpn 0 va) pa flags s"
  by (auto simp: strict_path_def map_page_steps map_step_def bindK_def get_entry_def Let_def)

lemma strict_path_frame:
  assumes "strict_path m r va t" "f \<noteq> r" "f \<noteq> pte_pa (m r (vpn 2 va))"
  shows "strict_path (m(f := g)) r va t"
  using assms by (simp add: strict_path_def Let_def)

lemma strict_path_l1: "strict_path m r va t \<Longrightarrow> table_at m r [vpn 2 va] (pte_pa (m r (vpn 2 va)))"
  by (auto simp: strict_path_def table_at_def vpn_less walk_step_def no_rwx_not_leaf Let_def)

lemma strict_path_not_table:
  "strict_path m r va t \<Longrightarrow> (\<And>p. \<not> table_at m r p f) \<Longrightarrow> strict_path (m(f := g)) r va t"
  using strict_path_frame strict_path_l1 descend.simps(1) is_path_simps(1)
  unfolding table_at_def by metis

lemma strict_path_set_leaf:
  assumes "pt_wf m r F" "strict_path m r va t"
  shows "strict_path (m(t := g)) r va t"
proof (rule strict_path_frame [OF assms(2)])
  note t = strict_path_table [OF assms(2)]
  have "table_at m r [] r" by (simp add: table_at_def)
  then show "t \<noteq> r" using t assms(1) unfolding pt_wf_def by blast
  show "t \<noteq> pte_pa (m r (vpn 2 va))"
    using t strict_path_l1 [OF assms(2)] assms(1) unfolding pt_wf_def by blast
qed

text \<open>A resident user page: mapped through tables of its own, backed by a frame in use that is no
  table.\<close>

definition resident :: "pmm \<Rightarrow> usize \<Rightarrow> usize \<Rightarrow> usize \<Rightarrow> usize \<Rightarrow> bool" where
  "resident s r va t pa \<longleftrightarrow>
     strict_path (mem s) r va t \<and> mem s t (vpn 0 va) AND PTE_V \<noteq> 0
   \<and> pa = pte_pa (mem s t (vpn 0 va)) \<and> in_use s pa \<and> (\<forall>p. \<not> table_at (mem s) r p pa)"

lemma evict_page_pm:
  assumes inv: "pmm_inv (pm s) ps" and wf: "pt_wf (mem (pm s)) r (set ps)"
    and res: "resident (pm s) r va t pa"
  defines "s' \<equiv> evict_page r (t, vpn 0 va, va) s"
    and "ps' \<equiv> (if refs (pm s) pa = 1 then pa # ps else ps)"
  shows "pmm_inv (pm s') ps'" "pt_wf (mem (pm s')) r (set ps')" "strict_path (mem (pm s')) r va t"
    and "walk_page_table (mem (pm s')) r va' =
      (if same_page va va' then Err ''unmapped'' else walk_page_table (mem (pm s)) r va')"
    and "mem (pm s') t (vpn 0 va) = 0"
proof -
  have sp: "strict_path (mem (pm s)) r va t" and pa: "pa = pte_pa (mem (pm s) t (vpn 0 va))"
    and use: "in_use (pm s) pa" and data: "\<And>p. \<not> table_at (mem (pm s)) r p pa"
    using res by (auto simp: resident_def)
  note t = strict_path_table [OF sp]
  have tp: "t \<noteq> pa" "t \<notin> set ps" using t data wf by (auto simp: pt_wf_def)
  define s1 where "s1 = set_entry t (vpn 0 va) 0 (pm s)"
  have pm': "pm s' = decr_ref_and_maybe_free pa s1"
    by (simp add: s'_def evict_page_def s1_def pa get_entry_def Let_def)
  have m1: "mem s1 = (mem (pm s))(t := (mem (pm s) t)(vpn 0 va := 0))" by (simp add: s1_def)
  have tab1: "table_at (mem s1) r = table_at (mem (pm s)) r"
    unfolding m1 by (rule table_at_set_last [OF wf t]) simp
  have data1: "\<And>p. \<not> table_at (mem s1) r p pa" using data by (simp add: tab1)
  obtain f where f: "mem (pm s') = (mem s1)(pa := f)" using decr_ref_mem_form pm' by metis
  have use1: "in_use s1 pa" "refs s1 pa = refs (pm s) pa" using use by (simp_all add: s1_def)
  have inv1: "pmm_inv s1 ps" unfolding s1_def by (rule pmm_inv_set_entry [OF inv tp(2)])
  show "pmm_inv (pm s') ps'" using pmm_inv_decr(1) [OF inv1 use1(1)] use1(2) by (simp add: pm' ps'_def)
  have "table_at (mem (pm s')) r = table_at (mem (pm s)) r"
    unfolding f table_at_set_other [OF data1] by (rule tab1)
  then show "pt_wf (mem (pm s')) r (set ps')" using wf data by (auto simp: pt_wf_def ps'_def)
  show "strict_path (mem (pm s')) r va t"
    unfolding f by (rule strict_path_not_table [OF _ data1])
      (use strict_path_set_leaf [OF wf sp] in \<open>simp add: m1\<close>)
  have "walk_page_table (mem (pm s')) r va' = walk_page_table (mem s1) r va'"
    unfolding f by (rule walk_set_other [OF data1])
  then show "walk_page_table (mem (pm s')) r va' =
      (if same_page va va' then Err ''unmapped'' else walk_page_table (mem (pm s)) r va')"
    unfolding m1 walk_set_leaf [OF wf t] by simp
  show "mem (pm s') t (vpn 0 va) = 0" using tp by (simp add: f m1)
qed

lemma swap_in_strict:
  assumes inv: "pmm_inv (pm s) (n # ps)" and wf: "pt_wf (mem (pm s)) r (set (n # ps))"
    and sp: "strict_path (mem (pm s)) r va t" and free: "mem (pm s) t (vpn 0 va) = 0"
    and entry: "map_of (SWAP_MAP s) (r, va) = Some \<lparr>sp_data = compress_page (frame_bytes f), sp_flags = fl\<rparr>"
    and fl: "fl < 0x400"
  shows "\<exists>s'. swap_in r va s = (Ok (), s') \<and> pmm_inv (pm s') ps \<and> pt_wf (mem (pm s')) r (set ps)
    \<and> (\<forall>va'. walk_page_table (mem (pm s')) r va' =
         (if same_page va va' then Ok (n OR (va' AND 0xFFF), PTE_V OR fl)
          else walk_page_table (mem (pm s)) r va'))
    \<and> (\<forall>i < 512. mem (pm s') n i = f i)
    \<and> SWAP_MAP s' = AList.delete (r, va) (SWAP_MAP s)
    \<and> SWAP_TOTAL_PAGES s' = SWAP_TOTAL_PAGES s - 1
    \<and> SWAP_TOTAL_BYTES s' = SWAP_TOTAL_BYTES s - of_nat (length (compress_page (frame_bytes f)))"
proof -
  have nt: "\<And>p. \<not> table_at (mem (pm s)) r p n" using wf by (auto simp: pt_wf_def)
  have tn: "t \<noteq> n" using nt strict_path_table [OF sp] by blast
  have al: "n mod 4096 = 0" using free_page_aligned [OF inv] by simp
  define p2 where "p2 = set_frame n (bytes_frame (frame_bytes f)) (allocated n (pm s))"
  have m2: "mem p2 = (mem (pm s))(n := bytes_frame (frame_bytes f))" by (simp add: p2_def)
  have tab2: "table_at (mem p2) r = table_at (mem (pm s)) r" unfolding m2 by (rule table_at_set_other [OF nt])
  have inv2: "pmm_inv p2 ps"
    unfolding p2_def using inv by (intro pmm_inv_set_frame pmm_inv_allocated) (auto simp: pmm_inv_def)
  have wf2: "pt_wf (mem p2) r (set ps)" using wf by (simp add: pt_wf_def tab2)
  have sp2: "strict_path (mem p2) r va t" unfolding m2 by (rule strict_path_not_table [OF sp nt])
  obtain res p3 where p3: "map_page r va n fl p2 = (res, p3)" "vm_step r p2 ps p3 ps"
    "\<forall>va'. walk_page_table (mem p3) r va' =
       (if res = Ok () \<and> same_page va va' then Ok (n OR (va' AND 0xFFF), PTE_V OR fl)
        else walk_page_table (mem p2) r va')"
    using map_leaf_spec [OF inv2 wf2 strict_path_table [OF sp2] al fl, of "''Page already mapped''"]
    unfolding map_page_strict [OF sp2] by blast
  have free2: "mem p2 t (vpn 0 va) AND PTE_V = 0" using free tn by (simp add: m2)
  then have ok: "res = Ok ()" and mem3: "mem p3 n = mem p2 n"
    using p3(1) tn unfolding map_page_strict [OF sp2] by (auto simp: map_leaf_def get_entry_def)
  have dec: "decompress_page (compress_page (frame_bytes f)) (frame_bytes zero_frame) = frame_bytes f"
    by (rule decompress_compress) simp_all
  have run: "swap_in r va s = (Ok (), s\<lparr>SWAP_MAP := AList.delete (r, va) (SWAP_MAP s), pm := p3,
      SWAP_TOTAL_PAGES := SWAP_TOTAL_PAGES s - 1,
      SWAP_TOTAL_BYTES := SWAP_TOTAL_BYTES s - of_nat (length (compress_page (frame_bytes f)))\<rparr>)"
    using entry alloc_frame_Cons [OF inv] p3(1) ok dec
    by (simp add: swap_in_def on_pm_def bindK_def p2_def Let_def)
  have walk2: "walk_page_table (mem p2) r va' = walk_page_table (mem (pm s)) r va'" for va'
    unfolding m2 by (rule walk_set_other [OF nt])
  show ?thesis
    using run p3(2,3) ok walk2 mem3 by (simp add: vm_step_def m2 bytes_frame_bytes)
qed

text \<open>The scan finds a valid user page on a managed frame, outside the kernel's root entries.\<close>

lemma evict_candidate_sound:
  assumes "evict_candidate s r = Some (t, i, va)"
  shows "vpn 0 va = i" "i < 512" "4 \<le> vpn 2 va" "va AND 0xFFF = 0"
    and "table_at (mem s) r [vpn 2 va, vpn 1 va] t"
    and "mem s t i AND PTE_V \<noteq> 0" "mem s t i AND PTE_U \<noteq> 0" "is_managed_page s (pte_pa (mem s t i))"
proof -
  obtain l2i where l2: "4 \<le> l2i" "l2i < 512" "scan_l2 s r l2i = Some (t, i, va)"
    using assms unfolding evict_candidate_def by (rule first_some_upt)
  have e2: "table_entry (mem s r l2i)"
    using l2(3) by (auto simp: scan_l2_def get_entry_def Let_def simp del: first_some.simps split: if_splits)
  have "first_some (scan_l1 s l2i (pte_pa (mem s r l2i))) [0..<512] = Some (t, i, va)"
    using l2(3) e2 unfolding scan_l2_def Let_def get_entry_def by (simp only: not_not if_False simp_thms)
  then obtain l1i where l1: "l1i < 512" "scan_l1 s l2i (pte_pa (mem s r l2i)) l1i = Some (t, i, va)"
    by (rule first_some_upt)
  let ?l1e = "mem s (pte_pa (mem s r l2i)) l1i"
  have e1: "table_entry ?l1e"
    using l1(2) by (auto simp: scan_l1_def get_entry_def Let_def simp del: first_some.simps split: if_splits)
  have "first_some (scan_l0 s l2i l1i (pte_pa ?l1e)) [0..<512] = Some (t, i, va)"
    using l1(2) e1 unfolding scan_l1_def Let_def get_entry_def by (simp only: not_not if_False simp_thms)
  then obtain l0i where l0: "l0i < 512" "scan_l0 s l2i l1i (pte_pa ?l1e) l0i = Some (t, i, va)"
    by (rule first_some_upt)
  have t: "t = pte_pa ?l1e" and ix: "i < 512" "va = va_of l2i l1i i"
    and p: "mem s t i AND PTE_V \<noteq> 0" "mem s t i AND PTE_U \<noteq> 0" "is_managed_page s (pte_pa (mem s t i))"
    using l0 by (auto simp: scan_l0_def get_entry_def Let_def split: if_splits)
  have v: "vpn 2 va = l2i" "vpn 1 va = l1i" "vpn 0 va = i"
    using vpn_va_of [OF l2(2) l1(1) ix(1)] ix(2) by simp_all
  show "vpn 0 va = i" "i < 512" "4 \<le> vpn 2 va" "va AND 0xFFF = 0"
    using v ix l2(1) vpn_va_of(4) [OF l2(2) l1(1) ix(1)] by simp_all
  show "table_at (mem s) r [vpn 2 va, vpn 1 va] t"
    using e1 e2 t l2 l1 v by (auto simp: table_at_def table_entry_def walk_step_def)
  show "mem s t i AND PTE_V \<noteq> 0" "mem s t i AND PTE_U \<noteq> 0" "is_managed_page s (pte_pa (mem s t i))"
    by fact+
qed

lemma swap_round_trip_lemma:
  assumes inv: "pmm_inv (pm s) ps" and wf: "pt_wf (mem (pm s)) r (set ps)"
    and cand: "evict_candidate (pm s) r = Some (t, i, va)" and res: "resident (pm s) r va t pa"
    and new: "map_of (SWAP_MAP s) (r, va) = None"
    and free: "(if refs (pm s) pa = 1 then pa # ps else ps) = n # qs"
  shows "\<exists>s'. swap_in r va (evict_page r (t, i, va) s) = (Ok (), s')
    \<and> pmm_inv (pm s') qs \<and> pt_wf (mem (pm s')) r (set qs)
    \<and> (\<forall>va'. walk_page_table (mem (pm s')) r va' =
         (if same_page va va' then Ok (n OR (va' AND 0xFFF), mem (pm s) t i AND 0x3FF)
          else walk_page_table (mem (pm s)) r va'))
    \<and> (\<forall>k < 512. mem (pm s') n k = mem (pm s) pa k)
    \<and> map_of (SWAP_MAP s') = map_of (SWAP_MAP s)
    \<and> SWAP_TOTAL_PAGES s' = SWAP_TOTAL_PAGES s \<and> SWAP_TOTAL_BYTES s' = SWAP_TOTAL_BYTES s"
proof -
  note c = evict_candidate_sound [OF cand]
  let ?s1 = "evict_page r (t, i, va) s" and ?fl = "mem (pm s) t i AND 0x3FF"
  let ?c = "compress_page (frame_bytes (mem (pm s) pa))"
  have pa: "pa = pte_pa (mem (pm s) t i)" using res c(1) by (simp add: resident_def)
  note ev = evict_page_pm [OF inv wf res, unfolded c(1) free]
  have sw: "SWAP_MAP ?s1 = AList.update (r, va) \<lparr>sp_data = ?c, sp_flags = ?fl\<rparr> (SWAP_MAP s)"
    "SWAP_TOTAL_PAGES ?s1 = SWAP_TOTAL_PAGES s + 1"
    "SWAP_TOTAL_BYTES ?s1 = SWAP_TOTAL_BYTES s + of_nat (length ?c)"
    by (simp_all add: evict_page_def get_entry_def pa Let_def)
  have entry: "map_of (SWAP_MAP ?s1) (r, va) = Some \<lparr>sp_data = ?c, sp_flags = ?fl\<rparr>"
    by (simp add: sw update_conv')
  have "mem (pm ?s1) t (vpn 0 va) = 0" using ev(5) c(1) by simp
  note si = swap_in_strict [OF ev(1,2,3) this entry and_3FF_less]
  have flv: "PTE_V OR ?fl = ?fl"
  proof -
    have "bit (mem (pm s) t i) 0" using c(6) by (simp add: PTE_V_def and_one_eq odd_iff_mod_2_eq_one bit_0)
    then show ?thesis
      by (intro bit_word_eqI) (auto simp: PTE_V_def bit_simps)
  qed
  have same: "map_of (AList.delete (r, va) (SWAP_MAP ?s1)) = map_of (SWAP_MAP s)"
    using new by (simp add: sw delete_conv' update_conv' fun_upd_idem)
  from si same show ?thesis unfolding flv ev(4) sw by (auto simp: sw fun_eq_iff)
qed

section \<open>Accounting\<close>

definition swap_bytes :: "((usize \<times> usize) \<times> swapped_page) list \<Rightarrow> nat" where
  "swap_bytes m = sum_list (map (\<lambda>(_, sp). length (sp_data sp)) m)"

definition swap_ok :: "kmm \<Rightarrow> bool" where
  "swap_ok s \<longleftrightarrow>
     distinct (map fst (SWAP_MAP s)) \<and> SWAP_TOTAL_PAGES s = of_nat (length (SWAP_MAP s))
   \<and> SWAP_TOTAL_BYTES s = of_nat (swap_bytes (SWAP_MAP s))"

lemma update_new: "map_of m k = None \<Longrightarrow> AList.update k v m = m @ [(k, v)]"
  by (induction m) (auto split: if_splits)

lemma delete_account:
  assumes "distinct (map fst m)" "map_of m k = Some sp"
  shows "length m = Suc (length (AList.delete k m))"
    and "swap_bytes m = length (sp_data sp) + swap_bytes (AList.delete k m)"
proof -
  have none: "AList.delete k xs = xs" if "k \<notin> fst ` set xs" for xs :: "((usize \<times> usize) \<times> swapped_page) list"
    using that by (induction xs) auto
  show "length m = Suc (length (AList.delete k m))"
    and "swap_bytes m = length (sp_data sp) + swap_bytes (AList.delete k m)"
    using assms by (induction m) (auto simp: none swap_bytes_def split: if_splits)
qed

lemma swap_ok_evict_page:
  "swap_ok s \<Longrightarrow> map_of (SWAP_MAP s) (r, va) = None \<Longrightarrow> swap_ok (evict_page r (t, i, va) s)"
  by (auto simp: swap_ok_def evict_page_def update_new swap_bytes_def Let_def map_of_eq_None_iff)

lemma swap_ok_swap_in:
  assumes "swap_ok s" "swap_in r va s = (Ok (), s')"
  shows "swap_ok s'"
proof -
  obtain sp where sp: "map_of (SWAP_MAP s) (r, va) = Some sp"
    using assms(2) by (auto simp: swap_in_def split: option.splits)
  have d: "distinct (map fst (SWAP_MAP s))" using assms(1) by (simp add: swap_ok_def)
  note acc = delete_account [OF d sp]
  have "SWAP_MAP s' = AList.delete (r, va) (SWAP_MAP s)"
    "SWAP_TOTAL_PAGES s' = SWAP_TOTAL_PAGES s - 1"
    "SWAP_TOTAL_BYTES s' = SWAP_TOTAL_BYTES s - of_nat (length (sp_data sp))"
    using assms(2) sp
    by (auto simp: swap_in_def bindK_def on_pm_def Let_def errK_def split: rr.splits option.splits prod.splits)
  with assms(1) acc show ?thesis
    by (auto simp: swap_ok_def distinct_delete)
qed

lemma swap_ok_evict_all: "swap_ok s \<Longrightarrow> swap_ok (evict_all r s)"
proof -
  assume ok: "swap_ok s"
  let ?P = "\<lambda>((rp, _), _). rp = r" and ?Q = "\<lambda>((rp, _), _). rp \<noteq> r"
  have len: "length m = length (filter ?P m) + length (filter ?Q m)"
    and sum: "swap_bytes m = swap_bytes (filter ?P m) + swap_bytes (filter ?Q m)"
    for m :: "((usize \<times> usize) \<times> swapped_page) list"
    by (induction m) (auto simp: swap_bytes_def)
  have "distinct (map fst (filter ?Q (SWAP_MAP s)))"
    using ok by (auto simp: swap_ok_def intro: distinct_map_filter)
  with ok show ?thesis
    using len [of "SWAP_MAP s"] sum [of "SWAP_MAP s"]
    by (auto simp: swap_ok_def evict_all_def Let_def swap_bytes_def [symmetric])
qed

lemma evict_all_lookup: "lookup_swap rp va (evict_all r s) \<longleftrightarrow> rp \<noteq> r \<and> lookup_swap rp va s"
  by (auto simp: lookup_swap_def evict_all_def Let_def map_of_eq_None_iff image_iff) force+

text \<open>With no free frame the entry is removed and its page is lost.\<close>

lemma swap_in_oom:
  assumes "pmm_inv (pm s) []" "lookup_swap r va s"
  shows "swap_in r va s =
      (Err ''OOM during swap-in'', s\<lparr>SWAP_MAP := AList.delete (r, va) (SWAP_MAP s)\<rparr>)"
    and "\<not> lookup_swap r va (snd (swap_in r va s))"
proof -
  show run: "swap_in r va s =
      (Err ''OOM during swap-in'', s\<lparr>SWAP_MAP := AList.delete (r, va) (SWAP_MAP s)\<rparr>)"
    using assms alloc_frame_empty
    by (auto simp: swap_in_def lookup_swap_def on_pm_def bindK_def)
  show "\<not> lookup_swap r va (snd (swap_in r va s))"
    by (simp add: run lookup_swap_def delete_conv')
qed

section \<open>The frame pool with eviction\<close>

text \<open>While frames are free, \<open>alloc_page\<close> and \<open>free_page\<close> provide the pool interface.\<close>

definition free_page_k :: "usize \<Rightarrow> (kmm, unit) kmon" where
  "free_page_k page = on_pm (free_page page)"

interpretation kpool: frame_pool "alloc_page procs" free_page_k
  "\<lambda>s. pmm_inv (pm s)" "\<lambda>s. pmm_sole (pm s)" "\<lambda>s. mem (pm s)"
  for procs
proof
  fix s :: kmm and p ps
  assume "pmm_inv (pm s) (p # ps)"
  then show "\<exists>s'. alloc_page procs s = (Ok (Some p), s') \<and> pmm_inv (pm s') ps \<and> pmm_sole (pm s') p
    \<and> mem (pm s') p = zero_frame \<and> (\<forall>q. q \<noteq> p \<longrightarrow> mem (pm s') q = mem (pm s) q)
    \<and> (\<forall>q. pmm_sole (pm s) q \<longrightarrow> pmm_sole (pm s') q)"
    by (auto simp: alloc_page_def on_pm_def bindK_def alloc_frame_Cons pmm_inv_allocated
        pmm_sole_allocated)
next
  fix s :: kmm and ps p
  assume inv: "pmm_inv (pm s) ps" and sole: "pmm_sole (pm s) p"
  then have use: "in_use (pm s) p" by (simp add: pmm_sole_def)
  show "\<exists>s'. free_page_k p s = (Ok (), s') \<and> pmm_inv (pm s') (p # ps)
    \<and> (\<forall>q. q \<noteq> p \<longrightarrow> mem (pm s') q = mem (pm s) q)
    \<and> (\<forall>q. q \<noteq> p \<longrightarrow> pmm_sole (pm s) q \<longrightarrow> pmm_sole (pm s') q)"
    using push_free_inv [OF inv use] free_page_in_use [OF use] pmm_sole_push_free [OF sole]
    by (auto simp: free_page_k_def on_pm_def)
qed (auto simp: pmm_sole_def pmm_inv_def in_use_def free_ok_def)

end
