(* ===== verification/Job.thy ===== *)
theory Job
  imports Prelude
begin

text \<open>Jobs and their memory limits, \<open>src/posix/job.rs\<close>.  The jobs are a store indexed by the
  identity of the \<open>Arc\<close>; a weak parent reference that no longer upgrades is an absent entry.  The
  walks over the ancestors are loops without a bound, so they are partial functions; the parent
  of a job exists before the job, which is what makes them end.\<close>

section \<open>State and operations\<close>

record job =
  job_parent :: "nat option"
  job_children :: "nat list"
  job_processes :: "pid list"
  max_memory :: usize
  current_memory :: usize

type_synonym jobs = "nat \<Rightarrow> job option"

definition Job_new :: "nat option \<Rightarrow> job" where
  "Job_new parent =
     \<lparr>job_parent = parent, job_children = [], job_processes = [], max_memory = - 1, current_memory = 0\<rparr>"

text \<open>\<open>parent.upgrade()\<close>.\<close>

definition upgrade :: "jobs \<Rightarrow> nat option \<Rightarrow> nat option" where
  "upgrade js w = (case w of None \<Rightarrow> None | Some j \<Rightarrow> if js j = None then None else Some j)"

definition within_limit :: "job \<Rightarrow> usize \<Rightarrow> bool" where
  "within_limit j bytes \<longleftrightarrow> \<not> max_memory j < saturating_add (current_memory j) bytes"

partial_function (option) check_ancestors :: "jobs \<Rightarrow> usize \<Rightarrow> nat option \<Rightarrow> bool option" where
  "check_ancestors js bytes cur =
     (case cur of
        None \<Rightarrow> Some True
      | Some j \<Rightarrow>
          (case js j of
             None \<Rightarrow> Some True
           | Some job \<Rightarrow>
               if \<not> within_limit job bytes then Some False
               else check_ancestors js bytes (upgrade js (job_parent job))))"

definition check_memory_limit :: "jobs \<Rightarrow> nat \<Rightarrow> usize \<Rightarrow> bool option" where
  "check_memory_limit js self bytes =
     (case js self of
        None \<Rightarrow> Some True
      | Some job \<Rightarrow>
          if \<not> within_limit job bytes then Some False
          else check_ancestors js bytes (upgrade js (job_parent job)))"

text \<open>\<open>fetch_add\<close> and \<open>fetch_sub\<close> wrap; \<open>f\<close> is the update of \<open>current_memory\<close>.\<close>

definition bump :: "(usize \<Rightarrow> usize) \<Rightarrow> job \<Rightarrow> job" where
  "bump f job = job\<lparr>current_memory := f (current_memory job)\<rparr>"

partial_function (option) bump_ancestors :: "(usize \<Rightarrow> usize) \<Rightarrow> jobs \<Rightarrow> nat option \<Rightarrow> jobs option" where
  "bump_ancestors f js cur =
     (case cur of
        None \<Rightarrow> Some js
      | Some j \<Rightarrow>
          (case js j of
             None \<Rightarrow> Some js
           | Some job \<Rightarrow>
               bump_ancestors f (js(j \<mapsto> bump f job)) (upgrade js (job_parent job))))"

definition alloc_memory :: "jobs \<Rightarrow> nat \<Rightarrow> usize \<Rightarrow> jobs option" where
  "alloc_memory js self bytes =
     (case js self of
        None \<Rightarrow> Some js
      | Some job \<Rightarrow>
          bump_ancestors (\<lambda>c. c + bytes) (js(self \<mapsto> bump (\<lambda>c. c + bytes) job))
            (upgrade js (job_parent job)))"

definition dealloc_memory :: "jobs \<Rightarrow> nat \<Rightarrow> usize \<Rightarrow> jobs option" where
  "dealloc_memory js self bytes =
     (case js self of
        None \<Rightarrow> Some js
      | Some job \<Rightarrow>
          bump_ancestors (\<lambda>c. c - bytes) (js(self \<mapsto> bump (\<lambda>c. c - bytes) job))
            (upgrade js (job_parent job)))"

section \<open>The chain of ancestors\<close>

text \<open>A parent is created before its children.\<close>

definition jobs_wf :: "jobs \<Rightarrow> bool" where
  "jobs_wf js \<longleftrightarrow> (\<forall>j job p. js j = Some job \<longrightarrow> job_parent job = Some p \<longrightarrow> p < j)"

inductive ancestor :: "jobs \<Rightarrow> nat \<Rightarrow> nat \<Rightarrow> bool" for js where
  self: "js j \<noteq> None \<Longrightarrow> ancestor js j j"
| up: "js j = Some job \<Longrightarrow> job_parent job = Some p \<Longrightarrow> ancestor js p a \<Longrightarrow> ancestor js j a"

inductive_cases ancestorE: "ancestor js j a"

lemma ancestor_step:
  assumes "js j = Some job"
  shows "ancestor js j a \<longleftrightarrow> a = j \<or> (\<exists>p. upgrade js (job_parent job) = Some p \<and> ancestor js p a)"
proof
  assume "ancestor js j a"
  then show "a = j \<or> (\<exists>p. upgrade js (job_parent job) = Some p \<and> ancestor js p a)"
  proof (cases rule: ancestor.cases)
    case (up job' p)
    then have "js p \<noteq> None" by (auto elim: ancestor.cases)
    with up assms show ?thesis by (auto simp: upgrade_def)
  qed auto
next
  assume "a = j \<or> (\<exists>p. upgrade js (job_parent job) = Some p \<and> ancestor js p a)"
  then show "ancestor js j a"
    using assms by (auto simp: upgrade_def intro: ancestor.intros split: option.splits if_splits)
qed

lemma ancestor_le:
  assumes "ancestor js j a" "jobs_wf js"
  shows "a \<le> j"
  using assms
proof induction
  case (up j job p a)
  then show ?case unfolding jobs_wf_def by fastforce
qed simp

lemma ancestor_present: "ancestor js j a \<Longrightarrow> js a \<noteq> None"
  by (induction rule: ancestor.induct) auto

lemma upgrade_less:
  "jobs_wf js \<Longrightarrow> js j = Some job \<Longrightarrow> upgrade js (job_parent job) = Some p \<Longrightarrow> p < j \<and> js p \<noteq> None"
  by (auto simp: jobs_wf_def upgrade_def split: option.splits if_splits)

text \<open>Updating counters changes no ancestry.\<close>

lemma ancestor_bump_imp:
  assumes "ancestor js j a" "js k = Some job"
  shows "ancestor (js(k \<mapsto> bump f job)) j a"
  using assms
proof induction
  case (self j)
  then show ?case by (auto intro: ancestor.self)
next
  case (up j job' p a)
  then show ?case
    by (cases "j = k") (auto intro!: ancestor.up [where p = p] simp: bump_def)
qed

lemma ancestor_bump:
  assumes "js k = Some job"
  shows "ancestor (js(k \<mapsto> bump f job)) = ancestor js"
proof (intro ext iffI)
  fix j a
  let ?js = "js(k \<mapsto> bump f job)"
  show "ancestor ?js j a \<Longrightarrow> ancestor js j a"
  proof (induction rule: ancestor.induct)
    case (self j)
    then show ?case using assms by (auto intro: ancestor.self split: if_splits)
  next
    case (up j job' p a)
    then show ?case
      using assms by (cases "j = k") (auto intro: ancestor.up simp: bump_def)
  qed
qed (rule ancestor_bump_imp; use assms in simp)

lemma jobs_wf_bump: "jobs_wf js \<Longrightarrow> js k = Some job \<Longrightarrow> jobs_wf (js(k \<mapsto> bump f job))"
  by (auto simp: jobs_wf_def bump_def split: if_splits)

section \<open>The loops\<close>

lemma check_ancestors_iff:
  assumes "jobs_wf js" "js j \<noteq> None"
  shows "check_ancestors js bytes (Some j) =
    Some (\<forall>a job. ancestor js j a \<longrightarrow> js a = Some job \<longrightarrow> within_limit job bytes)"
  using assms(2)
proof (induction j rule: less_induct)
  case (less j)
  then obtain job where job: "js j = Some job" by auto
  note st = ancestor_step [where js = js, OF job]
  show ?case
  proof (cases "upgrade js (job_parent job)")
    case None
    then show ?thesis
      using job st by (subst check_ancestors.simps) (auto simp: check_ancestors.simps [of _ _ None])
  next
    case (Some p)
    with upgrade_less [OF assms(1) job] have "p < j" "js p \<noteq> None" by auto
    from less.IH [OF this] show ?thesis
      using job st Some by (subst check_ancestors.simps) auto
  qed
qed

lemma bump_ancestors_spec:
  assumes "jobs_wf js" "js j \<noteq> None"
  shows "bump_ancestors f js (Some j) =
    Some (\<lambda>a. if ancestor js j a then map_option (bump f) (js a) else js a)"
  using assms
proof (induction j arbitrary: js rule: less_induct)
  case (less j)
  then obtain job where job: "js j = Some job" by auto
  let ?js = "js(j \<mapsto> bump f job)"
  note st = ancestor_step [where js = js, OF job]
  show ?case
  proof (cases "upgrade js (job_parent job)")
    case None
    then show ?thesis
      using job st by (subst bump_ancestors.simps)
        (auto simp: bump_ancestors.simps [of _ _ None] fun_eq_iff)
  next
    case (Some p)
    with upgrade_less [OF less.prems(1) job] have p: "p < j" "js p \<noteq> None" by auto
    have "\<not> ancestor js p j" using ancestor_le [OF _ less.prems(1)] p(1) by fastforce
    moreover have "bump_ancestors f ?js (Some p) =
        Some (\<lambda>a. if ancestor ?js p a then map_option (bump f) (?js a) else ?js a)"
    proof (rule less.IH [OF p(1)])
      show "jobs_wf ?js" by (rule jobs_wf_bump [OF less.prems(1) job])
    qed (use p in simp)
    ultimately show ?thesis
      using job st Some unfolding ancestor_bump [where js = js, OF job]
      by (subst bump_ancestors.simps) (auto simp: fun_eq_iff)
  qed
qed

text \<open>Adding to or subtracting from a job and all its ancestors.\<close>

lemma bump_all:
  assumes "jobs_wf js" "js j = Some job"
  shows "bump_ancestors f (js(j \<mapsto> bump f job)) (upgrade js (job_parent job)) =
    Some (\<lambda>a. if ancestor js j a then map_option (bump f) (js a) else js a)"
proof -
  have "bump_ancestors f js (Some j) = bump_ancestors f (js(j \<mapsto> bump f job)) (upgrade js (job_parent job))"
    using assms(2) by (subst bump_ancestors.simps) simp
  then show ?thesis using bump_ancestors_spec [OF assms(1), of j f] assms(2) by simp
qed

lemma alloc_memory_spec:
  "jobs_wf js \<Longrightarrow> js j \<noteq> None \<Longrightarrow> alloc_memory js j bytes =
     Some (\<lambda>a. if ancestor js j a then map_option (bump (\<lambda>c. c + bytes)) (js a) else js a)"
  by (auto simp: alloc_memory_def bump_all)

lemma dealloc_memory_spec:
  "jobs_wf js \<Longrightarrow> js j \<noteq> None \<Longrightarrow> dealloc_memory js j bytes =
     Some (\<lambda>a. if ancestor js j a then map_option (bump (\<lambda>c. c - bytes)) (js a) else js a)"
  by (auto simp: dealloc_memory_def bump_all)

lemma check_memory_limit_spec:
  assumes "jobs_wf js" "js j \<noteq> None"
  shows "check_memory_limit js j bytes =
    Some (\<forall>a job. ancestor js j a \<longrightarrow> js a = Some job \<longrightarrow> within_limit job bytes)"
proof -
  have "check_ancestors js bytes (Some j) = check_memory_limit js j bytes"
    using assms(2) by (subst check_ancestors.simps) (auto simp: check_memory_limit_def)
  then show ?thesis using check_ancestors_iff [OF assms] by simp
qed

lemma ancestor_parents:
  assumes "ancestor js j a" "\<And>k. map_option job_parent (js' k) = map_option job_parent (js k)"
  shows "ancestor js' j a"
  using assms
proof induction
  case (self j)
  then show ?case by (metis ancestor.self option.map_disc_iff)
next
  case (up j job p a)
  have "map_option job_parent (js' j) = Some (Some p)" using up by simp
  then obtain job' where "js' j = Some job'" "job_parent job' = Some p" by auto
  with up show ?case by (auto intro: ancestor.up)
qed

section \<open>Properties\<close>

text \<open>C27: Memory limits of jobs.  If every job is within its limit and the check for a charge
  succeeds, then the charge succeeds, it leaves every job within its limit, and releasing it
  restores all counters; both walks over the ancestors end.\<close>

theorem charge_respects_limits:
  assumes wf: "jobs_wf js" and j: "js j \<noteq> None"
    and ok: "\<forall>a job. js a = Some job \<longrightarrow> current_memory job \<le> max_memory job"
    and chk: "check_memory_limit js j bytes = Some True"
  shows "\<exists>js'. alloc_memory js j bytes = Some js'
    \<and> (\<forall>a job. js' a = Some job \<longrightarrow> current_memory job \<le> max_memory job)
    \<and> dealloc_memory js' j bytes = Some js"
proof -
  let ?js = "\<lambda>a. if ancestor js j a then map_option (bump (\<lambda>c. c + bytes)) (js a) else js a"
  have par: "map_option job_parent (?js k) = map_option job_parent (js k)" for k
    by (cases "js k") (auto simp: bump_def)
  have anc: "ancestor ?js j a \<longleftrightarrow> ancestor js j a" for a
    using ancestor_parents [of js j a ?js] ancestor_parents [of ?js j a js] par by auto
  have wf': "jobs_wf ?js" using wf by (auto simp: jobs_wf_def bump_def split: if_splits)
  have lim: "within_limit job bytes" if "ancestor js j a" "js a = Some job" for a job
    using chk check_memory_limit_spec [OF wf j, of bytes] that by auto
  have "current_memory job + bytes \<le> max_memory job" if "within_limit job bytes" for job
    using that by (auto simp: within_limit_def saturating_add_def not_less word_order.extremum_unique
        split: if_splits)
  with lim ok have "current_memory job \<le> max_memory job" if "?js a = Some job" for a job
    using that by (auto simp: bump_def split: if_splits)
  moreover have "dealloc_memory ?js j bytes = Some js"
  proof -
    have "?js j \<noteq> None" using j by auto
    then show ?thesis
      unfolding dealloc_memory_spec [OF wf' \<open>?js j \<noteq> None\<close>] anc
      by (auto simp: fun_eq_iff bump_def option.map_comp o_def option.map_ident)
  qed
  ultimately show ?thesis using alloc_memory_spec [OF wf j] by auto
qed

theorem charge_respects_limits_witness:
  "\<exists>js js' :: jobs. js 1 \<noteq> None \<and> check_memory_limit js 1 4096 = Some True
    \<and> alloc_memory js 1 4096 = Some js' \<and> dealloc_memory js' 1 4096 = Some js"
proof -
  let ?root = "(Job_new None)\<lparr>max_memory := 8192\<rparr>"
  let ?child = "(Job_new (Some 0))\<lparr>current_memory := 100\<rparr>"
  let ?js = "[0 \<mapsto> ?root, 1 \<mapsto> ?child] :: jobs"
  have wf: "jobs_wf ?js" by (auto simp: jobs_wf_def Job_new_def split: if_splits)
  have one: "?js 1 \<noteq> None" by simp
  have ok: "\<forall>a job. ?js a = Some job \<longrightarrow> current_memory job \<le> max_memory job"
    by (auto simp: Job_new_def split: if_splits)
  have "\<forall>a job. ?js a = Some job \<longrightarrow> within_limit job 4096"
    by (auto simp: Job_new_def within_limit_def saturating_add_def split: if_splits)
  then have chk: "check_memory_limit ?js 1 4096 = Some True"
    unfolding check_memory_limit_spec [OF wf one] option.inject by blast
  from charge_respects_limits [OF wf one ok chk] one chk show ?thesis by blast
qed

end
