(* ===== verification/Fault.thy ===== *)
theory Fault
  imports Swap Job
begin

text \<open>Demand paging: \<open>handle_user_page_fault\<close> of \<open>src/mm/vmm.rs\<close> and the dispatch of the three
  page-fault causes in \<open>src/trap/page_fault.rs\<close>.  A fault handler's error is the branch that kills
  the process with signal 11; a result \<open>None\<close> would be a walk over job ancestors that never ends.\<close>

section \<open>State and handlers\<close>

text \<open>The current process enters with the identity of its job and its count of allocated pages.\<close>

record fstate =
  km :: kmm
  job_store :: jobs
  cur_proc :: "(nat \<times> usize) option"

definition upd_pm :: "pmm \<Rightarrow> fstate \<Rightarrow> fstate" where
  "upd_pm p s = s\<lparr>km := (km s)\<lparr>pm := p\<rparr>\<rparr>"

definition demand_flags :: "usize \<Rightarrow> usize" where
  "demand_flags extra_flags =
     (let raw_flags = PTE_R OR PTE_U OR extra_flags;
          wants_w = (extra_flags AND PTE_W = 0);
          wants_x = (extra_flags AND PTE_X \<noteq> 0)
      in raw_flags OR (if wants_x then PTE_X else 0) OR (if wants_w \<and> \<not> wants_x then PTE_W else 0))"

definition limit_ok :: "fstate \<Rightarrow> bool option" where
  "limit_ok s =
     (case cur_proc s of None \<Rightarrow> Some True | Some (j, _) \<Rightarrow> check_memory_limit (job_store s) j PAGE_SIZE)"

definition charge_page :: "fstate \<Rightarrow> fstate option" where
  "charge_page s =
     (case cur_proc s of
        None \<Rightarrow> Some s
      | Some (j, n) \<Rightarrow>
          map_option (\<lambda>js. s\<lparr>job_store := js, cur_proc := Some (j, n + 1)\<rparr>)
            (alloc_memory (job_store s) j PAGE_SIZE))"

definition map_demand :: "usize \<Rightarrow> usize \<Rightarrow> usize \<Rightarrow> fstate \<Rightarrow> (unit rr \<times> fstate) option" where
  "map_demand root page_va extra_flags s =
     (case alloc_frame (pm (km s)) of
        (Ok None, p) \<Rightarrow> Some (Err ''OOM in demand paging'', upd_pm p s)
      | (Ok (Some frame), p) \<Rightarrow>
          (case map_page root page_va frame (demand_flags extra_flags) p of
             (Ok _, p2) \<Rightarrow> map_option (Pair (Ok ())) (charge_page (upd_pm p2 s))
           | (Err _, p2) \<Rightarrow> Some (Ok (), upd_pm (PhysFrame_drop frame p2) s)
           | (Panic e, p2) \<Rightarrow> Some (Panic e, upd_pm p2 s))
      | (Err e, p) \<Rightarrow> Some (Err e, upd_pm p s)
      | (Panic e, p) \<Rightarrow> Some (Panic e, upd_pm p s))"

definition handle_user_page_fault ::
  "usize \<Rightarrow> usize \<Rightarrow> usize \<Rightarrow> fstate \<Rightarrow> (unit rr \<times> fstate) option" where
  "handle_user_page_fault root fault_va extra_flags s =
     (if 0x800000000000 \<le> fault_va then Some (Err ''kernel-space fault'', s)
      else if fault_va < 0x100000000 then Some (Err ''address in kernel identity map region'', s)
      else
        let page_va = page_mask fault_va in
        if lookup_swap root page_va (km s) then
          Some (case swap_in root page_va (km s) of (r, k) \<Rightarrow> (r, s\<lparr>km := k\<rparr>))
        else
          Option.bind (limit_ok s) (\<lambda>ok.
            if \<not> ok then Some (Err ''Memory limit exceeded for Job'', s)
            else map_demand root page_va extra_flags s))"

definition handle_page_fault :: "nat \<Rightarrow> usize \<Rightarrow> usize \<Rightarrow> fstate \<Rightarrow> (unit rr \<times> fstate) option" where
  "handle_page_fault cause root_pa stval s =
     (if cause = 12 then handle_user_page_fault root_pa stval PTE_X s
      else if cause = 13 then handle_user_page_fault root_pa stval 0 s
      else if cause = 15 then
        (case handle_store_page_fault root_pa stval (pm (km s)) of
           (Ok _, p) \<Rightarrow> Some (Ok (), upd_pm p s)
         | (Err _, p) \<Rightarrow> handle_user_page_fault root_pa stval 0 (upd_pm p s)
         | (Panic e, p) \<Rightarrow> Some (Panic e, upd_pm p s))
      else Some (Panic ''internal error: entered unreachable code'', s))"

section \<open>Lemmas\<close>

lemma demand_flags_wx:
  assumes "extra AND PTE_W = 0 \<or> extra AND PTE_X = 0"
  shows "\<not> (demand_flags extra AND PTE_W \<noteq> 0 \<and> demand_flags extra AND PTE_X \<noteq> 0)"
  using assms by (auto simp: demand_flags_def Let_def bit.conj_disj_distrib2 pte_defs)

lemma demand_flags_0: "demand_flags 0 = PTE_R OR PTE_U OR PTE_W"
  and demand_flags_X: "demand_flags PTE_X = PTE_R OR PTE_U OR PTE_X"
  by (simp_all add: demand_flags_def pte_defs)

lemma upd_pm_simps [simp]:
  "pm (km (upd_pm p s)) = p" "cur_proc (upd_pm p s) = cur_proc s" "job_store (upd_pm p s) = job_store s"
  "SWAP_MAP (km (upd_pm p s)) = SWAP_MAP (km s)"
  by (simp_all add: upd_pm_def)

lemma charge_page_pm: "charge_page s = Some s' \<Longrightarrow> km s' = km s"
  by (auto simp: charge_page_def split: option.splits)

text \<open>An address below \<open>2 ^ 39\<close> and the same address with higher bits set select the same
  entries.\<close>

lemma vpn_mod: "l < 3 \<Longrightarrow> vpn l (va AND mask 39) = vpn l va"
proof -
  assume "l < 3"
  have m: "(0x1FF :: usize) = mask 9" by (simp add: mask_eq_exp_minus_1)
  have "drop_bit (12 + 9 * l) (va AND mask 39) AND mask 9 = drop_bit (12 + 9 * l) va AND mask 9"
    by (rule bit_word_eqI) (use \<open>l < 3\<close> in \<open>auto simp: bit_simps\<close>)
  then show ?thesis by (simp add: vpn_def m)
qed

lemma same_page_mod: "va AND mask 39 = va' AND mask 39 \<Longrightarrow> same_page va va'"
  unfolding same_page_def using vpn_mod by metis

end
