(* ===== verification/Vmo.thy ===== *)
theory Vmo
  imports Swap
begin

text \<open>Virtual memory objects, \<open>src/mm/vmo.rs\<close>: an object owns its frames, takes them with
  \<open>alloc_page\<close> and gives them back with \<open>free_page\<close>, both through the frame-pool interface.\<close>

record vmo =
  size_bytes :: usize
  physical_pages :: "usize list"

definition div_ceil_page :: "usize \<Rightarrow> nat" where
  "div_ceil_page sz = (unat sz + 4095) div 4096"

definition Vmo_new :: "proc_view \<Rightarrow> usize \<Rightarrow> (kmm, vmo option) kmon" where
  "Vmo_new procs sz =
     bindK (alloc_pages (alloc_page procs) free_page_k (div_ceil_page sz) [])
       (\<lambda>r. retK (map_option (\<lambda>pages. \<lparr>size_bytes = sz, physical_pages = pages\<rparr>) r))"

definition Vmo_drop :: "vmo \<Rightarrow> (kmm, unit) kmon" where
  "Vmo_drop v = free_all free_page_k (physical_pages v)"

text \<open>With enough free frames, a new object owns exactly the pages its size needs.\<close>

lemma Vmo_new_enough:
  assumes "pmm_inv (pm s) ps" "div_ceil_page sz \<le> length ps"
  shows "\<exists>s'. Vmo_new procs sz s =
      (Ok (Some \<lparr>size_bytes = sz, physical_pages = take (div_ceil_page sz) ps\<rparr>), s')
    \<and> pmm_inv (pm s') (drop (div_ceil_page sz) ps)
    \<and> (\<forall>p \<in> set (take (div_ceil_page sz) ps). pmm_sole (pm s') p \<and> mem (pm s') p = zero_frame)"
  using kpool.alloc_pages_enough [OF assms, of procs "[]"]
  by (auto simp: Vmo_new_def bindK_def)

text \<open>Dropping frees each page whatever its reference count.\<close>

lemma Vmo_drop_in_use:
  assumes "pmm_inv (pm s) ps" "in_use (pm s) p"
  shows "Vmo_drop \<lparr>size_bytes = sz, physical_pages = [p]\<rparr> s =
      (Ok (), s\<lparr>pm := push_free p (set_count (page_index (pm s) p) 0 (pm s))\<rparr>)"
  using assms free_page_in_use
  by (simp add: Vmo_drop_def free_all_def free_page_k_def on_pm_def bindK_def retK_def)

end
