(* ===== verification/Memory.thy ===== *)
theory Memory
  imports Fault Vmo
begin

text \<open>The properties of memory management: the frame allocator, the page tables, demand paging,
  copy on write, swap and memory objects, with a concrete state for each that has hypotheses.\<close>

section \<open>The frame allocator\<close>



text \<open>C4: Allocation refines taking the head of a list of free frames: an empty list gives
  \<open>None\<close> and changes nothing; otherwise the head is handed out zeroed, with reference count one,
  and no other frame changes.\<close>

theorem alloc_frame_refines_list:
  assumes "pmm_inv s ps"
  shows "case ps of
      [] \<Rightarrow> alloc_frame s = (Ok None, s)
    | p # qs \<Rightarrow> \<exists>s'. alloc_frame s = (Ok (Some p), s') \<and> pmm_inv s' qs \<and> in_use s' p \<and> refs s' p = 1
        \<and> mem s' p = zero_frame \<and> (\<forall>q. q \<noteq> p \<longrightarrow> mem s' q = mem s q)"
proof (cases ps)
  case Nil
  then show ?thesis using assms by (simp add: alloc_frame_empty)
next
  case (Cons p qs)
  then show ?thesis
    using pool.alloc_first [of s p qs] assms by (auto simp: pmm_sole_def)
qed

theorem alloc_frame_refines_list_witness:
  "\<exists>s'. alloc_frame (sample_pmm [0x80001000, 0x80002000]) = (Ok (Some 0x80001000), s')
      \<and> refs s' 0x80001000 = 1"
proof -
  have "pmm_inv (sample_pmm [0x80001000, 0x80002000]) [0x80001000, 0x80002000]"
    by (rule sample_pmm_inv) (simp_all add: sample_eval)
  from alloc_frame_refines_list [OF this] show ?thesis by auto
qed


text \<open>A frame in use with a given count, beside the sample's free list.\<close>

definition sample_use :: "usize list \<Rightarrow> usize \<Rightarrow> u16 \<Rightarrow> pmm" where
  "sample_use ps p c = set_count (page_index empty_pmm p) c (sample_pmm ps)"

lemma sample_use_inv:
  assumes "distinct (p # ps)" "\<forall>q \<in> set (p # ps). sample_frame q" "c \<noteq> 0"
  shows "pmm_inv (sample_use ps p c) ps" "in_use (sample_use ps p c) p" "refs (sample_use ps p c) p = unat c"
    "mem (sample_use ps p c) = mem (sample_pmm ps)"
proof -
  have p: "page_aligned p" "page_index empty_pmm p < MAX_PAGES" "is_managed_page empty_pmm p" "p \<noteq> 0"
    using assms sample_frame_managed [of p] by (auto simp: sample_frame_def)
  have "pmm_inv (sample_pmm ps) ps" using assms by (intro sample_pmm_inv) auto
  from pmm_inv_set_count [OF this, of p c] p assms(1)
  show "pmm_inv (sample_use ps p c) ps" by (simp add: sample_use_def)
  show "in_use (sample_use ps p c) p" "refs (sample_use ps p c) p = unat c"
    "mem (sample_use ps p c) = mem (sample_pmm ps)"
    using p assms(3) by (simp_all add: sample_use_def in_use_def refs_def)
qed


section \<open>Sample page tables\<close>

text \<open>One user page at \<open>0x140201000\<close>, mapped through the tables at \<open>0x80010000\<close>, \<open>0x80011000\<close>
  and \<open>0x80012000\<close>.\<close>

definition sample_vm :: "usize list \<Rightarrow> usize \<Rightarrow> u16 \<Rightarrow> usize \<Rightarrow> pmm" where
  "sample_vm ps pa c fl =
     set_frame 0x80012000 (zero_frame(1 := mk_pte pa fl))
       (set_frame 0x80011000 (zero_frame(1 := mk_pte 0x80012000 PTE_V))
         (set_frame 0x80010000 (zero_frame(5 := mk_pte 0x80011000 PTE_V)) (sample_use ps pa c)))"

definition sample_root :: usize where "sample_root = 0x80010000"
definition sample_va :: usize where "sample_va = 0x140201000"

lemma sample_vpn: "vpn 2 sample_va = 5" "vpn 1 sample_va = 1" "vpn 0 sample_va = 1" "va_of 5 1 1 = sample_va"
  "sample_va AND 0xFFF = 0"
  by (simp_all add: vpn_def sample_va_def va_of_def)

lemma sample_vm_table:
  "table_at (mem (sample_vm ps pa c fl)) sample_root p f \<longleftrightarrow>
     p = [] \<and> f = 0x80010000 \<or> p = [5] \<and> f = 0x80011000 \<or> p = [5, 1] \<and> f = 0x80012000"
  (is "table_at ?m _ p f \<longleftrightarrow> _")
proof -
  have m: "?m 0x80010000 = zero_frame(5 := mk_pte 0x80011000 PTE_V)"
    "?m 0x80011000 = zero_frame(1 := mk_pte 0x80012000 PTE_V)"
    by (simp_all add: sample_vm_def)
  have e: "mk_pte 0x80011000 PTE_V AND PTE_V \<noteq> 0" "\<not> is_leaf (mk_pte 0x80011000 PTE_V)"
    "pte_pa (mk_pte 0x80011000 PTE_V) = 0x80011000"
    "mk_pte 0x80012000 PTE_V AND PTE_V \<noteq> 0" "\<not> is_leaf (mk_pte 0x80012000 PTE_V)"
    "pte_pa (mk_pte 0x80012000 PTE_V) = 0x80012000"
    using mk_table_entry [of "0x80011000"] mk_table_entry [of "0x80012000"] by simp_all
  have 0: "walk_step u h ?m 0x80010000 i = (if i = 5 then Ok 0x80011000 else Err u)" for u h i
    unfolding walk_step_def m using e by (simp add: fun_upd_def)
  have 1: "walk_step u h ?m 0x80011000 i = (if i = 1 then Ok 0x80012000 else Err u)" for u h i
    unfolding walk_step_def m using e by (simp add: fun_upd_def)
  show ?thesis
  proof (cases p)
    case (Cons i q)
    show ?thesis
    proof (cases q)
      case Nil
      then show ?thesis using Cons 0 by (auto simp: table_at_def sample_root_def split: if_splits)
    next
      case q: (Cons j q')
      show ?thesis
      proof (cases q')
        case Nil
        then show ?thesis using Cons q 0 1 by (auto simp: table_at_def sample_root_def split: if_splits)
      next
        case (Cons k q'')
        then show ?thesis using \<open>p = i # q\<close> q by (auto simp: table_at_def is_path_def)
      qed
    qed
  qed (auto simp: table_at_def sample_root_def)
qed

definition sample_args :: "usize list \<Rightarrow> usize \<Rightarrow> u16 \<Rightarrow> usize \<Rightarrow> bool" where
  "sample_args ps pa c fl \<longleftrightarrow>
     distinct (pa # ps) \<and> (\<forall>q \<in> set (pa # ps). sample_frame q) \<and> c \<noteq> 0 \<and> fl < 1024 \<and> fl AND PTE_V \<noteq> 0
   \<and> (\<forall>t \<in> {0x80010000, 0x80011000, 0x80012000}. t \<notin> set (pa # ps))"

lemma sample_vm_ok:
  assumes "sample_args ps pa c fl"
  shows "pmm_inv (sample_vm ps pa c fl) ps" "pt_wf (mem (sample_vm ps pa c fl)) sample_root (set ps)"
    "in_use (sample_vm ps pa c fl) pa" "refs (sample_vm ps pa c fl) pa = unat c"
    "\<not> table_at (mem (sample_vm ps pa c fl)) sample_root p pa"
    "tables_clean (mem (sample_vm ps pa c fl)) sample_root"
    "resident (sample_vm ps pa c fl) sample_root sample_va 0x80012000 pa"
    "walk_page_table (mem (sample_vm ps pa c fl)) sample_root sample_va = Ok (pa, fl)"
proof -
  let ?s = "sample_vm ps pa c fl"
  have a: "distinct (pa # ps)" "\<forall>q \<in> set (pa # ps). sample_frame q" "c \<noteq> 0"
    and fl: "fl < 1024" "fl AND PTE_V \<noteq> 0"
    and ts: "0x80010000 \<notin> set (pa # ps)" "0x80011000 \<notin> set (pa # ps)" "0x80012000 \<notin> set (pa # ps)"
    using assms by (auto simp: sample_args_def)
  note u = sample_use_inv [OF a]
  show "pmm_inv ?s ps"
    unfolding sample_vm_def using u(1) ts by (intro pmm_inv_set_frame) auto
  show use: "in_use ?s pa" and "refs ?s pa = unat c"
    using u(2,3) by (simp_all add: sample_vm_def in_use_def refs_def)
  show "pt_wf (mem ?s) sample_root (set ps)" using ts by (auto simp: pt_wf_def sample_vm_table)
  show nt: "\<not> table_at (mem ?s) sample_root p pa" for p using ts by (auto simp: sample_vm_table)
  have e: "mk_pte t PTE_V AND PTE_W = 0" "mk_pte t PTE_V AND (PTE_R OR PTE_W OR PTE_X) = 0"
    "mk_pte t PTE_V AND PTE_V \<noteq> 0" "pte_pa (mk_pte t PTE_V) = t" if "t mod 4096 = 0" for t
    using mk_pte_and [OF that, of PTE_V PTE_W] mk_table_entry [OF that] by (simp_all add: pte_defs)
  show "tables_clean (mem ?s) sample_root"
    unfolding tables_clean_def sample_vm_table
    using e(1) [of "0x80011000"] e(1) [of "0x80012000"] by (auto simp: sample_vm_def split: if_splits)
  have al: "pa mod 4096 = 0" using a(2) by (simp add: sample_eval)
  have pte: "mk_pte pa fl AND PTE_V \<noteq> 0" "pte_pa (mk_pte pa fl) = pa" "mk_pte pa fl AND 0x3FF = fl"
    using mk_pte_and [OF al fl(1), of PTE_V] mk_pte_pa [OF al fl(1)] fl(2) by (simp_all add: PTE_V_def)
  have sp: "strict_path (mem ?s) sample_root sample_va 0x80012000"
    unfolding strict_path_def sample_vpn sample_root_def
    using e [of "0x80011000"] e [of "0x80012000"] by (simp add: sample_vm_def Let_def)
  have l0: "mem ?s 0x80012000 1 = mk_pte pa fl" by (simp add: sample_vm_def)
  show "resident ?s sample_root sample_va 0x80012000 pa"
    using sp use nt pte l0 by (simp add: resident_def sample_vpn)
  show "walk_page_table (mem ?s) sample_root sample_va = Ok (pa, fl)"
    using walk_at_table [OF strict_path_table [OF sp]] pte l0 by (simp add: sample_vpn)
qed

section \<open>Page tables\<close>

lemma vpn_page_mask: "vpn l (page_mask va) = vpn l va"
proof -
  have m: "(0xFFF :: usize) = mask 12" by (simp add: mask_eq_exp_minus_1)
  have "drop_bit (12 + 9 * l) (page_mask va) = drop_bit (12 + 9 * l) va"
    unfolding page_mask_def PAGE_SIZE_def
    by (rule bit_word_eqI) (auto simp: bit_simps m dest: bit_imp_le_length)
  then show ?thesis by (simp add: vpn_def)
qed

text \<open>C5: Mapping then walking.  With two free frames for the tables, \<open>map_page\<close> on an unmapped
  address succeeds; afterwards the walk of every address of that page gives the frame and the
  flags, and the walk of every other address is what it was.\<close>

theorem map_page_walk:
  assumes "pmm_inv s ps" "pt_wf (mem s) r (set ps)" "tables_clean (mem s) r" "2 \<le> length ps"
    and "walk_page_table (mem s) r va = Err ''unmapped''" "pa mod 4096 = 0" "flags < 1024"
  shows "\<exists>s' ps'. map_page r va pa flags s = (Ok (), s') \<and> pmm_inv s' ps' \<and> pt_wf (mem s') r (set ps')
    \<and> (\<forall>va'. walk_page_table (mem s') r va' =
         (if same_page va va' then Ok (pa OR (va' AND 0xFFF), PTE_V OR flags)
          else walk_page_table (mem s) r va'))"
proof -
  have "fst (map_page r va pa flags s) = Ok ()" by (rule map_page_success [OF assms])
  with map_page_spec [OF assms(1,2,6,7), of va] show ?thesis
    by (auto simp: vm_step_def)
qed

theorem map_page_walk_witness:
  "\<exists>s'. map_page 0x80000000 0x123456000 0x80007000 22 (sample_pmm [0x80001000, 0x80002000]) = (Ok (), s')
      \<and> walk_page_table (mem s') 0x80000000 0x123456789 = Ok (0x80007789, 23)"
proof -
  let ?s = "sample_pmm [0x80001000, 0x80002000]"
  have inv: "pmm_inv ?s [0x80001000, 0x80002000]"
    by (rule sample_pmm_inv) (simp_all add: sample_eval)
  have z: "mem ?s 0x80000000 = zero_frame" by (rule sample_pmm_mem) simp
  have "(0x80000000 :: usize) \<notin> set [0x80001000, 0x80002000]" by simp
  note e = empty_table_wf [where m = "mem ?s" and r = "0x80000000", OF z this]
  have "same_page 0x123456000 0x123456789" by (simp add: same_page_path vpn_def)
  then show ?thesis
    using map_page_walk [OF inv e(1,2) _ e(3), where va = "0x123456000" and pa = "0x80007000" and flags = 22]
    by (auto simp: PTE_V_def)
qed


lemma sample_args_5: "sample_args [0x80001000, 0x80002000] 0x80005000 2 275"
  "sample_args [0x80001000, 0x80002000] 0x80005000 1 19" "sample_args [0x80001000, 0x80002000] 0x80005000 1 23"
  by (simp_all add: sample_args_def sample_eval PTE_V_def)




text \<open>C25: \<open>unmap_range\<close> ends without a panic when the range stays 1 GB below the end of the address
  space.\<close>

theorem unmap_range_terminates:
  assumes "unat va + unat len + 2 ^ 30 < 2 ^ 64"
  shows "\<exists>s'. unmap_range r va len s = Some (Ok (), s')"
proof -
  have "unat (saturating_add va len) = unat va + unat len"
    using assms by (simp add: unat_saturating_add)
  moreover have "unat (page_mask va) mod 4096 = 0" by (simp add: unat_page_mask)
  ultimately show ?thesis
    unfolding unmap_range_def using assms by (intro unmap_loop_terminates) simp_all
qed

theorem unmap_range_terminates_witness:
  "\<exists>s'. unmap_range sample_root sample_va 0x1000 (sample_vm [0x80001000, 0x80002000] 0x80005000 1 23) = Some (Ok (), s')"
  using unmap_range_terminates [of sample_va "0x1000" sample_root] by (simp add: sample_va_def)

text \<open>At the end of the address space it does not return: for the last page, with the last root
  entry invalid, the skip of 1 GB saturates and is masked back to the same address.\<close>

theorem unmap_range_diverges:
  assumes "mem s r 511 AND PTE_V = 0"
  shows "unmap_range r (- 4096) 4096 s = None"
proof -
  have args: "saturating_add (- 4096) 4096 = (- 1 :: usize)" "page_mask (- 4096) = - 4096" "vpn 2 (- 4096) = 511"
    by (simp_all add: saturating_add_def page_mask_def PAGE_SIZE_def vpn_def)
  have "unmap_loop r (- 1) (- 4096) s \<noteq> Some res" for res
    using unmap_loop_diverges [of r "- 1" "- 4096" s res] assms args(3) by (auto simp: get_entry_def)
  then have "unmap_loop r (- 1) (- 4096) s = None" by (cases "unmap_loop r (- 1) (- 4096) s") auto
  then show ?thesis by (simp add: unmap_range_def args)
qed

theorem unmap_range_diverges_witness:
  "unmap_range 0x80000000 (- 4096) 4096 (sample_pmm []) = None"
  by (rule unmap_range_diverges) (simp add: sample_pmm_def empty_pmm_def)

text \<open>The skip over an unmapped 1 GB region starts at the current address, not at the region's
  boundary: a range of up to 1 GB that starts in such a region is left alone as a whole, including
  its pages in the next region.\<close>

theorem unmap_range_skips_next_region:
  assumes "unat va mod 4096 = 0" "mem s r (vpn 2 va) AND PTE_V = 0"
    and "unat len \<le> 2 ^ 30" "unat va + 2 ^ 30 < 2 ^ 64"
  shows "unmap_range r va len s = Some (Ok (), s)"
proof -
  have sat: "unat (saturating_add va len) = unat va + unat len"
    using assms(3,4) by (simp add: unat_saturating_add)
  have "unat (page_mask va) = unat va"
    using assms(1) div_mult_mod_eq [of "unat va" 4096] by (simp add: unat_page_mask)
  then have pm: "page_mask va = va" by (simp add: word_unat_eq_iff)
  have sk: "unat (page_mask (saturating_add va (2 ^ 30))) = unat va + 2 ^ 30"
    by (rule skip_step) (use assms in simp_all)
  have stop: "unmap_loop r (saturating_add va len) (page_mask (saturating_add va (2 ^ 30))) s = Some (Ok (), s)"
    by (subst unmap_loop.simps) (use sk sat assms(3) in \<open>simp add: word_less_nat_alt\<close>)
  show ?thesis
    unfolding unmap_range_def pm
    by (subst unmap_loop.simps) (use stop assms(2) in \<open>simp add: get_entry_def Let_def\<close>)
qed

lemma upd_pm_same: "upd_pm (pm (km s)) s = s"
  by (simp add: upd_pm_def)

theorem unmap_range_skips_next_region_witness:
  "unmap_range sample_root 0x13FFFF000 0x40000000 (sample_vm [0x80001000, 0x80002000] 0x80005000 1 23)
      = Some (Ok (), sample_vm [0x80001000, 0x80002000] 0x80005000 1 23)
    \<and> walk_page_table (mem (sample_vm [0x80001000, 0x80002000] 0x80005000 1 23)) sample_root sample_va
      = Ok (0x80005000, 23)"
proof -
  have "vpn 2 0x13FFFF000 = 4" by (simp add: vpn_def)
  moreover have "mem (sample_vm ps pa c fl) sample_root 4 = 0" for ps pa c fl
    by (simp add: sample_vm_def sample_root_def)
  ultimately show ?thesis
    using unmap_range_skips_next_region [of "0x13FFFF000" _ sample_root "0x40000000"]
      sample_vm_ok(8) [OF sample_args_5(3)]
    by simp
qed

section \<open>Demand paging\<close>


text \<open>A store to a page mapped without the copy-on-write mark (read-only data) is not refused: the
  copy-on-write handler reports an error, but the demand-paging handler that is tried next finds the
  page mapped, drops its fresh frame and reports success.  No translation changes, so the store
  faults again.\<close>

theorem store_to_read_only_page_retries:
  assumes "pmm_inv (pm (km s)) (n # ps)" "pt_wf (mem (pm (km s))) r (set (n # ps))"
    and "0x100000000 \<le> va" "va < 0x800000000000" "\<not> lookup_swap r (page_mask va) (km s)"
    and "walk_page_table (mem (pm (km s))) r va = Ok (a, fl)" "fl AND PTE_COW = 0"
    and "limit_ok s = Some True"
  shows "\<exists>s'. handle_page_fault 15 r va s = Some (Ok (), s')
    \<and> (\<forall>va'. walk_page_table (mem (pm (km s'))) r va' = walk_page_table (mem (pm (km s))) r va')"
proof -
  let ?p = "pm (km s)" and ?p1 = "allocated n (pm (km s))" and ?fl = "demand_flags 0"
  obtain t where t: "table_at (mem ?p) r [vpn 2 va, vpn 1 va] t" "mem ?p t (vpn 0 va) AND PTE_V \<noteq> 0"
    and f: "fl = mem ?p t (vpn 0 va) AND 0x3FF"
    using assms(6) by (rule walk_Ok_table)
  have "walk_tables u h (mem ?p) r va = Ok t" for u h
    unfolding walk_tables_descend using t(1) descend_Ok_messages unfolding table_at_def by metis
  then have store: "handle_store_page_fault r va ?p = (Err ''write to read-only page (not COW)'', ?p)"
    using t(2) f assms(7) by (simp add: handle_store_page_fault_def get_entry_def Let_def)
  note al = allocated_tables [OF assms(1,2)]
  have fl: "?fl < 1024" by (simp add: demand_flags_0 pte_defs)
  have "walk_page_table (mem ?p1) r (page_mask va) \<noteq> Err ''unmapped''"
    using al(4) t by (simp add: walk_at_table [where va = "page_mask va" and t = t] vpn_page_mask)
  then obtain e p2 ps2 where p2: "map_page r (page_mask va) n ?fl ?p1 = (Err e, p2)" "vm_step r ?p1 ps p2 ps2"
    "\<forall>va'. walk_page_table (mem p2) r va' = walk_page_table (mem ?p1) r va'"
    using map_page_spec [OF al(1,2,6) fl, of "page_mask va"] by fastforce
  have n2: "\<And>q. \<not> table_at (mem p2) r q n"
    using p2(2) al(7,8) unfolding vm_step_def al(3) by blast
  obtain g where g: "mem (PhysFrame_drop n p2) = (mem p2)(n := g)"
    using decr_ref_mem_form unfolding PhysFrame_drop_def by blast
  have "walk_page_table (mem (PhysFrame_drop n p2)) r va' = walk_page_table (mem ?p) r va'" for va'
    unfolding g walk_set_other [OF n2] using p2(3) al(4) by (simp del: allocated_simps)
  moreover have "handle_page_fault 15 r va s = Some (Ok (), upd_pm (PhysFrame_drop n p2) s)"
    using assms(3-5,8) store p2(1) alloc_frame_Cons [OF assms(1)]
    by (simp add: handle_page_fault_def handle_user_page_fault_def Let_def map_demand_def upd_pm_same
        word_le_nat_alt word_less_nat_alt)
  ultimately show ?thesis by simp
qed

definition sample_km :: "pmm \<Rightarrow> kmm" where
  "sample_km p = \<lparr>pm = p, SWAP_MAP = [], SWAP_TOTAL_PAGES = 0, SWAP_TOTAL_BYTES = 0\<rparr>"

definition sample_fs :: "pmm \<Rightarrow> fstate" where
  "sample_fs p = \<lparr>km = sample_km p, job_store = Map.empty, cur_proc = None\<rparr>"

lemma sample_fs_simps [simp]:
  "pm (sample_km p) = p" "km (sample_fs p) = sample_km p" "cur_proc (sample_fs p) = None"
  "lookup_swap r va (sample_km p) = False" "limit_ok (sample_fs p) = Some True" "SWAP_MAP (sample_km p) = []"
  by (simp_all add: sample_fs_def sample_km_def lookup_swap_def limit_ok_def)


theorem store_to_read_only_page_retries_witness:
  "\<exists>s'. handle_page_fault 15 sample_root sample_va
      (sample_fs (sample_vm [0x80001000, 0x80002000] 0x80005000 1 19)) = Some (Ok (), s')
    \<and> walk_page_table (mem (pm (km s'))) sample_root sample_va = Ok (0x80005000, 19)"
proof -
  let ?s = "sample_fs (sample_vm [0x80001000, 0x80002000] 0x80005000 1 19)"
  note v = sample_vm_ok [OF sample_args_5(2)]
  have "\<exists>s'. handle_page_fault 15 sample_root sample_va ?s = Some (Ok (), s')
    \<and> (\<forall>va'. walk_page_table (mem (pm (km s'))) sample_root va'
           = walk_page_table (mem (pm (km ?s))) sample_root va')"
    by (rule store_to_read_only_page_retries [where n = "0x80001000" and ps = "[0x80002000]"
          and a = "0x80005000" and fl = 19])
      (use v in \<open>simp_all add: sample_va_def PTE_COW_def\<close>)
  then show ?thesis using v(8) by auto
qed

text \<open>The user range check admits addresses from \<open>2 ^ 39\<close> to \<open>2 ^ 47\<close>, whose table indices are those
  of the address modulo \<open>2 ^ 39\<close>.  A load fault at \<open>2 ^ 39\<close> therefore maps a user page at the kernel's
  null guard page, in the tables all processes share.\<close>

theorem user_fault_maps_null_guard:
  assumes "pmm_inv (pm (km s)) (n # ps)" "pt_wf (mem (pm (km s))) r (set (n # ps))"
    and "tables_clean (mem (pm (km s))) r" "2 \<le> length ps"
    and "walk_page_table (mem (pm (km s))) r 0 = Err ''unmapped''"
    and "\<not> lookup_swap r 0x8000000000 (km s)" "cur_proc s = None"
  shows "\<exists>s'. handle_page_fault 13 r 0x8000000000 s = Some (Ok (), s')
    \<and> walk_page_table (mem (pm (km s'))) r 0 = Ok (n, PTE_V OR PTE_R OR PTE_U OR PTE_W)"
proof -
  let ?p = "pm (km s)" and ?fl = "demand_flags 0" and ?va = "0x8000000000 :: usize"
  let ?p1 = "allocated n ?p"
  note al = allocated_tables [OF assms(1,2)]
  have fl: "?fl < 1024" by (simp add: demand_flags_0 pte_defs)
  have sp: "same_page ?va 0" by (simp add: same_page_path vpn_def)
  then have un: "walk_page_table (mem ?p1) r ?va = Err ''unmapped''"
    using assms(5) walk_same_page al(4) by (simp del: allocated_simps)
  obtain p2 where p2: "map_page r ?va n ?fl ?p1 = (Ok (), p2)"
    "\<forall>va'. walk_page_table (mem p2) r va' =
       (if same_page ?va va' then Ok (n OR (va' AND 0xFFF), PTE_V OR ?fl)
        else walk_page_table (mem ?p1) r va')"
    using map_page_spec [OF al(1,2,6) fl, of ?va]
      map_page_success [OF al(1,2) al(5) [OF assms(3)] assms(4) un al(6) fl]
    by auto
  have pm: "page_mask ?va = ?va" by (simp add: page_mask_def PAGE_SIZE_def)
  have "handle_page_fault 13 r ?va s = Some (Ok (), upd_pm p2 s)"
    using assms(6,7) p2(1) alloc_frame_Cons [OF assms(1)]
    by (simp add: handle_page_fault_def handle_user_page_fault_def Let_def limit_ok_def map_demand_def
        charge_page_def pm)
  then show ?thesis using p2(2) sp by (simp add: demand_flags_0)
qed

theorem user_fault_maps_null_guard_witness:
  "\<exists>s'. handle_page_fault 13 0x80000000 0x8000000000
      (sample_fs (sample_pmm [0x80001000, 0x80002000, 0x80003000])) = Some (Ok (), s')
    \<and> walk_page_table (mem (pm (km s'))) 0x80000000 0 = Ok (0x80001000, 23)"
proof -
  let ?s = "sample_fs (sample_pmm [0x80001000, 0x80002000, 0x80003000])"
  have inv: "pmm_inv (pm (km ?s)) [0x80001000, 0x80002000, 0x80003000]"
    unfolding sample_fs_simps by (rule sample_pmm_inv) (simp_all add: sample_eval)
  have z: "mem (pm (km ?s)) 0x80000000 = zero_frame"
    unfolding sample_fs_simps by (rule sample_pmm_mem) simp
  have "(0x80000000 :: usize) \<notin> set [0x80001000, 0x80002000, 0x80003000]" by simp
  note e = empty_table_wf [where m = "mem (pm (km ?s))" and r = "0x80000000", OF z this]
  have "\<exists>s'. handle_page_fault 13 0x80000000 0x8000000000 ?s = Some (Ok (), s')
    \<and> walk_page_table (mem (pm (km s'))) 0x80000000 0 = Ok (0x80001000, PTE_V OR PTE_R OR PTE_U OR PTE_W)"
    by (rule user_fault_maps_null_guard [OF inv e(1,2) _ e(3)]) simp_all
  then show ?thesis by (simp add: pte_defs)
qed

section \<open>Swap\<close>

text \<open>C15: Evicting a page and swapping it back in restores it: the walk gives the fresh frame with the
  original flags, the frame has the original contents, every other translation is unchanged, and
  the swap pool and its counters are what they were.\<close>

theorem swap_round_trip:
  assumes "pmm_inv (pm s) ps" "pt_wf (mem (pm s)) r (set ps)"
    and "evict_candidate (pm s) r = Some (t, i, va)" "resident (pm s) r va t pa"
    and "\<not> lookup_swap r va s" "(if refs (pm s) pa = 1 then pa # ps else ps) = n # qs"
  shows "\<exists>s'. swap_in r va (evict_page r (t, i, va) s) = (Ok (), s')
    \<and> pmm_inv (pm s') qs
    \<and> (\<forall>va'. walk_page_table (mem (pm s')) r va' =
         (if same_page va va' then Ok (n OR (va' AND 0xFFF), mem (pm s) t i AND 0x3FF)
          else walk_page_table (mem (pm s)) r va'))
    \<and> (\<forall>k < 512. mem (pm s') n k = mem (pm s) pa k)
    \<and> map_of (SWAP_MAP s') = map_of (SWAP_MAP s)
    \<and> SWAP_TOTAL_PAGES s' = SWAP_TOTAL_PAGES s \<and> SWAP_TOTAL_BYTES s' = SWAP_TOTAL_BYTES s"
  using swap_round_trip_lemma [OF assms(1-4) _ assms(6)] assms(5) by (auto simp: lookup_swap_def)

lemma first_some_here:
  assumes "\<And>j. a \<le> j \<Longrightarrow> j < i \<Longrightarrow> f j = None" "f i = Some y" "a \<le> i" "i < b"
  shows "first_some f [a..<b] = Some y"
proof -
  have "[a..<b] = [a..<i] @ i # [Suc i..<b]"
    using assms(3,4) upt_add_eq_append [of a i "b - i"] upt_conv_Cons [of i b] by simp
  moreover have "first_some f ([a..<i] @ i # [Suc i..<b]) = Some y"
  proof -
    have "first_some f (xs @ i # ys) = Some y" if "\<forall>x \<in> set xs. f x = None" for xs ys
      using that assms(2) by (induction xs) auto
    then show ?thesis using assms(1) by simp
  qed
  ultimately show ?thesis by simp
qed

lemma sample_candidate:
  assumes "sample_args ps pa c fl" "fl AND PTE_U \<noteq> 0"
  shows "evict_candidate (sample_vm ps pa c fl) sample_root = Some (0x80012000, 1, sample_va)"
proof -
  let ?s = "sample_vm ps pa c fl"
  have fl: "fl < 1024" "fl AND PTE_V \<noteq> 0" and al: "pa mod 4096 = 0"
    using assms(1) by (auto simp: sample_args_def sample_eval)
  have m: "mem ?s 0x80010000 = zero_frame(5 := mk_pte 0x80011000 PTE_V)"
    "mem ?s 0x80011000 = zero_frame(1 := mk_pte 0x80012000 PTE_V)"
    "mem ?s 0x80012000 = zero_frame(1 := mk_pte pa fl)"
    by (simp_all add: sample_vm_def)
  have e: "table_entry (mk_pte t PTE_V)" "pte_pa (mk_pte t PTE_V) = t" if "t mod 4096 = 0" for t
    using mk_table_entry [OF that] by (simp_all add: table_entry_def)
  have managed: "is_managed_page ?s pa" using sample_vm_ok(3) [OF assms(1)] by (simp add: in_use_def)
  have f: "mk_pte pa fl AND PTE_V \<noteq> 0" "mk_pte pa fl AND PTE_U \<noteq> 0" "pte_pa (mk_pte pa fl) = pa"
    using mk_pte_and [OF al fl(1), of PTE_V] mk_pte_and [OF al fl(1), of PTE_U] mk_pte_pa [OF al fl(1)]
      fl(2) assms(2) by (simp_all add: pte_defs)
  have "first_some (scan_l0 ?s 5 1 0x80012000) [0..<512] = Some (0x80012000, 1, sample_va)"
    by (rule first_some_here [where i = 1])
      (use f managed sample_vpn(4) in \<open>simp_all add: scan_l0_def get_entry_def m\<close>)
  then have "scan_l1 ?s 5 0x80011000 1 = Some (0x80012000, 1, sample_va)"
    using e [of "0x80012000"] by (simp add: scan_l1_def get_entry_def m Let_def del: first_some.simps upt_rec_numeral)
  then have "first_some (scan_l1 ?s 5 0x80011000) [0..<512] = Some (0x80012000, 1, sample_va)"
    by (intro first_some_here [where i = 1])
      (simp_all add: scan_l1_def get_entry_def m table_entry_def del: upt_rec_numeral)
  then have "scan_l2 ?s sample_root 5 = Some (0x80012000, 1, sample_va)"
    using e [of "0x80011000"]
    by (simp add: scan_l2_def get_entry_def m sample_root_def Let_def del: first_some.simps upt_rec_numeral)
  then show ?thesis
    unfolding evict_candidate_def by (intro first_some_here [where i = 5])
      (simp_all add: scan_l2_def get_entry_def m sample_root_def table_entry_def del: upt_rec_numeral)
qed

theorem swap_round_trip_witness:
  "\<exists>s'. swap_in sample_root sample_va (evict_page sample_root (0x80012000, 1, sample_va)
      (sample_km (sample_vm [0x80001000, 0x80002000] 0x80005000 1 23))) = (Ok (), s')
    \<and> walk_page_table (mem (pm s')) sample_root sample_va = Ok (0x80005000, 23)"
proof -
  let ?p = "sample_vm [0x80001000, 0x80002000] 0x80005000 1 23"
  note v = sample_vm_ok [OF sample_args_5(3)]
  have c: "evict_candidate ?p sample_root = Some (0x80012000, 1, sample_va)"
    by (rule sample_candidate [OF sample_args_5(3)]) (simp add: PTE_U_def)
  have fl: "mem ?p 0x80012000 1 AND 0x3FF = 23"
    using mk_pte_pa(2) [of "0x80005000" 23] by (simp add: sample_vm_def)
  have "\<exists>s'. swap_in sample_root sample_va (evict_page sample_root (0x80012000, 1, sample_va) (sample_km ?p)) = (Ok (), s')
    \<and> pmm_inv (pm s') [0x80001000, 0x80002000]
    \<and> (\<forall>va'. walk_page_table (mem (pm s')) sample_root va' =
         (if same_page sample_va va' then Ok (0x80005000 OR (va' AND 0xFFF), mem (pm (sample_km ?p)) 0x80012000 1 AND 0x3FF)
          else walk_page_table (mem (pm (sample_km ?p))) sample_root va'))
    \<and> (\<forall>k < 512. mem (pm s') 0x80005000 k = mem (pm (sample_km ?p)) 0x80005000 k)
    \<and> map_of (SWAP_MAP s') = map_of (SWAP_MAP (sample_km ?p))
    \<and> SWAP_TOTAL_PAGES s' = SWAP_TOTAL_PAGES (sample_km ?p) \<and> SWAP_TOTAL_BYTES s' = SWAP_TOTAL_BYTES (sample_km ?p)"
    by (rule swap_round_trip [where ps = "[0x80001000, 0x80002000]" and pa = "0x80005000"])
      (use v c in simp_all)
  moreover have "same_page sample_va sample_va" by (simp add: same_page_def)
  ultimately show ?thesis using fl by (auto simp: sample_vpn)
qed

text \<open>Compression loses nothing: decompressing a compressed page into any buffer gives the page
  back.\<close>

theorem decompress_compress_page:
  assumes "length page = 4096" "length dst = 4096"
  shows "decompress_page (compress_page page) dst = page"
  using assms by (rule decompress_compress)

theorem decompress_compress_page_witness:
  "decompress_page (compress_page (replicate 4096 7)) (replicate 4096 0) = replicate 4096 7"
  by (rule decompress_compress_page) (simp_all only: length_replicate)

text \<open>A failed swap-in loses the page: with no free frame the entry is removed although nothing is
  restored, so the pool no longer knows the page, while its counters still count it.\<close>

theorem swap_in_oom_loses_page:
  assumes "pmm_inv (pm s) []" "lookup_swap r va s"
  shows "\<exists>s'. swap_in r va s = (Err ''OOM during swap-in'', s') \<and> \<not> lookup_swap r va s'
    \<and> pm s' = pm s \<and> SWAP_TOTAL_PAGES s' = SWAP_TOTAL_PAGES s"
  using swap_in_oom [OF assms] by auto

theorem swap_in_oom_loses_page_witness:
  "\<exists>s'. swap_in 0x80000000 0x140000000 \<lparr>pm = sample_pmm [],
      SWAP_MAP = [((0x80000000, 0x140000000), \<lparr>sp_data = [7, 255], sp_flags = 23\<rparr>)],
      SWAP_TOTAL_PAGES = 1, SWAP_TOTAL_BYTES = 2\<rparr> = (Err ''OOM during swap-in'', s')
    \<and> \<not> lookup_swap 0x80000000 0x140000000 s' \<and> SWAP_TOTAL_PAGES s' = 1"
proof -
  let ?s = "\<lparr>pm = sample_pmm [],
      SWAP_MAP = [((0x80000000, 0x140000000), \<lparr>sp_data = [7, 255], sp_flags = 23\<rparr>)],
      SWAP_TOTAL_PAGES = 1, SWAP_TOTAL_BYTES = 2\<rparr> :: kmm"
  have "pmm_inv (pm ?s) []" using sample_pmm_inv [of "[]"] by simp
  moreover have "lookup_swap 0x80000000 0x140000000 ?s" by (simp add: lookup_swap_def)
  ultimately show ?thesis using swap_in_oom_loses_page [of ?s] by fastforce
qed

section \<open>Memory objects\<close>

text \<open>A memory object owns its pages: with enough free frames \<open>Vmo::new\<close> takes exactly the pages its
  size needs, zeroed and exclusively owned, and dropping the object gives all of them back.\<close>

theorem vmo_new_drop:
  assumes "pmm_inv (pm s) ps" "div_ceil_page sz \<le> length ps"
  shows "\<exists>v s' s''. Vmo_new procs sz s = (Ok (Some v), s')
    \<and> size_bytes v = sz \<and> physical_pages v = take (div_ceil_page sz) ps
    \<and> (\<forall>p \<in> set (physical_pages v). in_use (pm s') p \<and> refs (pm s') p = 1 \<and> mem (pm s') p = zero_frame)
    \<and> pmm_inv (pm s') (drop (div_ceil_page sz) ps)
    \<and> Vmo_drop v s' = (Ok (), s'')
    \<and> pmm_inv (pm s'') (rev (take (div_ceil_page sz) ps) @ drop (div_ceil_page sz) ps)"
proof -
  let ?n = "div_ceil_page sz"
  obtain s' where s': "Vmo_new procs sz s = (Ok (Some \<lparr>size_bytes = sz, physical_pages = take ?n ps\<rparr>), s')"
    "pmm_inv (pm s') (drop ?n ps)"
    "\<forall>p \<in> set (take ?n ps). pmm_sole (pm s') p \<and> mem (pm s') p = zero_frame"
    using Vmo_new_enough [OF assms] by blast
  have "distinct (take ?n ps)" using assms(1) by (simp add: pmm_inv_def)
  then obtain s'' where "free_all free_page_k (take ?n ps) s' = (Ok (), s'')"
    "pmm_inv (pm s'') (rev (take ?n ps) @ drop ?n ps)"
    using kpool.free_all_sole [OF s'(2)] s'(3) by blast
  with s' show ?thesis by (auto simp: Vmo_drop_def pmm_sole_def)
qed

theorem vmo_new_drop_witness:
  "\<exists>v s'. Vmo_new [] 5000 (sample_km (sample_pmm [0x80001000, 0x80002000, 0x80003000])) = (Ok (Some v), s')
    \<and> physical_pages v = [0x80001000, 0x80002000]"
proof -
  let ?s = "sample_km (sample_pmm [0x80001000, 0x80002000, 0x80003000])"
  have n: "div_ceil_page 5000 = 2" by (simp add: div_ceil_page_def)
  have inv: "pmm_inv (pm ?s) [0x80001000, 0x80002000, 0x80003000]"
    unfolding sample_fs_simps by (rule sample_pmm_inv) (simp_all add: sample_eval)
  from vmo_new_drop [OF inv, of 5000 "[]"] n show ?thesis by auto
qed

text \<open>Dropping an object ignores other references to its pages: a page that is also mapped somewhere
  (count two) goes to the free list, while the page tables still translate to it.\<close>

theorem vmo_drop_frees_mapped_page:
  assumes "pmm_inv (pm s) ps" "in_use (pm s) p" "refs (pm s) p = 2"
    and "walk_page_table (mem (pm s)) r va = Ok (p, fl)" "\<forall>q. \<not> table_at (mem (pm s)) r q p"
  shows "\<exists>s'. Vmo_drop \<lparr>size_bytes = 4096, physical_pages = [p]\<rparr> s = (Ok (), s')
    \<and> pmm_inv (pm s') (p # ps) \<and> walk_page_table (mem (pm s')) r va = Ok (p, fl)"
proof -
  let ?p' = "push_free p (set_count (page_index (pm s) p) 0 (pm s))"
  have "walk_page_table (mem ?p') r va = Ok (p, fl)"
    using assms(4,5) by (simp add: walk_set_other)
  then show ?thesis
    using Vmo_drop_in_use [OF assms(1,2)] push_free_inv [OF assms(1,2)] by simp
qed

theorem vmo_drop_frees_mapped_page_witness:
  "\<exists>s'. Vmo_drop \<lparr>size_bytes = 4096, physical_pages = [0x80005000]\<rparr>
      (sample_km (sample_vm [0x80001000, 0x80002000] 0x80005000 2 275)) = (Ok (), s')
    \<and> pmm_inv (pm s') [0x80005000, 0x80001000, 0x80002000]
    \<and> walk_page_table (mem (pm s')) sample_root sample_va = Ok (0x80005000, 275)"
  by (rule vmo_drop_frees_mapped_page) (use sample_vm_ok [OF sample_args_5(1)] in simp_all)

end
