(* ===== verification/Fifo.thy ===== *)
theory Fifo
  imports Prelude
begin

text \<open>The contract of a first-in first-out queue between senders and receivers, as a locale: an
  operation that appends, an operation that takes from the front, and the list of queued items.
  Its clients' theorem, proved once here, is that any interleaving of sends and receives delivers
  the items in the order they were sent.  Channels and ports provide it.\<close>

datatype 'a fifo_op = Push 'a | Pop

primrec pushed :: "'a fifo_op list \<Rightarrow> 'a list" where
  "pushed [] = []"
| "pushed (x # xs) = (case x of Push a \<Rightarrow> [a] | Pop \<Rightarrow> []) @ pushed xs"

text \<open>Running a sequence of operations collects the items received.\<close>

fun run_fifo :: "('a \<Rightarrow> 's \<Rightarrow> 's) \<Rightarrow> ('s \<Rightarrow> 'a option \<times> 's) \<Rightarrow> 'a fifo_op list \<Rightarrow> 's \<Rightarrow> 'a list \<times> 's" where
  "run_fifo push pop [] s = ([], s)"
| "run_fifo push pop (Push a # xs) s = run_fifo push pop xs (push a s)"
| "run_fifo push pop (Pop # xs) s =
     (case pop s of
        (Some a, s1) \<Rightarrow> (case run_fifo push pop xs s1 of (as, s2) \<Rightarrow> (a # as, s2))
      | (None, s1) \<Rightarrow> run_fifo push pop xs s1)"

locale fifo =
  fixes push :: "'a \<Rightarrow> 's \<Rightarrow> 's"
    and pop :: "'s \<Rightarrow> 'a option \<times> 's"
    and items :: "'s \<Rightarrow> 'a list"
    and ok :: "'s \<Rightarrow> bool"
  assumes push_items: "ok s \<Longrightarrow> items (push a s) = items s @ [a]"
    and push_ok: "ok s \<Longrightarrow> ok (push a s)"
    and pop_items: "ok s \<Longrightarrow> pop s = (r, s') \<Longrightarrow>
      r = (case items s of [] \<Rightarrow> None | a # as \<Rightarrow> Some a) \<and> items s' = tl (items s)"
    and pop_ok: "ok s \<Longrightarrow> pop s = (r, s') \<Longrightarrow> ok s'"
begin

lemma order:
  "ok s \<Longrightarrow> run_fifo push pop xs s = (received, s') \<Longrightarrow> items s @ pushed xs = received @ items s'"
proof (induction xs arbitrary: s received)
  case (Cons x xs)
  show ?case
  proof (cases x)
    case (Push a)
    have "ok (push a s)" using Cons.prems(1) by (rule push_ok)
    from Cons.IH [OF this] Cons.prems Push show ?thesis by (simp add: push_items)
  next
    case Pop
    obtain r s1 where p: "pop s = (r, s1)" by fastforce
    note pi = pop_items [OF Cons.prems(1) p] and po = pop_ok [OF Cons.prems(1) p]
    show ?thesis
    proof (cases "items s")
      case Nil
      then show ?thesis using Cons.IH [OF po] Cons.prems(2) pi p Pop by simp
    next
      case items: (Cons a as)
      obtain rec s2 where r: "run_fifo push pop xs s1 = (rec, s2)" by fastforce
      then have rs: "received = a # rec" "s2 = s'" using Cons.prems(2) pi p Pop items by auto
      from Cons.IH [OF po r [unfolded rs(2)]] show ?thesis using rs pi items Pop by simp
    qed
  qed
qed simp

text \<open>Every item sent is eventually received: enough receives drain the queue.\<close>

lemma drain:
  "ok s \<Longrightarrow> length (items s) \<le> n \<Longrightarrow> fst (run_fifo push pop (replicate n Pop) s) = items s"
proof (induction n arbitrary: s)
  case (Suc n)
  obtain r s1 where p: "pop s = (r, s1)" by fastforce
  note pi = pop_items [OF Suc.prems(1) p] and po = pop_ok [OF Suc.prems(1) p]
  show ?case
    using Suc.IH [OF po] Suc.prems(2) pi p by (cases "items s") (auto split: prod.splits)
qed simp

end

end
