(* ===== verification/Channel.thy ===== *)
theory Channel
  imports Fifo
begin

text \<open>Channels and ports, \<open>src/ipc/channel.rs\<close> and \<open>src/ipc/port.rs\<close>, with \<open>wake_epoll_waiters\<close> of
  \<open>src/ipc/handle.rs\<close>.  Endpoints, ports and epoll instances live in stores indexed by identity; a
  weak reference that no longer upgrades is an absent entry.  Making a process runnable
  (\<open>process::enqueue\<close>) and waking an asynchronous task are recorded in order.\<close>

section \<open>State\<close>

definition SIGNAL_READABLE :: u32 where "SIGNAL_READABLE = 1"
definition SIGNAL_WRITABLE :: u32 where "SIGNAL_WRITABLE = 2"
definition SIGNAL_PEER_CLOSED :: u32 where "SIGNAL_PEER_CLOSED = 4"

record 'h message =
  msg_bytes :: "u8 list"
  msg_handles :: "'h list"

record port_packet =
  pkt_key :: u64
  pkt_type :: u32
  pkt_status :: int
  observed_signals :: u32

record port =
  port_queue :: "port_packet list"
  port_waiter :: pid

record 'h endpoint =
  queue :: "'h message list"
  waker :: "nat option"
  peer_closed :: bool
  peer :: "nat option"
  waiter :: pid
  observers :: "(nat \<times> u64 \<times> u32) list"
  epoll_waiters :: "nat list"
  signal_waiters :: "(pid \<times> u32) list"

record 'h ipc =
  eps :: "nat \<Rightarrow> 'h endpoint option"
  ports :: "nat \<Rightarrow> port"
  epolls :: "nat \<Rightarrow> pid option"
  ready :: "pid list"
  woken :: "nat list"

definition ep_enqueue :: "pid \<Rightarrow> 'h ipc \<Rightarrow> 'h ipc" where
  "ep_enqueue p s = s\<lparr>ready := ready s @ [p]\<rparr>"

definition modify_ep :: "nat \<Rightarrow> ('h endpoint \<Rightarrow> 'h endpoint) \<Rightarrow> 'h ipc \<Rightarrow> 'h ipc" where
  "modify_ep i f s = s\<lparr>eps := (eps s)(i := map_option f (eps s i))\<rparr>"

definition peer_of :: "'h ipc \<Rightarrow> nat \<Rightarrow> nat option" where
  "peer_of s self =
     (case eps s self of
        None \<Rightarrow> None
      | Some e \<Rightarrow> (case peer e of None \<Rightarrow> None | Some p \<Rightarrow> if eps s p = None then None else Some p))"

section \<open>Ports\<close>

definition Port_new :: port where
  "Port_new = \<lparr>port_queue = [], port_waiter = 0\<rparr>"

definition queue_packet :: "nat \<Rightarrow> port_packet \<Rightarrow> 'h ipc \<Rightarrow> 'h ipc" where
  "queue_packet p packet s =
     (let w = port_waiter (ports s p);
          s1 = s\<lparr>ports := (ports s)(p := \<lparr>port_queue = port_queue (ports s p) @ [packet], port_waiter = 0\<rparr>)\<rparr>
      in if 0 < w then ep_enqueue w s1 else s1)"

definition port_try_recv :: "nat \<Rightarrow> 'h ipc \<Rightarrow> port_packet option \<times> 'h ipc" where
  "port_try_recv p s =
     (case port_queue (ports s p) of
        [] \<Rightarrow> (None, s)
      | x # xs \<Rightarrow> (Some x, s\<lparr>ports := (ports s)(p := (ports s p)\<lparr>port_queue := xs\<rparr>)\<rparr>))"

section \<open>Wake-ups and signals\<close>

text \<open>\<open>list.retain(..)\<close> of \<open>wake_epoll_waiters\<close>.\<close>

fun wake_epoll_list :: "nat list \<Rightarrow> 'h ipc \<Rightarrow> nat list \<times> 'h ipc" where
  "wake_epoll_list [] s = ([], s)"
| "wake_epoll_list (e # es) s =
     (case epolls s e of
        None \<Rightarrow> wake_epoll_list es s
      | Some p \<Rightarrow>
          let s1 = s\<lparr>epolls := (epolls s)(e \<mapsto> 0)\<rparr>;
              s2 = (if 0 < p then ep_enqueue p s1 else s1);
              (kept, s3) = wake_epoll_list es s2
          in (e # kept, s3))"

definition wake_epoll_waiters :: "nat \<Rightarrow> 'h ipc \<Rightarrow> 'h ipc" where
  "wake_epoll_waiters i s =
     (case eps s i of
        None \<Rightarrow> s
      | Some e \<Rightarrow> (case wake_epoll_list (epoll_waiters e) s of
                    (kept, s1) \<Rightarrow> modify_ep i (\<lambda>e. e\<lparr>epoll_waiters := kept\<rparr>) s1))"

definition get_signals :: "'h endpoint \<Rightarrow> u32" where
  "get_signals e =
     (if queue e \<noteq> [] then SIGNAL_READABLE else 0)
     OR (if \<not> peer_closed e then SIGNAL_WRITABLE else SIGNAL_PEER_CLOSED)"

text \<open>The index loop over \<open>signal_waiters\<close> keeps the waiters whose mask misses and enqueues the
  others in order.\<close>

definition triggered :: "u32 \<Rightarrow> pid \<times> u32 \<Rightarrow> bool" where
  "triggered active w \<longleftrightarrow> active AND snd w \<noteq> 0"

definition notify_observer :: "u32 \<Rightarrow> nat \<times> u64 \<times> u32 \<Rightarrow> 'h ipc \<Rightarrow> 'h ipc" where
  "notify_observer active ob s =
     (let (p, key, trigger) = ob in
      if active AND trigger \<noteq> 0
      then queue_packet p \<lparr>pkt_key = key, pkt_type = 1, pkt_status = 0, observed_signals = active\<rparr> s
      else s)"

definition notify_signals :: "nat \<Rightarrow> u32 \<Rightarrow> 'h ipc \<Rightarrow> 'h ipc" where
  "notify_signals i active s =
     (case eps s i of
        None \<Rightarrow> s
      | Some e \<Rightarrow>
          let s1 = modify_ep i (\<lambda>e. e\<lparr>signal_waiters := filter (\<lambda>w. \<not> triggered active w) (signal_waiters e)\<rparr>) s;
              s2 = fold (\<lambda>w. ep_enqueue (fst w)) (filter (triggered active) (signal_waiters e)) s1
          in fold (notify_observer active) (observers e) s2)"

definition notify_current :: "nat \<Rightarrow> 'h ipc \<Rightarrow> 'h ipc" where
  "notify_current i s =
     (case eps s i of None \<Rightarrow> s | Some e \<Rightarrow> notify_signals i (get_signals e) s)"

text \<open>\<open>waker.take()\<close> and \<open>wake()\<close>; \<open>waiter.swap(0)\<close>.\<close>

definition take_waker :: "nat \<Rightarrow> 'h ipc \<Rightarrow> 'h ipc" where
  "take_waker i s =
     (case eps s i of
        None \<Rightarrow> s
      | Some e \<Rightarrow>
          (case waker e of
             None \<Rightarrow> s
           | Some w \<Rightarrow> (modify_ep i (\<lambda>e. e\<lparr>waker := None\<rparr>) s)\<lparr>woken := woken s @ [w]\<rparr>))"

definition swap_waiter :: "nat \<Rightarrow> 'h ipc \<Rightarrow> pid \<times> 'h ipc" where
  "swap_waiter i s =
     (case eps s i of
        None \<Rightarrow> (0, s)
      | Some e \<Rightarrow> (waiter e, modify_ep i (\<lambda>e. e\<lparr>waiter := 0\<rparr>) s))"

definition wake_waiter :: "nat \<Rightarrow> 'h ipc \<Rightarrow> 'h ipc" where
  "wake_waiter i s =
     (case swap_waiter i s of (w, s1) \<Rightarrow> if 0 < w then ep_enqueue w s1 else s1)"

section \<open>Channels\<close>

definition new_endpoint :: "nat option \<Rightarrow> 'h endpoint" where
  "new_endpoint p = \<lparr>queue = [], waker = None, peer_closed = False, peer = p, waiter = 0, observers = [],
                     epoll_waiters = [], signal_waiters = []\<rparr>"

definition create_pair :: "nat \<Rightarrow> nat \<Rightarrow> 'h ipc \<Rightarrow> 'h ipc" where
  "create_pair i j s =
     s\<lparr>eps := (eps s)(i \<mapsto> new_endpoint (Some j), j \<mapsto> new_endpoint (Some i))\<rparr>"

definition push_msg :: "nat \<Rightarrow> 'h message \<Rightarrow> 'h ipc \<Rightarrow> 'h ipc" where
  "push_msg i msg s = modify_ep i (\<lambda>e. e\<lparr>queue := queue e @ [msg]\<rparr>) s"

definition chan_write :: "nat \<Rightarrow> 'h message \<Rightarrow> ('h ipc, unit) kmon" where
  "chan_write self msg s =
     (case peer_of s self of
        None \<Rightarrow> (Err ''Peer closed'', s)
      | Some p \<Rightarrow> (Ok (), notify_current p (wake_epoll_waiters p (wake_waiter p (take_waker p (push_msg p msg s))))))"

definition chan_write_fast :: "nat \<Rightarrow> 'h message \<Rightarrow> ('h ipc, pid option) kmon" where
  "chan_write_fast self msg s =
     (case peer_of s self of
        None \<Rightarrow> (Err ''Peer closed'', s)
      | Some p \<Rightarrow>
          (case swap_waiter p (wake_epoll_waiters p (take_waker p (push_msg p msg s))) of
             (w, s1) \<Rightarrow> (Ok (if 0 < w then Some w else None), notify_current p s1)))"

definition pop_msg :: "nat \<Rightarrow> 'h ipc \<Rightarrow> 'h message option \<times> 'h ipc" where
  "pop_msg i s =
     (case eps s i of
        None \<Rightarrow> (None, s)
      | Some e \<Rightarrow>
          (case queue e of
             [] \<Rightarrow> (None, s)
           | m # ms \<Rightarrow> (Some m, modify_ep i (\<lambda>e. e\<lparr>queue := ms\<rparr>) s)))"

definition chan_try_recv :: "nat \<Rightarrow> 'h ipc \<Rightarrow> 'h message option \<times> 'h ipc" where
  "chan_try_recv self s =
     (case pop_msg self s of
        (Some m, s1) \<Rightarrow> (Some m, notify_current self s1)
      | (None, s1) \<Rightarrow> (None, s1))"

text \<open>\<open>Poll::Pending\<close> is \<open>None\<close>.\<close>

definition poll_recv :: "nat \<Rightarrow> nat \<Rightarrow> 'h ipc \<Rightarrow> 'h message rr option \<times> 'h ipc" where
  "poll_recv self wk s =
     (case pop_msg self s of
        (Some m, s1) \<Rightarrow> (Some (Ok m), notify_current self s1)
      | (None, s1) \<Rightarrow>
          (case eps s1 self of
             None \<Rightarrow> (None, s1)
           | Some e \<Rightarrow>
               if peer_closed e then (Some (Err ''Peer closed''), s1)
               else (None, modify_ep self (\<lambda>e. e\<lparr>waker := Some wk\<rparr>) s1)))"

definition try_recv_constrained ::
  "nat \<Rightarrow> nat \<Rightarrow> nat \<Rightarrow> 'h ipc \<Rightarrow> (nat \<times> nat + 'h message option) \<times> 'h ipc" where
  "try_recv_constrained self max_bytes max_handles s =
     (case eps s self of
        None \<Rightarrow> (Inr None, s)
      | Some e \<Rightarrow>
          (case queue e of
             m # _ \<Rightarrow>
               if max_bytes < length (msg_bytes m) \<or> max_handles < length (msg_handles m)
               then (Inl (length (msg_bytes m), length (msg_handles m)), s)
               else (case chan_try_recv self s of (r, s1) \<Rightarrow> (Inr r, s1))
           | [] \<Rightarrow> (Inr None, s)))"

definition is_peer_closed :: "nat \<Rightarrow> 'h ipc \<Rightarrow> bool" where
  "is_peer_closed self s = (case eps s self of None \<Rightarrow> False | Some e \<Rightarrow> peer_closed e)"

text \<open>\<open>Drop\<close>: the endpoint's memory goes away after its destructor ran.\<close>

definition chan_drop :: "nat \<Rightarrow> 'h ipc \<Rightarrow> 'h ipc" where
  "chan_drop self s =
     (let s1 = (case peer_of s self of
                  None \<Rightarrow> s
                | Some p \<Rightarrow>
                    let t1 = wake_waiter p (take_waker p (modify_ep p (\<lambda>e. e\<lparr>peer_closed := True\<rparr>) s));
                        ws = (case eps t1 p of None \<Rightarrow> [] | Some e \<Rightarrow> signal_waiters e);
                        t2 = fold (\<lambda>w. ep_enqueue (fst w)) ws (modify_ep p (\<lambda>e. e\<lparr>signal_waiters := []\<rparr>) t1)
                    in notify_current p t2)
      in s1\<lparr>eps := (eps s1)(self := None)\<rparr>)"

section \<open>What the wake-ups leave alone\<close>

text \<open>The part of an endpoint that decides what is delivered.\<close>

definition core :: "'h ipc \<Rightarrow> nat \<Rightarrow> ('h message list \<times> nat option \<times> bool) option" where
  "core s i = map_option (\<lambda>e. (queue e, peer e, peer_closed e)) (eps s i)"

lemma core_modify:
  "(\<And>e. queue (f e) = queue e \<and> peer (f e) = peer e \<and> peer_closed (f e) = peer_closed e) \<Longrightarrow>
   core (modify_ep j f s) = core s"
  by (auto simp: core_def modify_ep_def fun_eq_iff option.map_comp o_def)

lemma core_simps [simp]:
  "core (ep_enqueue p s) = core s"
  "core (s\<lparr>woken := w\<rparr>) = core s"
  "core (s\<lparr>ports := q\<rparr>) = core s"
  "core (s\<lparr>epolls := g\<rparr>) = core s"
  by (simp_all add: core_def ep_enqueue_def fun_eq_iff)

lemma core_queue_packet [simp]: "core (queue_packet p pk s) = core s"
  by (simp add: queue_packet_def Let_def)

lemma core_fold:
  assumes "\<And>x s. core (f x s) = core s"
  shows "core (fold f xs s) = core s"
  by (induction xs arbitrary: s) (simp_all add: assms)

lemma core_wake_epoll_list: "core (snd (wake_epoll_list es s)) = core s"
proof (induction es arbitrary: s)
  case (Cons e es)
  show ?case
  proof (cases "epolls s e")
    case (Some p)
    let ?s2 = "if 0 < p then ep_enqueue p (s\<lparr>epolls := (epolls s)(e \<mapsto> 0)\<rparr>) else s\<lparr>epolls := (epolls s)(e \<mapsto> 0)\<rparr>"
    have "core ?s2 = core s" by simp
    then show ?thesis
      using Cons.IH [of ?s2] Some by (cases "wake_epoll_list es ?s2") (simp only: wake_epoll_list.simps
          option.case Let_def prod.case snd_conv)
  qed (simp add: Cons.IH)
qed simp

lemma core_wakes [simp]:
  "core (wake_epoll_waiters i s) = core s"
  "core (take_waker i s) = core s"
  "core (snd (swap_waiter i s)) = core s"
  "core (wake_waiter i s) = core s"
proof -
  show "core (wake_epoll_waiters i s) = core s"
  proof (cases "eps s i")
    case (Some e)
    obtain kept s1 where w: "wake_epoll_list (epoll_waiters e) s = (kept, s1)" by fastforce
    then have "core s1 = core s" using core_wake_epoll_list [of "epoll_waiters e" s] by simp
    then show ?thesis using Some w by (simp add: wake_epoll_waiters_def core_modify)
  qed (simp add: wake_epoll_waiters_def)
  show "core (take_waker i s) = core s"
    by (auto simp: take_waker_def core_modify split: option.splits)
  show sw: "core (snd (swap_waiter i s)) = core s"
    by (auto simp: swap_waiter_def core_modify split: option.splits)
  show "core (wake_waiter i s) = core s"
    using sw by (auto simp: wake_waiter_def split: prod.splits)
qed

lemma core_notify [simp]:
  "core (notify_signals i a s) = core s" "core (notify_current i s) = core s"
proof -
  have ob: "core (notify_observer a x t) = core t" for a x and t :: "'h ipc"
    by (simp add: notify_observer_def split: prod.splits)
  show *: "core (notify_signals i a s) = core s" for a
  proof (cases "eps s i")
    case (Some e)
    then show ?thesis
      unfolding notify_signals_def by (simp add: Let_def core_fold [OF ob] core_fold core_modify)
  qed (simp add: notify_signals_def)
  show "core (notify_current i s) = core s" by (simp add: notify_current_def * split: option.splits)
qed

lemma peer_of_core:
  "peer_of s i = (case core s i of None \<Rightarrow> None | Some (q, p, c) \<Rightarrow>
     (case p of None \<Rightarrow> None | Some j \<Rightarrow> if core s j = None then None else Some j))"
  by (auto simp: peer_of_def core_def split: option.splits)

definition items :: "nat \<Rightarrow> 'h ipc \<Rightarrow> 'h message list" where
  "items i s = (case core s i of None \<Rightarrow> [] | Some (q, _) \<Rightarrow> q)"

lemma core_push:
  "core (push_msg p m s) = (core s)(p := map_option (\<lambda>(q, r). (q @ [m], r)) (core s p))"
  by (auto simp: push_msg_def modify_ep_def core_def fun_eq_iff option.map_comp o_def)

lemma core_write:
  "peer_of s i = Some p \<Longrightarrow>
   core (snd (chan_write i m s)) = (core s)(p := map_option (\<lambda>(q, r). (q @ [m], r)) (core s p))"
  by (simp add: chan_write_def core_push)

lemma core_pop:
  "core (snd (pop_msg i s)) = (core s)(i := map_option (\<lambda>(q, r). (tl q, r)) (core s i))"
  and fst_pop: "fst (pop_msg i s) = (case items i s of [] \<Rightarrow> None | m # _ \<Rightarrow> Some m)"
  by (auto simp: pop_msg_def core_def items_def modify_ep_def fun_eq_iff split: option.splits list.splits)

lemma core_recv:
  "core (snd (chan_try_recv i s)) = (core s)(i := map_option (\<lambda>(q, r). (tl q, r)) (core s i))"
  and fst_recv: "fst (chan_try_recv i s) = (case items i s of [] \<Rightarrow> None | m # _ \<Rightarrow> Some m)"
proof -
  obtain r s1 where p: "pop_msg i s = (r, s1)" by fastforce
  show "core (snd (chan_try_recv i s)) = (core s)(i := map_option (\<lambda>(q, r). (tl q, r)) (core s i))"
    using core_pop [of i s] p by (cases r) (simp_all add: chan_try_recv_def)
  show "fst (chan_try_recv i s) = (case items i s of [] \<Rightarrow> None | m # _ \<Rightarrow> Some m)"
    using fst_pop [of i s] p by (cases "items i s") (simp_all add: chan_try_recv_def)
qed

section \<open>The queues are first-in first-out\<close>

text \<open>Sending on endpoint \<open>i\<close> and receiving on its peer \<open>p\<close>; sending packets to a port and receiving
  them.\<close>

definition chan_push :: "nat \<Rightarrow> 'h message \<Rightarrow> 'h ipc \<Rightarrow> 'h ipc" where
  "chan_push i m s = snd (chan_write i m s)"

interpretation chan: fifo "chan_push i" "chan_try_recv p" "items p" "\<lambda>s. peer_of s i = Some p"
  for i p
proof
  fix s :: "'h ipc" and a
  assume pe: "peer_of s i = Some p"
  then obtain c where c: "core s p = Some c"
    by (auto simp: peer_of_core split: option.splits prod.splits if_splits)
  show "items p (chan_push i a s) = items p s @ [a]"
    using c by (auto simp: chan_push_def items_def core_write [OF pe] split: prod.splits)
  show "peer_of (chan_push i a s) i = Some p"
    using pe c unfolding peer_of_core chan_push_def core_write [OF pe]
    by (auto split: option.splits prod.splits if_splits)
next
  fix s s' :: "'h ipc" and r
  assume pe: "peer_of s i = Some p" and recv: "chan_try_recv p s = (r, s')"
  then obtain c where c: "core s p = Some c"
    by (auto simp: peer_of_core split: option.splits prod.splits if_splits)
  have s': "core s' = (core s)(p := map_option (\<lambda>(q, r). (tl q, r)) (core s p))"
    using core_recv [of p s] recv by simp
  show "r = (case items p s of [] \<Rightarrow> None | a # as \<Rightarrow> Some a) \<and> items p s' = tl (items p s)"
    using fst_recv [of p s] recv s' c by (auto simp: items_def split: prod.splits)
  show "peer_of s' i = Some p"
    using pe c unfolding peer_of_core s' by (auto split: option.splits prod.splits if_splits)
qed

interpretation pq: fifo "queue_packet p" "port_try_recv p" "\<lambda>s. port_queue (ports s p)" "\<lambda>_. True"
  for p
  by unfold_locales (auto simp: queue_packet_def ep_enqueue_def port_try_recv_def Let_def split: list.splits)

section \<open>Properties\<close>

text \<open>C14: A channel delivers messages in order.  For any interleaving of sends on one end and receives
  on the other, what was queued followed by what was sent is what was received followed by what is
  still queued: nothing is lost, duplicated, reordered or invented.\<close>

theorem channel_order:
  assumes "peer_of s i = Some p" "run_fifo (chan_push i) (chan_try_recv p) xs s = (received, s')"
  shows "items p s @ pushed xs = received @ items p s'"
  using assms by (rule chan.order)

definition sample_ipc :: "nat ipc" where
  "sample_ipc = create_pair 1 2
     \<lparr>eps = (\<lambda>_. None), ports = (\<lambda>_. Port_new), epolls = (\<lambda>_. None), ready = [], woken = []\<rparr>"

lemma sample_peer: "peer_of sample_ipc 1 = Some 2" "peer_of sample_ipc 2 = Some 1" "items 2 sample_ipc = []"
  by (simp_all add: sample_ipc_def create_pair_def peer_of_def new_endpoint_def items_def core_def)

theorem channel_order_witness:
  "\<exists>received s'. run_fifo (chan_push 1) (chan_try_recv 2)
      [Push \<lparr>msg_bytes = [1], msg_handles = []\<rparr>, Push \<lparr>msg_bytes = [2], msg_handles = [7]\<rparr>, Pop] sample_ipc = (received, s')
    \<and> [\<lparr>msg_bytes = [1], msg_handles = []\<rparr>, \<lparr>msg_bytes = [2], msg_handles = [7]\<rparr>] = received @ items 2 s'"
proof -
  obtain received s' where r: "run_fifo (chan_push 1) (chan_try_recv 2)
      [Push \<lparr>msg_bytes = [1], msg_handles = []\<rparr>, Push \<lparr>msg_bytes = [2], msg_handles = [7]\<rparr>, Pop] sample_ipc = (received, s')"
    by fastforce
  from channel_order [OF sample_peer(1) r] r sample_peer(3) show ?thesis by simp
qed

text \<open>A port delivers packets in order, for any interleaving of notifications and receives.\<close>

theorem port_order:
  assumes "run_fifo (queue_packet p) (port_try_recv p) xs s = (received, s')"
  shows "port_queue (ports s p) @ pushed xs = received @ port_queue (ports s' p)"
  using pq.order [OF _ assms] by simp

theorem port_order_witness:
  "\<exists>received s'. run_fifo (queue_packet 3) (port_try_recv 3)
      [Push \<lparr>pkt_key = 5, pkt_type = 1, pkt_status = 0, observed_signals = 1\<rparr>, Pop, Pop] sample_ipc = (received, s')
    \<and> [\<lparr>pkt_key = 5, pkt_type = 1, pkt_status = 0, observed_signals = 1\<rparr>] = received @ port_queue (ports s' 3)"
proof -
  obtain received s' where r: "run_fifo (queue_packet 3) (port_try_recv 3)
      [Push \<lparr>pkt_key = 5, pkt_type = 1, pkt_status = 0, observed_signals = 1\<rparr>, Pop, Pop] sample_ipc = (received, s')"
    by fastforce
  from port_order [OF r] r show ?thesis by (simp add: sample_ipc_def create_pair_def Port_new_def)
qed

text \<open>A constrained receive never takes a message that does not fit: it reports the sizes of the
  first message and leaves the queue as it was.\<close>

theorem constrained_receive_keeps_large_message:
  assumes "items i s = m # ms"
    and "max_bytes < length (msg_bytes m) \<or> max_handles < length (msg_handles m)"
  shows "try_recv_constrained i max_bytes max_handles s
    = (Inl (length (msg_bytes m), length (msg_handles m)), s)"
  using assms
  by (auto simp: items_def core_def try_recv_constrained_def split: option.splits list.splits)

theorem constrained_receive_keeps_large_message_witness:
  "try_recv_constrained 2 0 0 (chan_push 1 \<lparr>msg_bytes = [1], msg_handles = []\<rparr> sample_ipc)
    = (Inl (1, 0), chan_push 1 \<lparr>msg_bytes = [1], msg_handles = []\<rparr> sample_ipc)"
proof -
  have "items 2 (chan_push 1 \<lparr>msg_bytes = [1], msg_handles = []\<rparr> sample_ipc) = [\<lparr>msg_bytes = [1], msg_handles = []\<rparr>]"
    using chan.push_items [OF sample_peer(1)] sample_peer(3) by simp
  from constrained_receive_keeps_large_message [OF this, of 0 0] show ?thesis by simp
qed

text \<open>Nothing is taken from the log of processes made runnable.\<close>

lemma ready_enqueue [simp]: "ready (ep_enqueue p s) = ready s @ [p]"
  by (simp add: ep_enqueue_def)

lemma ready_modify [simp]: "ready (modify_ep i f s) = ready s"
  by (simp add: modify_ep_def)

lemma ready_fold_enqueue: "ready (fold (\<lambda>w. ep_enqueue (fst w)) ws s) = ready s @ map fst ws"
  by (induction ws arbitrary: s) simp_all

lemma ready_notify: "set (ready s) \<subseteq> set (ready (notify_current i s))"
proof -
  have ob: "set (ready t) \<subseteq> set (ready (notify_observer a x t))" for a x and t :: "'h ipc"
    by (auto simp: notify_observer_def queue_packet_def Let_def split: prod.splits)
  have "set (ready t) \<subseteq> set (ready (fold (notify_observer a) xs t))" for a xs and t :: "'h ipc"
    by (induction xs arbitrary: t) (use ob in fastforce)+
  then show ?thesis
    by (force simp: notify_current_def notify_signals_def Let_def ready_fold_enqueue split: option.splits)
qed

lemma signal_waiters_wakes:
  "map_option signal_waiters (eps (take_waker i s) p) = map_option signal_waiters (eps s p)"
  "map_option signal_waiters (eps (wake_waiter i s) p) = map_option signal_waiters (eps s p)"
  by (auto simp: take_waker_def wake_waiter_def swap_waiter_def modify_ep_def ep_enqueue_def
      option.map_comp o_def split: option.splits)

text \<open>Dropping an endpoint closes its peer: the peer sees the close, keeps its queued messages, can no
  longer write, and every process waiting on its signals is made runnable.\<close>

theorem drop_closes_peer:
  assumes "peer_of s self = Some p" "peer_of s p = Some self" "p \<noteq> self" "eps s p = Some e"
  shows "is_peer_closed p (chan_drop self s) \<and> items p (chan_drop self s) = items p s
    \<and> chan_write p m (chan_drop self s) = (Err ''Peer closed'', chan_drop self s)
    \<and> fst ` set (signal_waiters e) \<subseteq> set (ready (chan_drop self s))"
proof -
  let ?t0 = "modify_ep p (\<lambda>e. e\<lparr>peer_closed := True\<rparr>) s"
  define t1 where "t1 = wake_waiter p (take_waker p ?t0)"
  define ws where "ws = (case eps t1 p of None \<Rightarrow> [] | Some e \<Rightarrow> signal_waiters e)"
  define t2 where "t2 = fold (\<lambda>w. ep_enqueue (fst w)) ws (modify_ep p (\<lambda>e. e\<lparr>signal_waiters := []\<rparr>) t1)"
  have s': "chan_drop self s = (notify_current p t2)\<lparr>eps := (eps (notify_current p t2))(self := None)\<rparr>"
    using assms(1) by (simp add: chan_drop_def t2_def ws_def t1_def Let_def)
  have "map_option signal_waiters (eps t1 p) = Some (signal_waiters e)"
    unfolding t1_def signal_waiters_wakes by (simp add: modify_ep_def assms(4))
  then have "ws = signal_waiters e" by (auto simp: ws_def)
  then have "fst ` set (signal_waiters e) \<subseteq> set (ready t2)" by (auto simp: t2_def ready_fold_enqueue)
  then have rdy: "fst ` set (signal_waiters e) \<subseteq> set (ready (chan_drop self s))"
    using ready_notify [of t2 p] by (auto simp: s')
  have "core t2 = core ?t0"
    unfolding t2_def by (subst core_fold) (simp_all add: core_modify t1_def)
  then have c2: "core (notify_current p t2) = core ?t0" by simp
  have c: "core (chan_drop self s) = (core ?t0)(self := None)"
  proof -
    have "core (t\<lparr>eps := (eps t)(self := None)\<rparr>) = (core t)(self := None)" for t :: "'a ipc"
      by (auto simp: core_def fun_eq_iff)
    then show ?thesis unfolding s' using c2 by simp
  qed
  have p: "core (chan_drop self s) p = Some (queue e, peer e, True)"
    unfolding c using assms(3,4) by (simp add: core_def modify_ep_def)
  have "peer e = Some self" using assms(2,4) by (auto simp: peer_of_def split: option.splits if_splits)
  then have "peer_of (chan_drop self s) p = None" unfolding peer_of_core p using c by simp
  moreover have "is_peer_closed p (chan_drop self s)"
    using p by (auto simp: is_peer_closed_def core_def)
  moreover have "items p (chan_drop self s) = items p s"
    using p assms(4) by (auto simp: items_def core_def)
  ultimately show ?thesis using rdy by (simp add: chan_write_def)
qed

theorem drop_closes_peer_witness:
  "is_peer_closed 2 (chan_drop 1 sample_ipc)
    \<and> chan_write 2 \<lparr>msg_bytes = [1], msg_handles = []\<rparr> (chan_drop 1 sample_ipc)
      = (Err ''Peer closed'', chan_drop 1 sample_ipc)"
proof -
  have "eps sample_ipc 2 = Some (new_endpoint (Some 1))" by (simp add: sample_ipc_def create_pair_def)
  from drop_closes_peer [OF sample_peer(1,2) _ this] show ?thesis by simp
qed

end
