(* ===== verification/Handle.thy ===== *)
theory Handle
  imports Prelude
begin

text \<open>Handles and the per-process handle table, \<open>src/ipc/handle.rs\<close>.  The table is generic in the
  kernel object.  A handle packs the slot and a generation; a lookup succeeds only when the
  generation of the slot matches.\<close>

section \<open>Handles\<close>

definition encode_handle :: "u16 \<Rightarrow> u16 \<Rightarrow> u32" where
  "encode_handle slot generation = push_bit 16 (ucast generation) OR ucast slot"

definition decode_handle :: "u32 \<Rightarrow> u16 \<times> u16" where
  "decode_handle h = (ucast (h AND 0xFFFF), ucast (drop_bit 16 h))"

definition READ :: u32 where "READ = 1"
definition WRITE :: u32 where "WRITE = 2"
definition DUPLICATE :: u32 where "DUPLICATE = 4"
definition TRANSFER :: u32 where "TRANSFER = 8"
definition Rights_all :: u32 where "Rights_all = READ OR WRITE OR DUPLICATE OR TRANSFER"

definition contains_rights :: "u32 \<Rightarrow> u32 \<Rightarrow> bool" where
  "contains_rights rs required \<longleftrightarrow> rs AND required = required"

record 'o handle_entry =
  object :: 'o
  rights :: u32
  generation :: u16

record 'o handle_table =
  hmap :: "u16 \<Rightarrow> 'o handle_entry option"
  cloexec :: "u32 set"

section \<open>Table operations\<close>

definition HandleTable_new :: "'o handle_table" where
  "HandleTable_new = \<lparr>hmap = (\<lambda>_. None), cloexec = {}\<rparr>"

function lowest_from :: "'o handle_table \<Rightarrow> nat \<Rightarrow> nat option" where
  "lowest_from t i =
     (if i < 65536 then if hmap t (of_nat i) = None then Some i else lowest_from t (i + 1) else None)"
  by pat_completeness auto
termination by (relation "measure (\<lambda>(t, i). 65536 - i)") auto

declare lowest_from.simps [simp del]

definition lowest_free :: "'o handle_table \<Rightarrow> u16 rr" where
  "lowest_free t =
     (case lowest_from t 0 of
        Some i \<Rightarrow> Ok (of_nat i)
      | None \<Rightarrow> Panic ''handle table full (65536 handles exhausted)'')"

definition put_entry :: "u16 \<Rightarrow> 'o handle_entry \<Rightarrow> 'o handle_table \<Rightarrow> 'o handle_table" where
  "put_entry slot e t = t\<lparr>hmap := (hmap t)(slot \<mapsto> e)\<rparr>"

definition insert_with_rights :: "'o \<Rightarrow> u32 \<Rightarrow> ('o handle_table, u32) kmon" where
  "insert_with_rights obj rs t =
     (case lowest_free t of
        Ok slot \<Rightarrow>
          let gen = (case hmap t slot of Some e \<Rightarrow> generation e + 1 | None \<Rightarrow> 1)
          in (Ok (encode_handle slot gen), put_entry slot \<lparr>object = obj, rights = rs, generation = gen\<rparr> t)
      | Err e \<Rightarrow> (Err e, t)
      | Panic e \<Rightarrow> (Panic e, t))"

definition handle_insert :: "'o \<Rightarrow> ('o handle_table, u32) kmon" where
  "handle_insert obj = insert_with_rights obj Rights_all"

definition insert_at :: "u32 \<Rightarrow> 'o \<Rightarrow> 'o handle_table \<Rightarrow> 'o handle_table" where
  "insert_at h obj t =
     (let (slot, gen) = decode_handle h
      in put_entry slot \<lparr>object = obj, rights = Rights_all, generation = gen\<rparr> t)"

definition insert_entry :: "u32 \<Rightarrow> 'o handle_entry \<Rightarrow> 'o handle_table \<Rightarrow> 'o handle_table" where
  "insert_entry h e t = (let (slot, _) = decode_handle h in put_entry slot e t)"

definition get_handle_entry :: "'o handle_table \<Rightarrow> u32 \<Rightarrow> 'o handle_entry option" where
  "get_handle_entry t h =
     (let (slot, gen) = decode_handle h in
      case hmap t slot of Some e \<Rightarrow> if generation e = gen then Some e else None | None \<Rightarrow> None)"

definition get :: "'o handle_table \<Rightarrow> u32 \<Rightarrow> 'o option" where
  "get t h = map_option object (get_handle_entry t h)"

text \<open>The two errors of \<open>get_with_rights\<close>.\<close>

datatype handle_error = EBADF | EACCES

definition get_with_rights :: "'o handle_table \<Rightarrow> u32 \<Rightarrow> u32 \<Rightarrow> handle_error + 'o" where
  "get_with_rights t h required =
     (case get_handle_entry t h of
        None \<Rightarrow> Inl EBADF
      | Some e \<Rightarrow> if \<not> contains_rights (rights e) required then Inl EACCES else Inr (object e))"

definition remove_entry :: "u32 \<Rightarrow> 'o handle_table \<Rightarrow> 'o handle_entry option \<times> 'o handle_table" where
  "remove_entry h t =
     (let t1 = t\<lparr>cloexec := cloexec t - {h}\<rparr>; (slot, gen) = decode_handle h in
      case hmap t1 slot of
        Some e \<Rightarrow> if generation e = gen then (Some e, t1\<lparr>hmap := (hmap t1)(slot := None)\<rparr>) else (None, t1)
      | None \<Rightarrow> (None, t1))"

definition remove :: "u32 \<Rightarrow> 'o handle_table \<Rightarrow> 'o option \<times> 'o handle_table" where
  "remove h t = (case remove_entry h t of (r, t1) \<Rightarrow> (map_option object r, t1))"

definition close_all :: "'o handle_table \<Rightarrow> 'o handle_table" where
  "close_all t = t\<lparr>hmap := (\<lambda>_. None), cloexec := {}\<rparr>"

definition set_cloexec :: "u32 \<Rightarrow> bool \<Rightarrow> 'o handle_table \<Rightarrow> 'o handle_table" where
  "set_cloexec h val t = t\<lparr>cloexec := (if val then insert h (cloexec t) else cloexec t - {h})\<rparr>"

definition is_cloexec :: "'o handle_table \<Rightarrow> u32 \<Rightarrow> bool" where
  "is_cloexec t h \<longleftrightarrow> h \<in> cloexec t"

text \<open>\<open>close_on_exec\<close> removes the slots of the marked handles whose generation still matches.  The
  order of the removals does not matter, so the loop over the set is a set-wise update.\<close>

definition close_on_exec :: "'o handle_table \<Rightarrow> 'o handle_table" where
  "close_on_exec t =
     t\<lparr>hmap := (\<lambda>slot. case hmap t slot of
                 Some e \<Rightarrow> if encode_handle slot (generation e) \<in> cloexec t then None else Some e
               | None \<Rightarrow> None),
       cloexec := {}\<rparr>"

definition dup :: "u32 \<Rightarrow> ('o handle_table, u32 option) kmon" where
  "dup src t =
     (case get_handle_entry t src of
        None \<Rightarrow> (Ok None, t)
      | Some e \<Rightarrow> bindK (handle_insert (object e)) (\<lambda>h. retK (Some h)) t)"

definition dup2 :: "u32 \<Rightarrow> u32 \<Rightarrow> 'o handle_table \<Rightarrow> bool \<times> 'o handle_table" where
  "dup2 src dst t =
     (case get_handle_entry t src of
        Some e \<Rightarrow>
          let (dst_id, dst_gen) = decode_handle dst;
              t1 = put_entry dst_id (e\<lparr>generation := dst_gen\<rparr>) t
          in (True, t1\<lparr>cloexec := cloexec t1 - {dst}\<rparr>)
      | None \<Rightarrow> (False, t))"

section \<open>Encoding\<close>

lemma decode_encode [simp]: "decode_handle (encode_handle slot gen) = (slot, gen)"
proof -
  have m: "(0xFFFF :: u32) = mask 16" by (simp add: mask_eq_exp_minus_1)
  have "ucast (encode_handle slot gen AND 0xFFFF) = slot"
    unfolding encode_handle_def m by (rule bit_word_eqI) (auto simp: bit_simps)
  moreover have "ucast (drop_bit 16 (encode_handle slot gen)) = gen"
    unfolding encode_handle_def
    by (rule bit_word_eqI) (auto simp: bit_simps dest: bit_imp_le_length)
  ultimately show ?thesis by (simp add: decode_handle_def)
qed

lemma encode_decode: "decode_handle h = (slot, gen) \<Longrightarrow> encode_handle slot gen = h"
proof -
  assume d: "decode_handle h = (slot, gen)"
  have m: "(0xFFFF :: u32) = mask 16" by (simp add: mask_eq_exp_minus_1)
  have "encode_handle (ucast (h AND 0xFFFF)) (ucast (drop_bit 16 h)) = h"
    unfolding encode_handle_def m
    by (rule bit_word_eqI) (auto simp: bit_simps not_less dest: bit_imp_le_length)
  with d show ?thesis by (simp add: decode_handle_def)
qed

section \<open>The lowest free slot\<close>

definition has_free :: "'o handle_table \<Rightarrow> bool" where
  "has_free t \<longleftrightarrow> (\<exists>slot. hmap t slot = None)"

lemma lowest_from_Some:
  "lowest_from t i = Some k \<Longrightarrow>
     i \<le> k \<and> k < 65536 \<and> hmap t (of_nat k) = None \<and> (\<forall>j. i \<le> j \<longrightarrow> j < k \<longrightarrow> hmap t (of_nat j) \<noteq> None)"
proof (induction t i rule: lowest_from.induct)
  case (1 t i)
  show ?case
  proof (cases "i < 65536 \<and> hmap t (of_nat i) \<noteq> None")
    case True
    then have "lowest_from t (i + 1) = Some k"
      using "1.prems" by (subst (asm) lowest_from.simps) (simp split: if_splits)
    with "1.IH" True have IH: "i + 1 \<le> k" "k < 65536" "hmap t (of_nat k) = None"
      "\<forall>j. i + 1 \<le> j \<longrightarrow> j < k \<longrightarrow> hmap t (of_nat j) \<noteq> None" by simp_all
    have "hmap t (of_nat j) \<noteq> None" if "i \<le> j" "j < k" for j
      using that True IH(4) by (cases "j = i") auto
    with IH show ?thesis by auto
  next
    case False
    then show ?thesis using "1.prems" by (subst (asm) lowest_from.simps) (auto split: if_splits)
  qed
qed

lemma lowest_from_None:
  "lowest_from t i = None \<Longrightarrow> i \<le> j \<Longrightarrow> j < 65536 \<Longrightarrow> hmap t (of_nat j) \<noteq> None"
proof (induction t i rule: lowest_from.induct)
  case (1 t i)
  then have i: "i < 65536" by simp
  then have occupied: "hmap t (of_nat i) \<noteq> None" and rest: "lowest_from t (i + 1) = None"
    using "1.prems"(1) by (subst (asm) lowest_from.simps; simp split: if_splits)+
  show ?case
  proof (cases "j = i")
    case False
    then have "i + 1 \<le> j" using "1.prems"(2) by simp
    then show ?thesis using "1.IH" [OF i _ rest] occupied "1.prems"(3) by blast
  qed (use occupied in simp)
qed

lemma lowest_free_ok:
  assumes "has_free t"
  obtains slot where "lowest_free t = Ok slot" "hmap t slot = None"
    "\<And>other. other < slot \<Longrightarrow> hmap t other \<noteq> None"
proof -
  obtain free where free: "hmap t free = None" using assms by (auto simp: has_free_def)
  have u: "unat free < 65536" using unsigned_less [of free] by simp
  have "lowest_from t 0 \<noteq> None"
  proof
    assume "lowest_from t 0 = None"
    from lowest_from_None [OF this _ u] free show False by simp
  qed
  then obtain k where k: "lowest_from t 0 = Some k" by blast
  note ks = lowest_from_Some [OF k]
  have uk: "unat (of_nat k :: u16) = k" using ks by (simp add: unsigned_of_nat take_bit_nat_eq_self)
  show ?thesis
  proof (rule that)
    show "lowest_free t = Ok (of_nat k)" by (simp add: lowest_free_def k)
    show "hmap t (of_nat k) = None" using ks by simp
    fix other :: u16
    assume "other < of_nat k"
    then have "unat other < k" using uk by (simp add: word_less_nat_alt)
    then have "hmap t (of_nat (unat other)) \<noteq> None" using ks by blast
    then show "hmap t other \<noteq> None" by simp
  qed
qed

lemma insert_ok:
  assumes "has_free t"
  obtains slot where "hmap t slot = None" "\<And>other. other < slot \<Longrightarrow> hmap t other \<noteq> None"
    "insert_with_rights obj rs t =
       (Ok (encode_handle slot 1), put_entry slot \<lparr>object = obj, rights = rs, generation = 1\<rparr> t)"
proof -
  obtain slot where "lowest_free t = Ok slot" "hmap t slot = None"
    "\<And>other. other < slot \<Longrightarrow> hmap t other \<noteq> None"
    using lowest_free_ok [OF assms] by blast
  then show ?thesis by (intro that [of slot]) (simp_all add: insert_with_rights_def)
qed

lemma get_handle_entry_iff:
  "get_handle_entry t h = Some e \<longleftrightarrow>
     hmap t (fst (decode_handle h)) = Some e \<and> generation e = snd (decode_handle h)"
  by (auto simp: get_handle_entry_def split: prod.splits option.splits)

lemma get_handle_entry_encode:
  "get_handle_entry t (encode_handle slot gen) =
     (case hmap t slot of Some e \<Rightarrow> if generation e = gen then Some e else None | None \<Rightarrow> None)"
  by (simp add: get_handle_entry_def)

section \<open>The capability-table interface\<close>

text \<open>What the clients of a handle table rely on: an insertion returns a handle that was not valid and
  now names the object with its rights, a removal takes the named entry out, and neither changes
  what other valid handles name.\<close>

locale capability_table =
  fixes lookup :: "'t \<Rightarrow> u32 \<Rightarrow> ('o \<times> u32) option"
    and ins :: "'o \<Rightarrow> u32 \<Rightarrow> ('t, u32) kmon"
    and del :: "u32 \<Rightarrow> 't \<Rightarrow> 't"
    and room :: "'t \<Rightarrow> bool"
  assumes ins_spec: "room t \<Longrightarrow> \<exists>h t'. ins obj rs t = (Ok h, t') \<and> lookup t h = None
      \<and> lookup t' h = Some (obj, rs) \<and> (\<forall>g. lookup t g \<noteq> None \<longrightarrow> lookup t' g = lookup t g)"
    and del_spec: "lookup (del h t) g = (if g = h then None else lookup t g)"
    and del_room: "lookup t h \<noteq> None \<Longrightarrow> room (del h t)"
begin

text \<open>Moving a capability to another table, as a message does: the sender loses it, the receiver
  gets a fresh handle with the same object and rights, and nothing else changes on either side.\<close>

lemma move:
  assumes "lookup src h = Some (obj, rs)" "room dst"
  shows "\<exists>h' dst'. ins obj rs dst = (Ok h', dst') \<and> lookup (del h src) h = None
    \<and> lookup dst' h' = Some (obj, rs)
    \<and> (\<forall>g. g \<noteq> h \<longrightarrow> lookup (del h src) g = lookup src g)
    \<and> (\<forall>g. lookup dst g \<noteq> None \<longrightarrow> lookup dst' g = lookup dst g)"
  using ins_spec [OF assms(2), of obj rs] by (auto simp: del_spec)

text \<open>Taking a capability out and putting it back keeps it available, with its rights.\<close>

lemma reinsert:
  assumes "lookup t h = Some (obj, rs)"
  shows "\<exists>h' t'. ins obj rs (del h t) = (Ok h', t') \<and> lookup t' h' = Some (obj, rs)
    \<and> (\<forall>g. g \<noteq> h \<longrightarrow> lookup t g \<noteq> None \<longrightarrow> lookup t' g = lookup t g)"
proof -
  have "room (del h t)" using del_room assms by simp
  from ins_spec [OF this, of obj rs] show ?thesis by (auto simp: del_spec)
qed

end

definition named :: "'o handle_table \<Rightarrow> u32 \<Rightarrow> ('o \<times> u32) option" where
  "named t h = map_option (\<lambda>e. (object e, rights e)) (get_handle_entry t h)"

definition del_handle :: "u32 \<Rightarrow> 'o handle_table \<Rightarrow> 'o handle_table" where
  "del_handle h t = snd (remove_entry h t)"

lemma get_handle_entry_put:
  "get_handle_entry (put_entry slot e t) h =
     (if fst (decode_handle h) = slot
      then if generation e = snd (decode_handle h) then Some e else None
      else get_handle_entry t h)"
  by (auto simp: get_handle_entry_def put_entry_def split: prod.splits)

lemma get_handle_entry_del:
  "get_handle_entry (del_handle h t) g = (if g = h then None else get_handle_entry t g)"
proof (cases "fst (decode_handle g) = fst (decode_handle h)")
  case True
  show ?thesis
  proof (cases "snd (decode_handle g) = snd (decode_handle h)")
    case same: True
    with True have "g = h" using encode_decode by (metis prod.collapse)
    then show ?thesis
      by (auto simp: get_handle_entry_def del_handle_def remove_entry_def Let_def split: prod.splits option.splits)
  next
    case False
    then have "g \<noteq> h" by auto
    with True False show ?thesis
      by (auto simp: get_handle_entry_def del_handle_def remove_entry_def Let_def split: prod.splits option.splits)
  qed
next
  case False
  then have "g \<noteq> h" by auto
  with False show ?thesis
    by (auto simp: get_handle_entry_def del_handle_def remove_entry_def Let_def split: prod.splits option.splits)
qed

interpretation cap: capability_table named insert_with_rights del_handle has_free
proof
  fix t :: "'o handle_table" and obj rs
  assume "has_free t"
  then obtain slot where slot: "hmap t slot = None"
    and ins: "insert_with_rights obj rs t =
       (Ok (encode_handle slot 1), put_entry slot \<lparr>object = obj, rights = rs, generation = 1\<rparr> t)"
    using insert_ok by metis
  have "named (put_entry slot e t) g = named t g" if "named t g \<noteq> None" for e g
    using that slot by (auto simp: named_def put_entry_def get_handle_entry_def
        split: prod.splits option.splits)
  then show "\<exists>h t'. insert_with_rights obj rs t = (Ok h, t') \<and> named t h = None
      \<and> named t' h = Some (obj, rs) \<and> (\<forall>g. named t g \<noteq> None \<longrightarrow> named t' g = named t g)"
    using slot by (auto simp: ins named_def get_handle_entry_encode get_handle_entry_put)
next
  fix h t and g :: u32
  show "named (del_handle h t) g = (if g = h then None else named t g)"
    by (simp add: named_def get_handle_entry_del)
next
  fix t :: "'o handle_table" and h
  assume "named t h \<noteq> None"
  then have "hmap (del_handle h t) (fst (decode_handle h)) = None"
    by (auto simp: named_def get_handle_entry_def del_handle_def remove_entry_def Let_def
        split: prod.splits option.splits if_splits)
  then show "has_free (del_handle h t)" unfolding has_free_def by blast
qed

section \<open>Properties\<close>

text \<open>C28: Insertion.  On a table that is not full, \<open>insert_with_rights\<close> returns a handle in the lowest free
  slot that was not valid before and now names the object with exactly the given rights; every
  handle that was valid names what it named.\<close>

theorem insert_then_lookup:
  assumes "has_free t"
  shows "\<exists>slot t'. insert_with_rights obj rs t = (Ok (encode_handle slot 1), t')
    \<and> hmap t slot = None \<and> (\<forall>other. other < slot \<longrightarrow> hmap t other \<noteq> None)
    \<and> named t' (encode_handle slot 1) = Some (obj, rs)
    \<and> (\<forall>g. named t g \<noteq> None \<longrightarrow> named t' g = named t g)"
proof -
  obtain slot where slot: "hmap t slot = None" "\<And>other. other < slot \<Longrightarrow> hmap t other \<noteq> None"
    and ins: "insert_with_rights obj rs t =
       (Ok (encode_handle slot 1), put_entry slot \<lparr>object = obj, rights = rs, generation = 1\<rparr> t)"
    using insert_ok [OF assms] by metis
  with cap.ins_spec [OF assms, of obj rs] show ?thesis by auto
qed

theorem insert_then_lookup_witness:
  "\<exists>slot t'. insert_with_rights CHR ''x'' READ HandleTable_new = (Ok (encode_handle slot 1), t')
    \<and> named t' (encode_handle slot 1) = Some (CHR ''x'', READ)"
  using insert_then_lookup [of HandleTable_new "CHR ''x''" READ]
  by (force simp: has_free_def HandleTable_new_def)



text \<open>The generation does not tell a recycled slot from its earlier use: closing a handle and inserting
  another object gives the same handle value again, so the stale handle names the new object.\<close>

theorem stale_handle_names_new_object:
  assumes "has_free t"
  shows "\<exists>h t1 t2 t3. handle_insert o1 t = (Ok h, t1) \<and> remove h t1 = (Some o1, t2)
    \<and> handle_insert o2 t2 = (Ok h, t3) \<and> get t3 h = Some o2"
proof -
  obtain slot where slot: "hmap t slot = None" "\<And>other. other < slot \<Longrightarrow> hmap t other \<noteq> None"
    and ins: "insert_with_rights o1 Rights_all t =
       (Ok (encode_handle slot 1), put_entry slot \<lparr>object = o1, rights = Rights_all, generation = 1\<rparr> t)"
    using insert_ok [OF assms] by metis
  let ?h = "encode_handle slot 1" and ?t1 = "put_entry slot \<lparr>object = o1, rights = Rights_all, generation = 1\<rparr> t"
  obtain t2 where t2: "remove ?h ?t1 = (Some o1, t2)" "hmap t2 = hmap t"
    using slot(1) by (auto simp: remove_def remove_entry_def put_entry_def fun_upd_idem)
  have "has_free t2" using slot(1) t2(2) by (auto simp: has_free_def)
  then obtain slot2 where s2: "hmap t2 slot2 = None" "\<And>other. other < slot2 \<Longrightarrow> hmap t2 other \<noteq> None"
    and ins2: "insert_with_rights o2 Rights_all t2 =
       (Ok (encode_handle slot2 1), put_entry slot2 \<lparr>object = o2, rights = Rights_all, generation = 1\<rparr> t2)"
    using insert_ok by metis
  have "slot2 = slot" using slot s2 t2(2) by (metis linorder_neqE)
  then show ?thesis
    using ins t2(1) ins2 by (auto simp: handle_insert_def get_def get_handle_entry_encode put_entry_def)
qed

theorem stale_handle_names_new_object_witness:
  "\<exists>h t1 t2 t3. handle_insert CHR ''a'' HandleTable_new = (Ok h, t1) \<and> remove h t1 = (Some CHR ''a'', t2)
    \<and> handle_insert CHR ''b'' t2 = (Ok h, t3) \<and> get t3 h = Some CHR ''b''"
  by (rule stale_handle_names_new_object) (simp add: has_free_def HandleTable_new_def)

text \<open>Duplicating a handle drops its restrictions: whatever the rights of the source (\<open>DUPLICATE\<close>
  included or not), the duplicate passes every rights check.\<close>

theorem dup_grants_all_rights:
  assumes "get_handle_entry t h = Some e" "has_free t"
  shows "\<exists>h' t'. dup h t = (Ok (Some h'), t')
    \<and> (\<forall>required. contains_rights Rights_all required \<longrightarrow> get_with_rights t' h' required = Inr (object e))"
proof -
  obtain slot where "insert_with_rights (object e) Rights_all t =
       (Ok (encode_handle slot 1), put_entry slot \<lparr>object = object e, rights = Rights_all, generation = 1\<rparr> t)"
    using insert_ok [OF assms(2)] by metis
  then show ?thesis
    using assms(1)
    by (auto simp: dup_def handle_insert_def get_with_rights_def get_handle_entry_encode put_entry_def)
qed

theorem dup_grants_all_rights_witness:
  "\<exists>h' t'. dup (encode_handle 0 1) (put_entry 0 \<lparr>object = CHR ''x'', rights = 0, generation = 1\<rparr> HandleTable_new)
      = (Ok (Some h'), t') \<and> get_with_rights t' h' WRITE = Inr CHR ''x''"
proof -
  let ?t = "put_entry 0 \<lparr>object = CHR ''x'', rights = 0, generation = 1\<rparr> HandleTable_new"
  have "get_handle_entry ?t (encode_handle 0 1) = Some \<lparr>object = CHR ''x'', rights = 0, generation = 1\<rparr>"
    by (simp add: get_handle_entry_encode put_entry_def)
  moreover have "has_free ?t"
    unfolding has_free_def by (rule exI [of _ 1]) (simp add: put_entry_def HandleTable_new_def)
  moreover have "contains_rights Rights_all WRITE"
    by (simp add: contains_rights_def Rights_all_def READ_def WRITE_def DUPLICATE_def TRANSFER_def)
  ultimately show ?thesis using dup_grants_all_rights by fastforce
qed

text \<open>\<open>close_on_exec\<close> closes exactly the handles marked close-on-exec.\<close>

theorem close_on_exec_exact:
  "get_handle_entry (close_on_exec t) h = (if is_cloexec t h then None else get_handle_entry t h)"
proof -
  obtain slot gen where d: "decode_handle h = (slot, gen)" by fastforce
  then have h: "encode_handle slot gen = h" by (rule encode_decode)
  show ?thesis
  proof (cases "hmap t slot")
    case None
    then show ?thesis by (simp add: get_handle_entry_def close_on_exec_def is_cloexec_def d)
  next
    case (Some e)
    then show ?thesis
      using h by (auto simp: get_handle_entry_def close_on_exec_def is_cloexec_def d)
  qed
qed

end
