(* ===== verification/Sched.thy ===== *)
theory Sched
  imports Prelude "HOL-Library.Multiset"
begin

text \<open>The scheduler's state and operations, \<open>src/posix/process.rs\<close>: the run queue by priority, the sleep
  queue, the choice of the next process, and the reference counts of shared page tables.  The run
  queue is the ordered map of the source as a list of buckets sorted by key.\<close>

section \<open>State\<close>

datatype proc_state = Running | Stopped | Zombie int

text \<open>\<open>canary_ok\<close>: the process has no kernel stack, or the canary at its bottom is intact.\<close>

record sproc =
  state :: proc_state
  priority :: int
  canary_ok :: bool

type_synonym run_queue = "(int \<times> pid list) list"

record sched =
  RUN_QUEUE :: run_queue
  PROCESS_TABLE :: "pid \<Rightarrow> sproc option"
  SLEEP_QUEUE :: "(pid \<times> u64) list"
  current_pid :: pid

definition PRIO_NORMAL :: int where "PRIO_NORMAL = 16"

section \<open>The run queue\<close>

fun rq_insert :: "pid \<Rightarrow> int \<Rightarrow> run_queue \<Rightarrow> run_queue" where
  "rq_insert p prio [] = [(prio, [p])]"
| "rq_insert p prio ((k, ps) # rq) =
     (if prio < k then (prio, [p]) # (k, ps) # rq
      else if prio = k then (k, ps @ [p]) # rq
      else (k, ps) # rq_insert p prio rq)"

definition enqueue_with_prio :: "pid \<Rightarrow> int \<Rightarrow> sched \<Rightarrow> sched" where
  "enqueue_with_prio p prio s = s\<lparr>RUN_QUEUE := rq_insert p prio (RUN_QUEUE s)\<rparr>"

definition enqueue :: "pid \<Rightarrow> sched \<Rightarrow> sched" where
  "enqueue p s =
     (let prio = (case PROCESS_TABLE s p of Some pr \<Rightarrow> priority pr | None \<Rightarrow> PRIO_NORMAL)
      in enqueue_with_prio p prio s)"

text \<open>The block of \<open>schedule\<close> that pops from the first bucket.\<close>

fun rq_pop :: "run_queue \<Rightarrow> pid option \<times> run_queue" where
  "rq_pop [] = (None, [])"
| "rq_pop ((k, []) # rq) = (None, rq)"
| "rq_pop ((k, p # ps) # rq) = (Some p, if ps = [] then rq else (k, ps) # rq)"

definition rq_wf :: "run_queue \<Rightarrow> bool" where
  "rq_wf rq \<longleftrightarrow> sorted_wrt (<) (map fst rq) \<and> (\<forall>(k, ps) \<in> set rq. ps \<noteq> [])"

definition bucket :: "run_queue \<Rightarrow> int \<Rightarrow> pid list" where
  "bucket rq k = (case map_of rq k of Some ps \<Rightarrow> ps | None \<Rightarrow> [])"

definition rq_size :: "run_queue \<Rightarrow> nat" where
  "rq_size rq = sum_list (map (\<lambda>(_, ps). Suc (length ps)) rq)"

lemma rq_pop_smaller: "rq \<noteq> [] \<Longrightarrow> rq_size (snd (rq_pop rq)) < rq_size rq"
  by (cases rq rule: rq_pop.cases) (auto simp: rq_size_def)

section \<open>Choosing the next process\<close>

datatype choice = Run pid | Idle | Overflow pid

text \<open>\<open>schedule\<close> up to the context switch or the wait for an interrupt: unknown and dead processes are
  dropped from the queue, a broken canary panics.\<close>

function schedule :: "sched \<Rightarrow> choice \<times> sched" where
  "schedule s =
     (if RUN_QUEUE s = [] then (Idle, s\<lparr>current_pid := 0\<rparr>)
      else
        let (next, rq) = rq_pop (RUN_QUEUE s); s1 = s\<lparr>RUN_QUEUE := rq\<rparr> in
        (case next of
           None \<Rightarrow> (Idle, s1\<lparr>current_pid := 0\<rparr>)
         | Some p \<Rightarrow>
             (case PROCESS_TABLE s1 p of
                None \<Rightarrow> schedule s1
              | Some pr \<Rightarrow>
                  (case state pr of
                     Zombie _ \<Rightarrow> schedule s1
                   | _ \<Rightarrow>
                       if \<not> canary_ok pr then (Overflow p, s1)
                       else (Run p, s1\<lparr>PROCESS_TABLE := (PROCESS_TABLE s1)(p \<mapsto> pr\<lparr>state := Running\<rparr>),
                                       current_pid := p\<rparr>)))))"
  by pat_completeness auto
termination
proof (relation "measure (\<lambda>s. rq_size (RUN_QUEUE s))", simp, goal_cases)
  case (1 s x xa xb xc xd)
  then show ?case using rq_pop_smaller [of "RUN_QUEUE s"] by (metis in_measure select_convs(1) snd_conv surjective update_convs(1))
next
  case (2 s x xa xb xc xd xe xf)
  then show ?case using rq_pop_smaller [of "RUN_QUEUE s"] by (metis in_measure select_convs(1) snd_conv surjective update_convs(1))
qed

declare schedule.simps [simp del]

section \<open>Sleeping\<close>

text \<open>\<open>Vec::swap_remove\<close>: the last element takes the place of the removed one.\<close>

definition swap_remove :: "nat \<Rightarrow> 'a list \<Rightarrow> 'a list" where
  "swap_remove i xs = (if i = length xs - 1 then butlast xs else (butlast xs)[i := last xs])"

lemma length_swap_remove [simp]: "length (swap_remove i xs) = length xs - 1"
  by (simp add: swap_remove_def)

definition wake_one :: "pid \<Rightarrow> sched \<Rightarrow> sched" where
  "wake_one p s =
     (case PROCESS_TABLE s p of
        None \<Rightarrow> s
      | Some pr \<Rightarrow>
          enqueue_with_prio p (priority pr)
            (s\<lparr>PROCESS_TABLE := (PROCESS_TABLE s)(p \<mapsto> pr\<lparr>state := Running\<rparr>)\<rparr>))"

function wake_loop :: "u64 \<Rightarrow> nat \<Rightarrow> (pid \<times> u64) list \<Rightarrow> sched \<Rightarrow> (pid \<times> u64) list \<times> sched" where
  "wake_loop now i sq s =
     (if i < length sq then
        if snd (sq ! i) \<le> now then wake_loop now i (swap_remove i sq) (wake_one (fst (sq ! i)) s)
        else wake_loop now (i + 1) sq s
      else (sq, s))"
  by pat_completeness auto
termination by (relation "measure (\<lambda>(now, i, sq, s). length sq - i)") auto

declare wake_loop.simps [simp del]

definition wake_sleepers :: "u64 \<Rightarrow> sched \<Rightarrow> sched" where
  "wake_sleepers now s =
     (case wake_loop now 0 (SLEEP_QUEUE s) s of (sq, s1) \<Rightarrow> s1\<lparr>SLEEP_QUEUE := sq\<rparr>)"

section \<open>Shared page tables\<close>

type_synonym satp_refs = "usize \<Rightarrow> nat option"

definition satp_share :: "usize \<Rightarrow> satp_refs \<Rightarrow> satp_refs" where
  "satp_share root m = m(root \<mapsto> (case m root of Some c \<Rightarrow> c | None \<Rightarrow> 1) + 1)"

definition satp_unshare :: "usize \<Rightarrow> satp_refs \<Rightarrow> bool \<times> satp_refs" where
  "satp_unshare root m =
     (case m root of
        Some c \<Rightarrow> if c - 1 = 0 then (True, m(root := None)) else (False, m(root \<mapsto> c - 1))
      | None \<Rightarrow> (True, m))"

section \<open>The run queue is a priority queue of first-in first-out buckets\<close>

lemma bucket_Nil [simp]: "bucket [] k = []"
  by (simp add: bucket_def)

lemma bucket_Cons: "bucket ((k, ps) # rq) j = (if j = k then ps else bucket rq j)"
  by (simp add: bucket_def)

lemma rq_wf_Cons:
  "rq_wf ((k, ps) # rq) \<longleftrightarrow> rq_wf rq \<and> ps \<noteq> [] \<and> (\<forall>j \<in> fst ` set rq. k < j)"
  by (auto simp: rq_wf_def)

lemma bucket_below: "rq_wf rq \<Longrightarrow> \<forall>j \<in> fst ` set rq. k < j \<Longrightarrow> bucket rq k = []"
  by (auto simp: bucket_def dest!: map_of_SomeD split: option.splits)

lemma rq_insert_keys: "fst ` set (rq_insert p prio rq) = insert prio (fst ` set rq)"
  by (induction p prio rq rule: rq_insert.induct) auto

lemma rq_insert_wf: "rq_wf rq \<Longrightarrow> rq_wf (rq_insert p prio rq)"
proof (induction p prio rq rule: rq_insert.induct)
  case (2 p prio k ps rq)
  then show ?case by (auto simp: rq_wf_Cons rq_insert_keys)
qed (simp add: rq_wf_def)

lemma rq_insert_bucket:
  "rq_wf rq \<Longrightarrow> bucket (rq_insert p prio rq) j = (if j = prio then bucket rq j @ [p] else bucket rq j)"
proof (induction p prio rq rule: rq_insert.induct)
  case (2 p prio k ps rq)
  have "bucket ((k, ps) # rq) prio = []" if "prio < k"
    using that 2(2) by (intro bucket_below) (auto simp: rq_wf_Cons)
  with 2 show ?case by (auto simp: bucket_Cons rq_wf_Cons)
qed (simp add: bucket_Cons)

lemma rq_pop_spec:
  assumes "rq_wf rq" "rq \<noteq> []"
  obtains p k ps rq' where "rq_pop rq = (Some p, rq')" "rq_wf rq'" "bucket rq k = p # ps"
    "\<forall>j < k. bucket rq j = []" "bucket rq' = (bucket rq)(k := ps)"
proof -
  obtain k bs rest where rq: "rq = (k, bs) # rest" using assms(2) by (cases rq) auto
  obtain p ps where bs: "bs = p # ps" using assms(1) rq by (cases bs) (auto simp: rq_wf_Cons)
  have wf: "rq_wf rest" and above: "\<forall>j \<in> fst ` set rest. k < j"
    using assms(1) rq by (auto simp: rq_wf_Cons)
  have empty: "bucket rest k = []" by (rule bucket_below [OF wf above])
  show ?thesis
  proof (rule that)
    show "rq_pop rq = (Some p, if ps = [] then rest else (k, ps) # rest)" by (simp add: rq bs)
    show "rq_wf (if ps = [] then rest else (k, ps) # rest)" using wf above by (simp add: rq_wf_Cons)
    show "bucket rq k = p # ps" by (simp add: rq bs bucket_Cons)
    have "bucket rq j = []" if "j < k" for j
      using that by (intro bucket_below [OF assms(1)]) (use above in \<open>auto simp: rq\<close>)
    then show "\<forall>j < k. bucket rq j = []" by simp
    show "bucket (if ps = [] then rest else (k, ps) # rest) = (bucket rq)(k := ps)"
      using empty by (auto simp: fun_eq_iff rq bucket_Cons)
  qed
qed

section \<open>What \<open>schedule\<close> chooses\<close>

definition dead :: "sched \<Rightarrow> pid \<Rightarrow> bool" where
  "dead s q \<longleftrightarrow> (case PROCESS_TABLE s q of None \<Rightarrow> True | Some pr \<Rightarrow> (\<exists>c. state pr = Zombie c))"

text \<open>\<open>first_live rq D p k post\<close>: \<open>p\<close> is the first entry outside \<open>D\<close> in the order of the queue.\<close>

definition first_live :: "run_queue \<Rightarrow> (pid \<Rightarrow> bool) \<Rightarrow> pid \<Rightarrow> int \<Rightarrow> pid list \<Rightarrow> bool" where
  "first_live rq D p k post \<longleftrightarrow>
     (\<exists>pre. bucket rq k = pre @ p # post \<and> (\<forall>q \<in> set pre. D q)) \<and> \<not> D p
   \<and> (\<forall>j < k. \<forall>q \<in> set (bucket rq j). D q)"

lemma schedule_dead_step:
  assumes "rq_pop (RUN_QUEUE s) = (Some p, rq)" "RUN_QUEUE s \<noteq> []" "dead s p"
  shows "schedule s = schedule (s\<lparr>RUN_QUEUE := rq\<rparr>)"
  using assms by (subst schedule.simps) (auto simp: dead_def Let_def split: option.splits)

lemma schedule_live_step:
  assumes "rq_pop (RUN_QUEUE s) = (Some p, rq)" "RUN_QUEUE s \<noteq> []" "PROCESS_TABLE s p = Some pr" "\<not> dead s p"
  shows "schedule s =
    (if canary_ok pr
     then (Run p, s\<lparr>RUN_QUEUE := rq, PROCESS_TABLE := (PROCESS_TABLE s)(p \<mapsto> pr\<lparr>state := Running\<rparr>), current_pid := p\<rparr>)
     else (Overflow p, s\<lparr>RUN_QUEUE := rq\<rparr>))"
  using assms by (subst schedule.simps) (auto simp: dead_def Let_def split: proc_state.splits)

text \<open>What the result of \<open>schedule\<close> means: the chosen process is the first live one, everything behind
  it is still queued, and the hart idles only when nothing queued is alive.\<close>

definition schedule_ok :: "sched \<Rightarrow> choice \<Rightarrow> sched \<Rightarrow> bool" where
  "schedule_ok s c s' \<longleftrightarrow>
     (case c of
        Idle \<Rightarrow> (\<forall>k. \<forall>q \<in> set (bucket (RUN_QUEUE s) k). dead s q) \<and> current_pid s' = 0
      | Run p \<Rightarrow> (\<exists>k post. first_live (RUN_QUEUE s) (dead s) p k post
          \<and> bucket (RUN_QUEUE s') k = post \<and> (\<forall>j > k. bucket (RUN_QUEUE s') j = bucket (RUN_QUEUE s) j)
          \<and> current_pid s' = p \<and> map_option state (PROCESS_TABLE s' p) = Some Running)
      | Overflow p \<Rightarrow> \<not> dead s p \<and> map_option canary_ok (PROCESS_TABLE s p) = Some False)"

lemma first_live_Cons:
  assumes b: "bucket rq0 k = p # ps" "\<forall>j < k. bucket rq0 j = []"
    and rq: "bucket rq = (bucket rq0)(k := ps)" and D: "D p" and fl: "first_live rq D q i post"
  shows "k \<le> i" "first_live rq0 D q i post"
proof -
  obtain pre where pre: "bucket rq i = pre @ q # post" "\<forall>q \<in> set pre. D q" and q: "\<not> D q"
    and low: "\<forall>j < i. \<forall>q \<in> set (bucket rq j). D q"
    using fl unfolding first_live_def by blast
  show "k \<le> i"
  proof (rule ccontr)
    assume "\<not> k \<le> i"
    then have "bucket rq i = []" using b(2) rq by simp
    with pre(1) show False by simp
  qed
  have "\<forall>q \<in> set (bucket rq0 j). D q" if "j < i" for j
    using low that b(1) rq D by (cases "j = k") auto
  moreover have "\<exists>pre. bucket rq0 i = pre @ q # post \<and> (\<forall>q \<in> set pre. D q)"
  proof (cases "i = k")
    case True
    then show ?thesis using b(1) rq pre D by (intro exI [of _ "p # pre"]) simp
  next
    case False
    then show ?thesis using rq pre by (intro exI [of _ pre]) simp
  qed
  ultimately show "first_live rq0 D q i post" using q unfolding first_live_def by blast
qed

lemma schedule_ok_dead:
  assumes b: "bucket (RUN_QUEUE s) k = p # ps" "\<forall>j < k. bucket (RUN_QUEUE s) j = []"
    and rq: "bucket rq = (bucket (RUN_QUEUE s))(k := ps)" and D: "dead s p"
    and ok: "schedule_ok (s\<lparr>RUN_QUEUE := rq\<rparr>) c s'"
  shows "schedule_ok s c s'"
proof -
  have d: "dead (s\<lparr>RUN_QUEUE := rq\<rparr>) = dead s" by (simp add: dead_def fun_eq_iff)
  show ?thesis
  proof (cases c)
    case (Run q)
    then obtain i post where i: "first_live rq (dead s) q i post" "bucket (RUN_QUEUE s') i = post"
      "\<forall>j > i. bucket (RUN_QUEUE s') j = bucket rq j"
      "current_pid s' = q" "map_option state (PROCESS_TABLE s' q) = Some Running"
      using ok d unfolding schedule_ok_def by auto
    note fl = first_live_Cons [OF b rq D i(1)]
    have "\<forall>j > i. bucket (RUN_QUEUE s') j = bucket (RUN_QUEUE s) j" using i(3) rq fl(1) by simp
    with i fl(2) show ?thesis unfolding schedule_ok_def Run choice.case by blast
  next
    case Idle
    have "\<forall>q \<in> set (bucket (RUN_QUEUE s) j). dead s q" if "\<forall>q \<in> set (bucket rq j). dead s q" for j
      using that b(1) rq D by (cases "j = k") auto
    then show ?thesis using ok Idle d by (simp add: schedule_ok_def)
  next
    case (Overflow q)
    then show ?thesis using ok d by (simp add: schedule_ok_def)
  qed
qed

lemma schedule_ok_live:
  assumes wf: "rq_pop (RUN_QUEUE s) = (Some p, rq)" "RUN_QUEUE s \<noteq> []"
    and b: "bucket (RUN_QUEUE s) k = p # ps" "\<forall>j < k. bucket (RUN_QUEUE s) j = []"
    and rq: "bucket rq = (bucket (RUN_QUEUE s))(k := ps)" and D: "\<not> dead s p"
  shows "schedule_ok s (fst (schedule s)) (snd (schedule s))"
proof -
  obtain pr where pr: "PROCESS_TABLE s p = Some pr" using D by (auto simp: dead_def split: option.splits)
  have "\<exists>pre. bucket (RUN_QUEUE s) k = pre @ p # ps \<and> (\<forall>q \<in> set pre. dead s q)"
    using b(1) by (intro exI [of _ "[]"]) simp
  then have fl: "first_live (RUN_QUEUE s) (dead s) p k ps" using D b(2) unfolding first_live_def by simp
  show ?thesis
  proof (cases "canary_ok pr")
    case True
    show ?thesis unfolding schedule_live_step [OF wf pr D] schedule_ok_def
      using True fl rq by (auto intro: exI [of _ k])
  next
    case False
    then show ?thesis unfolding schedule_live_step [OF wf pr D] schedule_ok_def using D pr by simp
  qed
qed

lemma schedule_spec: "rq_wf (RUN_QUEUE s) \<Longrightarrow> schedule_ok s (fst (schedule s)) (snd (schedule s))"
proof (induction "rq_size (RUN_QUEUE s)" arbitrary: s rule: less_induct)
  case less
  show ?case
  proof (cases "RUN_QUEUE s = []")
    case True
    then show ?thesis by (simp add: schedule.simps [of s] schedule_ok_def)
  next
    case False
    obtain p k ps rq where pop: "rq_pop (RUN_QUEUE s) = (Some p, rq)" "rq_wf rq"
      and b: "bucket (RUN_QUEUE s) k = p # ps" "\<forall>j < k. bucket (RUN_QUEUE s) j = []"
      and b': "bucket rq = (bucket (RUN_QUEUE s))(k := ps)"
      by (rule rq_pop_spec [OF less.prems False])
    show ?thesis
    proof (cases "dead s p")
      case True
      let ?s1 = "s\<lparr>RUN_QUEUE := rq\<rparr>"
      have "rq_size (RUN_QUEUE ?s1) < rq_size (RUN_QUEUE s)" using rq_pop_smaller [OF False] pop(1) by simp
      then have "schedule_ok ?s1 (fst (schedule ?s1)) (snd (schedule ?s1))"
        by (rule less.hyps) (simp add: pop(2))
      from schedule_ok_dead [OF b b' True this] show ?thesis
        unfolding schedule_dead_step [OF pop(1) False True] .
    next
      case live: False
      show ?thesis by (rule schedule_ok_live [OF pop(1) False b b' live])
    qed
  qed
qed

section \<open>What \<open>wake_sleepers\<close> does\<close>

lemma mset_swap_remove:
  assumes "i < length xs"
  shows "add_mset (xs ! i) (mset (swap_remove i xs)) = mset xs"
proof -
  have xs: "xs = butlast xs @ [last xs]" using assms by (cases xs rule: rev_cases) auto
  show ?thesis
  proof (cases "i = length xs - 1")
    case True
    then have "xs ! i = last xs" using assms last_conv_nth [of xs] by (cases xs) auto
    moreover have "mset xs = add_mset (last xs) (mset (butlast xs))" by (subst xs) simp
    ultimately show ?thesis using True by (simp add: swap_remove_def)
  next
    case False
    then have i: "i < length (butlast xs)" using assms by simp
    then have "xs ! i = butlast xs ! i" by (simp add: nth_butlast)
    moreover have "mset xs = add_mset (last xs) (mset (butlast xs))" by (subst xs) simp
    ultimately show ?thesis using False i by (simp add: swap_remove_def mset_update)
  qed
qed

lemma nth_swap_remove: "j < i \<Longrightarrow> i < length xs \<Longrightarrow> swap_remove i xs ! j = xs ! j"
  by (simp add: swap_remove_def nth_butlast)

lemma wake_loop_spec:
  assumes "\<forall>j < i. now < snd (sq ! j)" "i \<le> length sq"
  shows "mset (fst (wake_loop now i sq s)) = filter_mset (\<lambda>x. now < snd x) (mset sq)
    \<and> (\<exists>ps. mset ps = image_mset fst (filter_mset (\<lambda>x. snd x \<le> now) (mset sq))
         \<and> snd (wake_loop now i sq s) = fold wake_one ps s)"
  using assms
proof (induction now i sq s rule: wake_loop.induct)
  case (1 now i sq s)
  note simps = wake_loop.simps [of now i sq s]
  consider (over) "i = length sq" | (wake) "i < length sq" "snd (sq ! i) \<le> now"
    | (keep) "i < length sq" "\<not> snd (sq ! i) \<le> now"
    using 1(4) by force
  then show ?case
  proof cases
    case over
    then have "\<forall>x \<in> set sq. now < snd x" using 1(3) by (metis in_set_conv_nth)
    then have all: "\<forall>x \<in># mset sq. now < snd x" by simp
    have e: "filter_mset (\<lambda>x. now < snd x) (mset sq) = mset sq"
      using all by (simp add: filter_mset_eq_conv)
    have n: "filter_mset (\<lambda>x. snd x \<le> now) (mset sq) = {#}"
      using all by (intro multiset_eqI) (auto simp: count_eq_zero_iff)
    show ?thesis using over unfolding simps e n by (auto intro: exI [of _ "[]"])
  next
    case wake
    let ?sq = "swap_remove i sq" and ?s = "wake_one (fst (sq ! i)) s"
    have m: "mset sq = add_mset (sq ! i) (mset ?sq)" using mset_swap_remove [OF wake(1)] by simp
    have eq: "wake_loop now i sq s = wake_loop now i ?sq ?s" using wake by (subst simps) simp
    have "\<forall>j < i. now < snd (?sq ! j)" "i \<le> length ?sq" using 1(3) wake(1) by (auto simp: nth_swap_remove)
    from 1(1) [OF wake this] obtain ps where
      "mset (fst (wake_loop now i ?sq ?s)) = filter_mset (\<lambda>x. now < snd x) (mset ?sq)"
      "mset ps = image_mset fst (filter_mset (\<lambda>x. snd x \<le> now) (mset ?sq))"
      "snd (wake_loop now i ?sq ?s) = fold wake_one ps ?s" by blast
    then show ?thesis unfolding eq m using wake(2) by (auto intro!: exI [of _ "fst (sq ! i) # ps"])
  next
    case keep
    have eq: "wake_loop now i sq s = wake_loop now (i + 1) sq s" using keep by (subst simps) simp
    have "\<forall>j < i + 1. now < snd (sq ! j)" "i + 1 \<le> length sq"
      using 1(3) keep by (auto simp: less_Suc_eq)
    from 1(2) [OF keep this] show ?thesis unfolding eq .
  qed
qed

lemma wake_one_simps [simp]:
  "PROCESS_TABLE (wake_one p s) q =
     (if q = p then map_option (\<lambda>pr. pr\<lparr>state := Running\<rparr>) (PROCESS_TABLE s p) else PROCESS_TABLE s q)"
  "SLEEP_QUEUE (wake_one p s) = SLEEP_QUEUE s"
  "RUN_QUEUE (wake_one p s) =
     (case PROCESS_TABLE s p of None \<Rightarrow> RUN_QUEUE s | Some pr \<Rightarrow> rq_insert p (priority pr) (RUN_QUEUE s))"
  by (simp_all add: wake_one_def enqueue_with_prio_def split: option.splits)

lemma wake_fold_table:
  "PROCESS_TABLE (fold wake_one ps s) q =
     (if q \<in> set ps then map_option (\<lambda>pr. pr\<lparr>state := Running\<rparr>) (PROCESS_TABLE s q) else PROCESS_TABLE s q)"
  by (induction ps arbitrary: s) (auto simp: option.map_comp comp_def)

lemma wake_fold_wf: "rq_wf (RUN_QUEUE s) \<Longrightarrow> rq_wf (RUN_QUEUE (fold wake_one ps s))"
  by (induction ps arbitrary: s) (auto simp: rq_insert_wf split: option.splits)

lemma wake_fold_bucket:
  assumes "rq_wf (RUN_QUEUE s)"
  shows "bucket (RUN_QUEUE (fold wake_one ps s)) k =
    bucket (RUN_QUEUE s) k @ filter (\<lambda>p. map_option priority (PROCESS_TABLE s p) = Some k) ps"
  using assms
proof (induction ps arbitrary: s)
  case (Cons p ps)
  have "map_option priority (PROCESS_TABLE (wake_one p s) q) = map_option priority (PROCESS_TABLE s q)" for q
    by (simp add: option.map_comp comp_def)
  moreover have "rq_wf (RUN_QUEUE (wake_one p s))" using Cons.prems by (simp add: rq_insert_wf split: option.splits)
  ultimately show ?case
    using Cons.IH [of "wake_one p s"] Cons.prems by (auto simp: rq_insert_bucket split: option.splits)
qed simp

lemma wake_sleepers_cases:
  obtains ps where
    "mset ps = image_mset fst (filter_mset (\<lambda>x. snd x \<le> now) (mset (SLEEP_QUEUE s)))"
    "mset (SLEEP_QUEUE (wake_sleepers now s)) = filter_mset (\<lambda>x. now < snd x) (mset (SLEEP_QUEUE s))"
    "RUN_QUEUE (wake_sleepers now s) = RUN_QUEUE (fold wake_one ps s)"
    "PROCESS_TABLE (wake_sleepers now s) = PROCESS_TABLE (fold wake_one ps s)"
proof -
  from wake_loop_spec [of 0 now "SLEEP_QUEUE s" s] obtain ps where
    "mset (fst (wake_loop now 0 (SLEEP_QUEUE s) s)) = filter_mset (\<lambda>x. now < snd x) (mset (SLEEP_QUEUE s))"
    "mset ps = image_mset fst (filter_mset (\<lambda>x. snd x \<le> now) (mset (SLEEP_QUEUE s)))"
    "snd (wake_loop now 0 (SLEEP_QUEUE s) s) = fold wake_one ps s" by auto
  then show ?thesis by (intro that [of ps]) (auto simp: wake_sleepers_def split: prod.splits)
qed

section \<open>Properties of the scheduler\<close>

definition sample_sched :: sched where
  "sample_sched = \<lparr>RUN_QUEUE = [(8, [5]), (16, [2, 3])],
     PROCESS_TABLE = [2 \<mapsto> \<lparr>state = Stopped, priority = 16, canary_ok = True\<rparr>,
                      5 \<mapsto> \<lparr>state = Zombie 1, priority = 8, canary_ok = True\<rparr>],
     SLEEP_QUEUE = [(5, 10), (2, 20)], current_pid = 7\<rparr>"

lemma sample_sched_wf: "rq_wf (RUN_QUEUE sample_sched)"
  by (simp add: sample_sched_def rq_wf_def)

text \<open>C30: The scheduler runs the first live process of the lowest priority number that has one, leaves
  everything behind it queued, marks it running and current, and idles only when no queued process
  is alive; a broken canary is reported only for a live process.\<close>

theorem schedule_picks_first_live:
  assumes "rq_wf (RUN_QUEUE s)"
  shows "schedule_ok s (fst (schedule s)) (snd (schedule s))"
  using assms by (rule schedule_spec)

theorem schedule_picks_first_live_witness:
  "rq_wf (RUN_QUEUE sample_sched)
   \<and> schedule_ok sample_sched (fst (schedule sample_sched)) (snd (schedule sample_sched))
   \<and> fst (schedule sample_sched) = Run 2"
proof -
  have "schedule sample_sched = schedule (sample_sched\<lparr>RUN_QUEUE := [(16, [2, 3])]\<rparr>)"
    by (subst schedule.simps) (simp add: sample_sched_def)
  moreover have "fst (schedule (sample_sched\<lparr>RUN_QUEUE := [(16, [2, 3])]\<rparr>)) = Run 2"
    by (subst schedule.simps) (simp add: sample_sched_def)
  ultimately show ?thesis using sample_sched_wf schedule_picks_first_live [OF sample_sched_wf] by simp
qed

text \<open>C31: A timer tick removes exactly the expired sleepers from the sleep queue, marks each known one
  running, appends it to the bucket of its priority behind what was queued there, and changes no
  other process; the run queue stays well-formed.\<close>

theorem wake_sleepers_wakes_expired:
  assumes "rq_wf (RUN_QUEUE s)"
  shows "mset (SLEEP_QUEUE (wake_sleepers now s)) = filter_mset (\<lambda>x. now < snd x) (mset (SLEEP_QUEUE s))
    \<and> rq_wf (RUN_QUEUE (wake_sleepers now s))
    \<and> (\<forall>k. \<exists>woken. bucket (RUN_QUEUE (wake_sleepers now s)) k = bucket (RUN_QUEUE s) k @ woken
         \<and> mset woken = filter_mset (\<lambda>p. map_option priority (PROCESS_TABLE s p) = Some k)
             (image_mset fst (filter_mset (\<lambda>x. snd x \<le> now) (mset (SLEEP_QUEUE s)))))
    \<and> (\<forall>p. PROCESS_TABLE (wake_sleepers now s) p =
         (if \<exists>t \<le> now. (p, t) \<in> set (SLEEP_QUEUE s)
          then map_option (\<lambda>pr. pr\<lparr>state := Running\<rparr>) (PROCESS_TABLE s p) else PROCESS_TABLE s p))"
proof -
  obtain ps where ps: "mset ps = image_mset fst (filter_mset (\<lambda>x. snd x \<le> now) (mset (SLEEP_QUEUE s)))"
    "mset (SLEEP_QUEUE (wake_sleepers now s)) = filter_mset (\<lambda>x. now < snd x) (mset (SLEEP_QUEUE s))"
    and rq: "RUN_QUEUE (wake_sleepers now s) = RUN_QUEUE (fold wake_one ps s)"
    and pt: "PROCESS_TABLE (wake_sleepers now s) = PROCESS_TABLE (fold wake_one ps s)"
    by (rule wake_sleepers_cases)
  have "set ps = set_mset (image_mset fst (filter_mset (\<lambda>x. snd x \<le> now) (mset (SLEEP_QUEUE s))))"
    using arg_cong [OF ps(1), of set_mset] by simp
  then have mem: "p \<in> set ps \<longleftrightarrow> (\<exists>t \<le> now. (p, t) \<in> set (SLEEP_QUEUE s))" for p by force
  have "\<exists>woken. bucket (RUN_QUEUE (wake_sleepers now s)) k = bucket (RUN_QUEUE s) k @ woken
      \<and> mset woken = filter_mset (\<lambda>p. map_option priority (PROCESS_TABLE s p) = Some k)
          (image_mset fst (filter_mset (\<lambda>x. snd x \<le> now) (mset (SLEEP_QUEUE s))))" for k
    unfolding rq wake_fold_bucket [OF assms] ps(1) [symmetric]
    by (intro exI [of _ "filter (\<lambda>p. map_option priority (PROCESS_TABLE s p) = Some k) ps"]) simp
  with ps(2) show ?thesis
    unfolding pt wake_fold_table mem using wake_fold_wf [OF assms, of ps] rq by simp
qed

theorem wake_sleepers_wakes_expired_witness:
  "rq_wf (RUN_QUEUE sample_sched) \<and> mset (SLEEP_QUEUE (wake_sleepers 15 sample_sched)) = {#(2, 20)#}"
  using wake_sleepers_wakes_expired [OF sample_sched_wf, of 15] sample_sched_wf by (simp add: sample_sched_def)

text \<open>A process that is killed while it sleeps comes back: its queue entry is still there, so when the
  entry expires the zombie is marked running again and, with nothing queued before it, is the process
  the scheduler runs next.\<close>

theorem killed_sleeper_runs_again:
  assumes "PROCESS_TABLE s p = Some pr" "state pr = Zombie c" "canary_ok pr"
    "SLEEP_QUEUE s = [(p, t)]" "t \<le> now" "RUN_QUEUE s = []"
  shows "fst (schedule s) = Idle \<and> fst (schedule (wake_sleepers now s)) = Run p"
proof -
  have "fst (schedule s) = Idle" using assms(6) by (subst schedule.simps) simp
  moreover have "wake_sleepers now s = (wake_one p s)\<lparr>SLEEP_QUEUE := []\<rparr>"
    using assms by (simp add: wake_sleepers_def wake_loop.simps [of now 0 "[_]"] wake_loop.simps [of now 0 "[]"] swap_remove_def)
  then have "fst (schedule (wake_sleepers now s)) = Run p"
    using assms by (subst schedule.simps) (simp add: Let_def)
  ultimately show ?thesis by simp
qed

theorem killed_sleeper_runs_again_witness:
  "fst (schedule (wake_sleepers 15 (sample_sched\<lparr>RUN_QUEUE := [], SLEEP_QUEUE := [(5, 10)]\<rparr>))) = Run 5"
  using killed_sleeper_runs_again [of "sample_sched\<lparr>RUN_QUEUE := [], SLEEP_QUEUE := [(5, 10)]\<rparr>" 5 _ 1 10 15]
  by (simp add: sample_sched_def)

text \<open>\<open>n\<close> releases in a row, with what each of them returned.\<close>

primrec releases :: "nat \<Rightarrow> usize \<Rightarrow> satp_refs \<Rightarrow> bool list \<times> satp_refs" where
  "releases 0 root m = ([], m)"
| "releases (Suc n) root m =
     (let (b, m1) = satp_unshare root m; (bs, m2) = releases n root m1 in (b # bs, m2))"

lemma shares: "m root = None \<Longrightarrow> (satp_share root ^^ n) m = (if n = 0 then m else m(root \<mapsto> n + 1))"
  by (induction n) (auto simp: satp_share_def)

lemma releases_counted:
  "m root = Some (Suc n) \<Longrightarrow> releases (Suc n) root m = (replicate n False @ [True], m(root := None))"
proof (induction n arbitrary: m)
  case 0
  then show ?case by (simp add: satp_unshare_def fun_upd_def)
next
  case (Suc n)
  have u: "satp_unshare root m = (False, m(root \<mapsto> Suc n))" using Suc.prems by (simp add: satp_unshare_def)
  have "releases (Suc n) root (m(root \<mapsto> Suc n)) = (replicate n False @ [True], m(root := None))"
    by (subst Suc.IH) simp_all
  then show ?case unfolding releases.simps(2) [of "Suc n"] u by (simp del: releases.simps add: fun_upd_def)
qed

text \<open>A page table shared by \<open>n\<close> further threads is freed by exactly the last of its \<open>n + 1\<close> owners:
  each earlier release says other owners remain, the last one says to free it and forgets the table.\<close>

theorem last_owner_frees:
  assumes "m root = None"
  shows "releases (Suc n) root ((satp_share root ^^ n) m) = (replicate n False @ [True], m)"
proof (cases "n = 0")
  case True
  then show ?thesis using assms by (simp add: satp_unshare_def)
next
  case False
  have "releases (Suc n) root (m(root \<mapsto> Suc n)) = (replicate n False @ [True], m(root := None))"
    by (subst releases_counted) simp_all
  moreover have "m(root := None) = m" using assms by (simp add: fun_eq_iff)
  ultimately show ?thesis using False shares [where m = m and root = root and n = n] assms by (simp del: releases.simps)
qed

theorem last_owner_frees_witness:
  "releases 3 0x80400000 ((satp_share 0x80400000 ^^ 2) (\<lambda>_. None)) = ([False, False, True], \<lambda>_. None)"
  using last_owner_frees [of "\<lambda>_. None" "0x80400000" 2] by (simp add: numeral_3_eq_3 numeral_2_eq_2)

end
