(* ===== verification/Bytes.thy ===== *)
theory Bytes
  imports Prelude
begin

text \<open>Data that several components share: ordered maps (\<open>BTreeMap\<close>), little-endian words, and slices of byte
  buffers.\<close>

section \<open>Failures of user programs\<close>

text \<open>The two panics of safe code, and \<open>None\<close> where a function returns an \<open>Option\<close>.\<close>

definition out_of_bounds :: string where "out_of_bounds = ''index out of bounds''"
definition overflow :: string where "overflow = ''arithmetic overflow''"
definition none :: string where "none = ''''"

section \<open>Ordered maps\<close>

text \<open>Insertion into a \<open>BTreeMap\<close>, an association list in ascending order of its keys.\<close>

fun bt_insert :: "'k::linorder \<Rightarrow> 'v \<Rightarrow> ('k \<times> 'v) list \<Rightarrow> ('k \<times> 'v) list" where
  "bt_insert k v [] = [(k, v)]"
| "bt_insert k v ((j, w) # m) =
     (if k < j then (k, v) # (j, w) # m else if k = j then (k, v) # m else (j, w) # bt_insert k v m)"

definition bt_remove :: "'k \<Rightarrow> ('k \<times> 'v) list \<Rightarrow> ('k \<times> 'v) list" where
  "bt_remove k m = filter (\<lambda>(j, _). j \<noteq> k) m"

lemma map_of_bt_insert [simp]: "map_of (bt_insert k v m) = (map_of m)(k \<mapsto> v)"
  by (induction k v m rule: bt_insert.induct) (auto simp: fun_eq_iff)

lemma map_of_bt_remove [simp]: "map_of (bt_remove k m) j = (if j = k then None else map_of m j)"
  by (induction m) (auto simp: bt_remove_def)

section \<open>Little-endian words\<close>

definition le32 :: "u8 \<Rightarrow> u8 \<Rightarrow> u8 \<Rightarrow> u8 \<Rightarrow> u32" where
  "le32 a b c d = ucast a OR push_bit 8 (ucast b) OR push_bit 16 (ucast c) OR push_bit 24 (ucast d)"

definition le32_bytes :: "u32 \<Rightarrow> u8 list" where
  "le32_bytes w = [ucast w, ucast (drop_bit 8 w), ucast (drop_bit 16 w), ucast (drop_bit 24 w)]"

lemma le32_round_trip [simp]:
  "le32 (ucast w) (ucast (drop_bit 8 w)) (ucast (drop_bit 16 w)) (ucast (drop_bit 24 w)) = w"
proof (rule bit_word_eqI)
  fix n assume "n < LENGTH(32)"
  then consider "n < 8" | "8 \<le> n" "n < 16" | "16 \<le> n" "n < 24" | "24 \<le> n" "n < 32" by force
  then show "bit (le32 (ucast w) (ucast (drop_bit 8 w)) (ucast (drop_bit 16 w)) (ucast (drop_bit 24 w))) n = bit w n"
    by cases (auto simp: le32_def bit_simps)
qed

section \<open>Slices\<close>

text \<open>\<open>buf[off..off + n].copy_from_slice(bs)\<close> for a range inside the buffer.\<close>

definition splice :: "nat \<Rightarrow> 'a list \<Rightarrow> 'a list \<Rightarrow> 'a list" where
  "splice off bs buf = take off buf @ bs @ drop (off + length bs) buf"

definition slice :: "nat \<Rightarrow> nat \<Rightarrow> 'a list \<Rightarrow> 'a list" where
  "slice off n buf = take n (drop off buf)"

definition u32_le :: "u8 list \<Rightarrow> nat \<Rightarrow> u32" where
  "u32_le buf off = le32 (buf ! off) (buf ! (off + 1)) (buf ! (off + 2)) (buf ! (off + 3))"

lemma length_le32_bytes [simp]: "length (le32_bytes w) = 4"
  by (simp add: le32_bytes_def)

lemma length_splice [simp]: "off + length bs \<le> length buf \<Longrightarrow> length (splice off bs buf) = length buf"
  by (simp add: splice_def)

lemma nth_splice:
  "off + length bs \<le> length buf \<Longrightarrow> i < length buf \<Longrightarrow>
     splice off bs buf ! i = (if off \<le> i \<and> i < off + length bs then bs ! (i - off) else buf ! i)"
  by (auto simp: splice_def nth_append min_def)

lemma u32_le_splice:
  assumes "off + 4 \<le> length buf"
  shows "u32_le (splice off (le32_bytes w) buf) off = w"
proof -
  have "splice off (le32_bytes w) buf ! (off + k) = le32_bytes w ! k" if "k < 4" for k
    using assms that by (simp add: nth_splice)
  from this [of 0] this [of 1] this [of 2] this [of 3] show ?thesis
    by (simp add: u32_le_def) (simp add: le32_bytes_def)
qed

lemma u32_le_splice_other:
  assumes "off + length bs \<le> length buf" "i + 4 \<le> length buf" "i + 4 \<le> off \<or> off + length bs \<le> i"
  shows "u32_le (splice off bs buf) i = u32_le buf i"
  using assms by (auto simp: u32_le_def nth_splice)

lemma slice_splice: "off + length bs \<le> length buf \<Longrightarrow> n = length bs \<Longrightarrow> slice off n (splice off bs buf) = bs"
  by (simp add: slice_def splice_def)

lemma slice_splice_other:
  assumes "off + length bs \<le> length buf" "i + n \<le> length buf" "i + n \<le> off \<or> off + length bs \<le> i"
  shows "slice i n (splice off bs buf) = slice i n buf"
  using assms by (intro nth_equalityI) (auto simp: slice_def nth_splice)

lemma length_slice [simp]: "off + n \<le> length buf \<Longrightarrow> length (slice off n buf) = n"
  by (simp add: slice_def)

lemma nth_slice: "off + n \<le> length buf \<Longrightarrow> i < n \<Longrightarrow> slice off n buf ! i = buf ! (off + i)"
  by (simp add: slice_def)

section \<open>Splitting\<close>

text \<open>\<open>slice::split\<close>: the pieces between separators, one more than there are separators.\<close>

fun split_on :: "'a \<Rightarrow> 'a list \<Rightarrow> 'a list list" where
  "split_on s [] = [[]]"
| "split_on s (x # xs) =
     (if x = s then [] # split_on s xs else (x # hd (split_on s xs)) # tl (split_on s xs))"

lemma split_on_ne: "split_on s xs \<noteq> []"
  by (cases xs) auto

section \<open>Strings\<close>

text \<open>\<open>core::str::from_utf8\<close> accepts a byte string.\<close>

definition cont_byte :: "u8 \<Rightarrow> bool" where
  "cont_byte b \<longleftrightarrow> 0x80 \<le> b \<and> b \<le> 0xBF"

fun utf8 :: "u8 list \<Rightarrow> bool" where
  "utf8 [] = True"
| "utf8 (a # bs) =
     (if a < 0x80 then utf8 bs
      else case bs of
        [] \<Rightarrow> False
      | b # bs1 \<Rightarrow>
          if 0xC2 \<le> a \<and> a \<le> 0xDF then cont_byte b \<and> utf8 bs1
          else case bs1 of
            [] \<Rightarrow> False
          | c # bs2 \<Rightarrow>
              if a = 0xE0 then 0xA0 \<le> b \<and> b \<le> 0xBF \<and> cont_byte c \<and> utf8 bs2
              else if a = 0xED then 0x80 \<le> b \<and> b \<le> 0x9F \<and> cont_byte c \<and> utf8 bs2
              else if 0xE1 \<le> a \<and> a \<le> 0xEF then cont_byte b \<and> cont_byte c \<and> utf8 bs2
              else case bs2 of
                [] \<Rightarrow> False
              | d # bs3 \<Rightarrow>
                  if a = 0xF0 then 0x90 \<le> b \<and> b \<le> 0xBF \<and> cont_byte c \<and> cont_byte d \<and> utf8 bs3
                  else if a = 0xF4 then 0x80 \<le> b \<and> b \<le> 0x8F \<and> cont_byte c \<and> cont_byte d \<and> utf8 bs3
                  else 0xF1 \<le> a \<and> a \<le> 0xF3 \<and> cont_byte b \<and> cont_byte c \<and> cont_byte d \<and> utf8 bs3)"

definition SLASH :: u8 where "SLASH = 47"

definition trim_matches :: "u8 \<Rightarrow> u8 list \<Rightarrow> u8 list" where
  "trim_matches c p = rev (dropWhile (\<lambda>x. x = c) (rev (dropWhile (\<lambda>x. x = c) p)))"

text \<open>\<open>str::trim_start_matches\<close> with a string: the prefix is removed as often as it occurs.\<close>

function trim_start :: "u8 list \<Rightarrow> u8 list \<Rightarrow> u8 list" where
  "trim_start pat s = (if pat \<noteq> [] \<and> take (length pat) s = pat then trim_start pat (drop (length pat) s) else s)"
  by pat_completeness auto
termination
proof (relation "measure (\<lambda>(pat, s). length s)", simp, goal_cases)
  case (1 pat s)
  then have "0 < length pat" "s \<noteq> []" by auto
  then show ?case by simp
qed

declare trim_start.simps [simp del]

end
