(* ===== verification/Errno.thy ===== *)
theory Errno
  imports Prelude
begin

text \<open>The numbers that system calls return on an error (\<open>errno.rs\<close>), \<open>usize::MAX\<close> and below.
  \<open>EBADF\<close> and \<open>EACCES\<close> carry a suffix: the handle table has error values of these names.\<close>

definition EPERM :: usize where "EPERM = - 1"
definition ENOENT :: usize where "ENOENT = - 2"
definition ESRCH :: usize where "ESRCH = - 3"
definition EINTR :: usize where "EINTR = - 4"
definition EIO :: usize where "EIO = - 5"
definition EBADF_RET :: usize where "EBADF_RET = - 9"
definition EAGAIN :: usize where "EAGAIN = - 11"
definition ENOMEM :: usize where "ENOMEM = - 12"
definition EACCES_RET :: usize where "EACCES_RET = - 13"
definition EFAULT :: usize where "EFAULT = - 14"
definition EEXIST :: usize where "EEXIST = - 17"
definition EINVAL :: usize where "EINVAL = - 22"
definition EMFILE :: usize where "EMFILE = - 24"
definition ESPIPE :: usize where "ESPIPE = - 29"
definition EPIPE :: usize where "EPIPE = - 32"
definition ENOSYS :: usize where "ENOSYS = - 38"

end
