(* ===== verification/Process.thy ===== *)
theory Process
  imports Handle Sched Vmm Bytes Errno
begin

text \<open>Processes as the system calls see them, \<open>src/posix/process.rs\<close>: the process table (a map ordered by
  process id), the run queue, the parts of a process that IPC, file locks, signals and exit change,
  user memory, and the 64-byte message of \<open>src/ipc/msg.rs\<close>.  Locks are not state of the model; where
  the code takes a lock that the same hart holds, the operation ends in the panic of
  \<open>src/sync.rs\<close>.\<close>

section \<open>Tables\<close>

lemma map_of_mapped [simp]:
  "map_of (map (\<lambda>(q, x). if q = p then (q, f x) else (q, x)) m) q =
     (if q = p then map_option f (map_of m p) else map_of m q)"
  by (induction m) auto

section \<open>Messages\<close>

record ipc_msg =
  source :: pid
  mtype :: u32
  data :: "u8 list"

text \<open>The bytes of a message in memory (\<open>repr(C)\<close>, little-endian).\<close>

definition msg_bytes :: "ipc_msg \<Rightarrow> u8 list" where
  "msg_bytes m = le32_bytes (word_of_int (source m)) @ le32_bytes (mtype m) @ data m"

definition read_msg :: "(usize \<Rightarrow> u8) \<Rightarrow> usize \<Rightarrow> ipc_msg" where
  "read_msg mm p =
     \<lparr>source = sint (le32 (mm p) (mm (p + 1)) (mm (p + 2)) (mm (p + 3))),
      mtype = le32 (mm (p + 4)) (mm (p + 5)) (mm (p + 6)) (mm (p + 7)),
      data = map (\<lambda>i. mm (p + 8 + of_nat i)) [0..<56]\<rparr>"

definition write_bytes :: "usize \<Rightarrow> u8 list \<Rightarrow> (usize \<Rightarrow> u8) \<Rightarrow> usize \<Rightarrow> u8" where
  "write_bytes p bs mm a = (if unat (a - p) < length bs then bs ! unat (a - p) else mm a)"

lemma write_bytes_at: "i < length bs \<Longrightarrow> i < 2 ^ 64 \<Longrightarrow> write_bytes p bs mm (p + of_nat i) = bs ! i"
  by (simp add: write_bytes_def unat_of_nat)

definition pid_ok :: "pid \<Rightarrow> bool" where
  "pid_ok p \<longleftrightarrow> - (2 ^ 31) \<le> p \<and> p < 2 ^ 31"

lemma sint_pid: "pid_ok p \<Longrightarrow> sint (word_of_int p :: u32) = p"
  by (simp add: pid_ok_def sint_sbintrunc' signed_take_bit_int_eq_self_iff)

text \<open>A message written to memory is read back.\<close>

lemma read_write_msg:
  assumes "length (data m) = 56" "pid_ok (source m)"
  shows "read_msg (write_bytes p (msg_bytes m) mm) p = m"
proof -
  have len: "length (msg_bytes m) = 64" using assms(1) by (simp add: msg_bytes_def le32_bytes_def)
  have at: "write_bytes p (msg_bytes m) mm (p + of_nat i) = msg_bytes m ! i" if "i < 64" for i
    using that len by (simp add: write_bytes_at)
  have sr: "le32 (msg_bytes m ! 0) (msg_bytes m ! 1) (msg_bytes m ! 2) (msg_bytes m ! 3) = word_of_int (source m)"
    by (simp add: msg_bytes_def le32_bytes_def)
  have ty: "le32 (msg_bytes m ! 4) (msg_bytes m ! 5) (msg_bytes m ! 6) (msg_bytes m ! 7) = mtype m"
    by (simp add: msg_bytes_def le32_bytes_def nth_append)
  have "map (\<lambda>i. write_bytes p (msg_bytes m) mm (p + 8 + of_nat i)) [0..<56] = map (\<lambda>i. msg_bytes m ! (8 + i)) [0..<56]"
  proof (rule map_cong [OF refl])
    fix i :: nat assume "i \<in> set [0..<56]"
    then show "write_bytes p (msg_bytes m) mm (p + 8 + of_nat i) = msg_bytes m ! (8 + i)"
      using at [of "8 + i"] unfolding set_upt by (simp add: add.assoc)
  qed
  also have "\<dots> = map (\<lambda>i. data m ! i) [0..<56]"
    by (rule map_cong [OF refl]) (simp add: msg_bytes_def le32_bytes_def nth_append)
  also have "\<dots> = data m" using map_nth [of "data m"] unfolding assms(1) .
  finally have dat: "map (\<lambda>i. write_bytes p (msg_bytes m) mm (p + 8 + of_nat i)) [0..<56] = data m" .
  show ?thesis
    unfolding read_msg_def dat
    using at [of 0] at [of 1] at [of 2] at [of 3] at [of 4] at [of 5] at [of 6] at [of 7] sr ty sint_pid [OF assms(2)]
    by simp
qed

section \<open>Processes\<close>

datatype ipc_state =
    NoIpc
  | Sending pid ipc_msg "usize option"
  | Receiving pid usize
  | ReceivingReply pid usize
  | MessageAvailable ipc_msg
  | SendComplete
  | LockWaiting u64 int int int

text \<open>Kernel objects; the objects behind a reference are numbered.\<close>

datatype kobj =
    KVmo nat | KChannel nat | KTty nat | KPipeRead nat | KPipeWrite nat | KVfsFile u32
  | KPort nat | KJob nat | KEpoll nat | KResource nat

record process =
  pstate :: proc_state
  prio :: int
  ppid :: pid
  tgid :: pid
  pgid :: pid
  sid :: pid
  caps :: u64
  children :: "pid list"
  fds :: "kobj handle_table"
  a0 :: usize
  sepc :: usize
  satp_val :: usize
  next_mmap_va :: usize
  heap_break :: usize
  clear_tid_ptr :: usize
  wait_target :: "pid option"
  wait_status_ptr :: "usize option"
  wait_result :: "(pid \<times> int) list"
  mailbox :: "(pid \<times> u8 list) list"
  mailbox_waiter :: int
  istate :: ipc_state
  senders :: "pid list"
  irq_pending :: "ipc_msg list"
  pending_signals :: u32
  blocked_signals :: u32
  signal_handlers :: "usize list"
  signal_restorers :: "usize list"
  signal_masks :: "u32 list"

record lock_entry =
  lpid :: pid
  l_type :: int
  l_start :: int
  l_end :: int

text \<open>\<open>satp\<close> is the register: it selects the address space that the kernel's own loads and stores go
  through; \<open>umem\<close> is the memory of each address space.  \<open>freed_roots\<close> lists the page tables handed to
  \<open>evict_all\<close> and \<open>destroy_user_space\<close>.  \<open>last_ref_waiters o\<close>: the processes that the destructor of \<open>o\<close> enqueues when the table entry being
  closed is its last reference; none while other references remain.  \<open>job_members\<close> are the process lists
  of the jobs, by number.\<close>

record sys =
  procs :: "(pid \<times> process) list"
  runq :: run_queue
  cur :: pid
  satp :: usize
  umem :: "usize \<Rightarrow> usize \<Rightarrow> u8"
  futex_table :: "(usize \<times> pid list) list"
  irq_handlers :: "(u32 \<times> pid) list"
  file_locks :: "(u64 \<times> lock_entry list) list"
  lock_waiters :: "(u64 \<times> (pid \<times> int \<times> int \<times> int) list) list"
  sleep_queue :: "(pid \<times> u64) list"
  satp_refcount :: satp_refs
  freed_roots :: "usize list"
  fd_flags :: "(pid \<times> u32) \<Rightarrow> usize option"
  last_ref_waiters :: "kobj \<Rightarrow> pid list"
  job_members :: "nat \<Rightarrow> pid list"

datatype outcome = Return | Blocked | Crash string

section \<open>Access\<close>

definition get_proc :: "sys \<Rightarrow> pid \<Rightarrow> process option" where
  "get_proc s p = map_of (procs s) p"

definition modify :: "pid \<Rightarrow> (process \<Rightarrow> process) \<Rightarrow> sys \<Rightarrow> sys" where
  "modify p f s = s\<lparr>procs := map (\<lambda>(q, x). if q = p then (q, f x) else (q, x)) (procs s)\<rparr>"

text \<open>\<open>enqueue_with_prio\<close> of a process at its own priority.\<close>

definition enq :: "pid \<Rightarrow> sys \<Rightarrow> sys" where
  "enq p s = (case get_proc s p of None \<Rightarrow> s | Some x \<Rightarrow> s\<lparr>runq := rq_insert p (prio x) (runq s)\<rparr>)"

definition finish :: "usize \<Rightarrow> sys \<Rightarrow> outcome \<times> sys" where
  "finish v s = (Return, modify (cur s) (\<lambda>x. x\<lparr>a0 := v\<rparr>) s)"

text \<open>Blocking: the trap handler advanced \<open>sepc\<close> past the call, so stepping back repeats it.\<close>

definition block :: "sys \<Rightarrow> outcome \<times> sys" where
  "block s = (Blocked, modify (cur s) (\<lambda>x. x\<lparr>sepc := sepc x - 4\<rparr>) s)"

definition as_i32 :: "usize \<Rightarrow> pid" where
  "as_i32 w = sint (ucast w :: u32)"

text \<open>Memory as the kernel sees it while it serves the running process.\<close>

definition mem_now :: "sys \<Rightarrow> usize \<Rightarrow> u8" where
  "mem_now s = umem s (satp s)"

definition copy_out :: "usize \<Rightarrow> u8 list \<Rightarrow> sys \<Rightarrow> sys" where
  "copy_out p bs s = s\<lparr>umem := (umem s)(satp s := write_bytes p bs (umem s (satp s)))\<rparr>"

text \<open>What \<open>schedule\<close> does when it switches to a process.\<close>

definition switch_to :: "pid \<Rightarrow> sys \<Rightarrow> sys" where
  "switch_to p s =
     (case get_proc s p of None \<Rightarrow> s | Some x \<Rightarrow> s\<lparr>cur := p, satp := satp_val x\<rparr>)"

text \<open>Making a process runnable: its state becomes \<open>Running\<close> and it is enqueued.\<close>

definition wake :: "pid \<Rightarrow> sys \<Rightarrow> sys" where
  "wake p s = enq p (modify p (\<lambda>x. x\<lparr>pstate := Running\<rparr>) s)"

lemma get_proc_modify [simp]:
  "get_proc (modify p f s) q = (if q = p then map_option f (get_proc s p) else get_proc s q)"
  by (simp add: get_proc_def modify_def)

lemma get_proc_enq [simp]: "get_proc (enq p s) = get_proc s"
  by (simp add: get_proc_def enq_def fun_eq_iff split: option.splits)

lemma get_proc_copy_out [simp]: "get_proc (copy_out p bs s) = get_proc s"
  by (simp add: get_proc_def copy_out_def fun_eq_iff)

lemma get_proc_switch_to [simp]: "get_proc (switch_to p s) = get_proc s"
  by (simp add: get_proc_def switch_to_def fun_eq_iff split: option.splits)

lemma fields_modify [simp]:
  "cur (modify p f s) = cur s" "satp (modify p f s) = satp s" "runq (modify p f s) = runq s" "umem (modify p f s) = umem s"
  "file_locks (modify p f s) = file_locks s" "lock_waiters (modify p f s) = lock_waiters s"
  "futex_table (modify p f s) = futex_table s" "irq_handlers (modify p f s) = irq_handlers s"
  "last_ref_waiters (modify p f s) = last_ref_waiters s" "sleep_queue (modify p f s) = sleep_queue s"
  "satp_refcount (modify p f s) = satp_refcount s" "freed_roots (modify p f s) = freed_roots s"
  by (simp_all add: modify_def)

lemma fields_enq [simp]:
  "cur (enq p s) = cur s" "satp (enq p s) = satp s" "umem (enq p s) = umem s" "procs (enq p s) = procs s"
  "file_locks (enq p s) = file_locks s" "lock_waiters (enq p s) = lock_waiters s"
  "futex_table (enq p s) = futex_table s" "irq_handlers (enq p s) = irq_handlers s"
  "last_ref_waiters (enq p s) = last_ref_waiters s" "sleep_queue (enq p s) = sleep_queue s"
  "satp_refcount (enq p s) = satp_refcount s" "freed_roots (enq p s) = freed_roots s"
  by (simp_all add: enq_def split: option.splits)

lemma fields_copy_out [simp]:
  "cur (copy_out p bs s) = cur s" "satp (copy_out p bs s) = satp s" "runq (copy_out p bs s) = runq s"
  "procs (copy_out p bs s) = procs s"
  by (simp_all add: copy_out_def)

lemma mem_now_simps [simp]:
  "mem_now (modify p f s) = mem_now s" "mem_now (enq p s) = mem_now s"
  "mem_now (copy_out a bs s) = write_bytes a bs (mem_now s)"
  by (simp_all add: mem_now_def copy_out_def)

lemma switch_to_simps [simp]:
  "get_proc s p = Some x \<Longrightarrow> cur (switch_to p s) = p"
  "get_proc s p = Some x \<Longrightarrow> satp (switch_to p s) = satp_val x"
  "umem (switch_to p s) = umem s" "runq (switch_to p s) = runq s" "procs (switch_to p s) = procs s"
  "lock_waiters (switch_to p s) = lock_waiters s" "file_locks (switch_to p s) = file_locks s"
  by (simp_all add: switch_to_def split: option.splits)

lemma outcome_simps [simp]:
  "fst (finish v s) = Return" "snd (finish v s) = modify (cur s) (\<lambda>x. x\<lparr>a0 := v\<rparr>) s"
  "fst (block s) = Blocked" "snd (block s) = modify (cur s) (\<lambda>x. x\<lparr>sepc := sepc x - 4\<rparr>) s"
  by (simp_all add: finish_def block_def)

lemma runq_enq [simp]:
  "runq (enq p s) = (case get_proc s p of None \<Rightarrow> runq s | Some x \<Rightarrow> rq_insert p (prio x) (runq s))"
  by (simp add: enq_def split: option.splits)

section \<open>A small system\<close>

definition blank_proc :: process where
  "blank_proc = \<lparr>pstate = Running, prio = 16, ppid = 0, tgid = 1, pgid = 1, sid = 1, caps = 0, children = [],
     fds = HandleTable_new, a0 = 0, sepc = 0x100000000, satp_val = 0, next_mmap_va = 0x400000000, heap_break = 0x200000000, clear_tid_ptr = 0, wait_target = None,
     wait_status_ptr = None, wait_result = [], mailbox = [], mailbox_waiter = 0, istate = NoIpc,
     senders = [], irq_pending = [], pending_signals = 0, blocked_signals = 0,
     signal_handlers = replicate 32 0, signal_restorers = replicate 32 0, signal_masks = replicate 32 0\<rparr>"

definition sample_sys :: "(pid \<times> process) list \<Rightarrow> sys" where
  "sample_sys ps = \<lparr>procs = ps, runq = [], cur = 0, satp = 0, umem = (\<lambda>_ _. 0), futex_table = [],
     irq_handlers = [], file_locks = [], lock_waiters = [],
     sleep_queue = [], satp_refcount = (\<lambda>_. None), freed_roots = [], fd_flags = (\<lambda>_. None), last_ref_waiters = (\<lambda>_. []), job_members = (\<lambda>_. [])\<rparr>"

lemma blank_proc_fields [simp]:
  "pstate blank_proc = Running" "prio blank_proc = 16" "ppid blank_proc = 0" "children blank_proc = []"
  "fds blank_proc = HandleTable_new" "clear_tid_ptr blank_proc = 0" "wait_target blank_proc = None"
  "wait_result blank_proc = []" "istate blank_proc = NoIpc" "senders blank_proc = []"
  "irq_pending blank_proc = []" "mailbox blank_proc = []" "satp_val blank_proc = 0"
  "pending_signals blank_proc = 0" "blocked_signals blank_proc = 0"
  by (simp_all add: blank_proc_def)

lemma get_proc_sample: "get_proc (sample_sys ps) = map_of ps"
  by (simp add: get_proc_def sample_sys_def fun_eq_iff)

end
