(* ===== verification/Locks.thy ===== *)
theory Locks
  imports Process
begin

text \<open>POSIX byte-range locks and \<open>fcntl\<close>, \<open>src/syscall/ipc.rs\<close>.  File offsets (\<open>i64\<close>) and lock types
  (\<open>i16\<close>) are integers.  The lock table maps a file to its locks, the waiter table to the requests
  that block on it, both ordered by file.\<close>

section \<open>Ranges and conflicts\<close>

definition F_RDLCK :: int where "F_RDLCK = 0"
definition F_WRLCK :: int where "F_WRLCK = 1"
definition F_UNLCK :: int where "F_UNLCK = 2"

definition I64_MAX :: int where "I64_MAX = 2 ^ 63 - 1"

definition i64_saturating_add :: "int \<Rightarrow> int \<Rightarrow> int" where
  "i64_saturating_add a b = max (- (2 ^ 63)) (min I64_MAX (a + b))"

fun file_lock_id :: "kobj \<Rightarrow> u64 option" where
  "file_lock_id (KVfsFile sfd) = Some (ucast sfd)"
| "file_lock_id _ = None"

definition resolve_range :: "int \<Rightarrow> int \<Rightarrow> int \<times> int" where
  "resolve_range start len =
     (let s = max start 0 in (s, if len = 0 then I64_MAX else i64_saturating_add s len))"

definition ranges_overlap :: "int \<Rightarrow> int \<Rightarrow> int \<Rightarrow> int \<Rightarrow> bool" where
  "ranges_overlap s1 e1 s2 e2 \<longleftrightarrow> s1 < e2 \<and> s2 < e1"

definition conflicts :: "pid \<Rightarrow> int \<Rightarrow> int \<Rightarrow> int \<Rightarrow> lock_entry \<Rightarrow> bool" where
  "conflicts p ty rs re e \<longleftrightarrow>
     (if lpid e = p then False
      else if \<not> ranges_overlap rs re (l_start e) (l_end e) then False
      else ty = F_WRLCK \<or> ty = F_RDLCK \<and> l_type e = F_WRLCK)"

section \<open>Acquiring and releasing\<close>

definition locks_of :: "u64 \<Rightarrow> sys \<Rightarrow> lock_entry list" where
  "locks_of f s = (case map_of (file_locks s) f of Some es \<Rightarrow> es | None \<Rightarrow> [])"

definition outside :: "pid \<Rightarrow> int \<Rightarrow> int \<Rightarrow> lock_entry \<Rightarrow> bool" where
  "outside p rs re e \<longleftrightarrow> lpid e \<noteq> p \<or> \<not> ranges_overlap rs re (l_start e) (l_end e)"

definition try_acquire :: "u64 \<Rightarrow> pid \<Rightarrow> int \<Rightarrow> int \<Rightarrow> int \<Rightarrow> sys \<Rightarrow> bool \<times> sys" where
  "try_acquire f p ty rs re s =
     (if list_ex (conflicts p ty rs re) (locks_of f s) then (False, s)
      else (True, s\<lparr>file_locks := bt_insert f
              (filter (outside p rs re) (locks_of f s) @ [\<lparr>lpid = p, l_type = ty, l_start = rs, l_end = re\<rparr>])
              (file_locks s)\<rparr>))"

text \<open>What \<open>wake_lock_waiters\<close> does for a waiter whose lock it acquired.\<close>

definition grant :: "pid \<Rightarrow> sys \<Rightarrow> sys" where
  "grant p s =
     (case get_proc s p of
        None \<Rightarrow> s
      | Some _ \<Rightarrow> enq p (modify p (\<lambda>x. x\<lparr>a0 := 0, istate := NoIpc, pstate := Running\<rparr>) s))"

fun wake_each :: "u64 \<Rightarrow> (pid \<times> int \<times> int \<times> int) list \<Rightarrow> sys \<Rightarrow> (pid \<times> int \<times> int \<times> int) list \<times> sys" where
  "wake_each f [] s = ([], s)"
| "wake_each f ((p, ty, ws, we) # rest) s =
     (case try_acquire f p ty ws we s of
        (True, s1) \<Rightarrow> wake_each f rest (grant p s1)
      | (False, s1) \<Rightarrow> (let (still, s2) = wake_each f rest s1 in ((p, ty, ws, we) # still, s2)))"

definition wake_lock_waiters :: "u64 \<Rightarrow> sys \<Rightarrow> sys" where
  "wake_lock_waiters f s =
     (case map_of (lock_waiters s) f of
        None \<Rightarrow> s
      | Some ws \<Rightarrow>
          if ws = [] then s
          else (let (still, s1) = wake_each f ws s
                in s1\<lparr>lock_waiters := bt_insert f still (lock_waiters s1)\<rparr>))"

definition set_locks :: "u64 \<Rightarrow> lock_entry list \<Rightarrow> sys \<Rightarrow> sys" where
  "set_locks f es s =
     s\<lparr>file_locks := (if es = [] then bt_remove f (file_locks s) else bt_insert f es (file_locks s))\<rparr>"

definition release_range :: "u64 \<Rightarrow> pid \<Rightarrow> int \<Rightarrow> int \<Rightarrow> sys \<Rightarrow> sys" where
  "release_range f p rs re s =
     wake_lock_waiters f
       (case map_of (file_locks s) f of
          None \<Rightarrow> s
        | Some es \<Rightarrow> set_locks f (filter (outside p rs re) es) s)"

definition release_fd_locks :: "u64 \<Rightarrow> pid \<Rightarrow> sys \<Rightarrow> sys" where
  "release_fd_locks f p s = release_range f p 0 I64_MAX s"

definition drop_locks_of :: "pid \<Rightarrow> u64 \<Rightarrow> sys \<Rightarrow> sys" where
  "drop_locks_of p f s =
     (case map_of (file_locks s) f of
        None \<Rightarrow> s
      | Some es \<Rightarrow> set_locks f (filter (\<lambda>e. lpid e \<noteq> p) es) s)"

definition release_all_locks :: "pid \<Rightarrow> sys \<Rightarrow> sys" where
  "release_all_locks p s =
     (let s1 = fold (drop_locks_of p) (map fst (file_locks s)) s
      in fold wake_lock_waiters (map fst (lock_waiters s1)) s1)"

section \<open>\<open>fcntl\<close>\<close>

text \<open>\<open>struct flock\<close> in user memory.\<close>

definition read_le :: "nat \<Rightarrow> (usize \<Rightarrow> u8) \<Rightarrow> usize \<Rightarrow> int" where
  "read_le n mm p = (\<Sum>i < n. uint (mm (p + of_nat i)) * 256 ^ i)"

definition to_signed :: "nat \<Rightarrow> int \<Rightarrow> int" where
  "to_signed n v = (if v < 2 ^ (8 * n - 1) then v else v - 2 ^ (8 * n))"

definition le_bytes :: "nat \<Rightarrow> int \<Rightarrow> u8 list" where
  "le_bytes n v = map (\<lambda>i. word_of_int (v div 256 ^ i)) [0..<n]"

record flock_arg =
  fl_type :: int
  fl_start :: int
  fl_len :: int

definition read_flock :: "(usize \<Rightarrow> u8) \<Rightarrow> usize \<Rightarrow> flock_arg" where
  "read_flock mm p =
     \<lparr>fl_type = to_signed 2 (read_le 2 mm p), fl_start = to_signed 8 (read_le 8 mm (p + 8)),
      fl_len = to_signed 8 (read_le 8 mm (p + 16))\<rparr>"

definition write_blocking :: "usize \<Rightarrow> lock_entry option \<Rightarrow> sys \<Rightarrow> sys" where
  "write_blocking p blk s =
     (case blk of
        None \<Rightarrow> copy_out p (le_bytes 2 F_UNLCK) s
      | Some b \<Rightarrow>
          copy_out (p + 24) (le_bytes 4 (lpid b))
            (copy_out (p + 16) (le_bytes 8 (if l_end b = I64_MAX then 0 else l_end b - l_start b))
              (copy_out (p + 8) (le_bytes 8 (l_start b))
                (copy_out p (le_bytes 2 (l_type b) @ le_bytes 2 0) s))))"

definition F_DUPFD :: usize where "F_DUPFD = 0"
definition F_GETFD :: usize where "F_GETFD = 1"
definition F_SETFD :: usize where "F_SETFD = 2"
definition F_GETFL :: usize where "F_GETFL = 3"
definition F_SETFL :: usize where "F_SETFL = 4"
definition F_GETLK :: usize where "F_GETLK = 5"
definition F_SETLK :: usize where "F_SETLK = 6"
definition F_SETLKW :: usize where "F_SETLKW = 7"
definition F_SET_VFS_FD :: usize where "F_SET_VFS_FD = 1000"
definition F_GET_VFS_FD :: usize where "F_GET_VFS_FD = 1001"

definition FD_CLOEXEC :: usize where "FD_CLOEXEC = 1"

definition upd_fds :: "(kobj handle_table \<Rightarrow> kobj handle_table) \<Rightarrow> sys \<Rightarrow> sys" where
  "upd_fds f s = modify (cur s) (\<lambda>x. x\<lparr>fds := f (fds x)\<rparr>) s"

text \<open>The search of \<open>F_DUPFD\<close>; the counter is a \<open>u32\<close> and overflowing it panics.\<close>

function dup_from :: "kobj handle_table \<Rightarrow> nat \<Rightarrow> u32 option" where
  "dup_from t n =
     (if 2 ^ 32 \<le> n then None else if get t (of_nat n) \<noteq> None then dup_from t (n + 1) else Some (of_nat n))"
  by pat_completeness auto
termination by (relation "measure (\<lambda>(t, n). 2 ^ 32 - n)") auto

declare dup_from.simps [simp del]

definition fcntl_lock :: "usize \<Rightarrow> u64 \<Rightarrow> flock_arg \<Rightarrow> usize \<Rightarrow> sys \<Rightarrow> outcome \<times> sys" where
  "fcntl_lock cmd f fl ptr s =
     (let p = cur s; (rs, re) = resolve_range (fl_start fl) (fl_len fl) in
      if cmd = F_GETLK then
        finish 0 (write_blocking ptr (find (conflicts p (fl_type fl) rs re) (locks_of f s)) s)
      else if fl_type fl = F_UNLCK then finish 0 (release_range f p rs re s)
      else
        case try_acquire f p (fl_type fl) rs re s of
          (True, s1) \<Rightarrow> finish 0 s1
        | (False, s1) \<Rightarrow>
            if cmd = F_SETLK then finish EAGAIN s1
            else
              (let ws = (case map_of (lock_waiters s1) f of Some ws \<Rightarrow> ws | None \<Rightarrow> []);
                   s2 = s1\<lparr>lock_waiters := bt_insert f (ws @ [(p, fl_type fl, rs, re)]) (lock_waiters s1)\<rparr>
               in (Blocked, modify p (\<lambda>x. x\<lparr>istate := LockWaiting f (fl_type fl) rs re, pstate := Stopped\<rparr>) s2)))"

definition fcntl_dupfd :: "process \<Rightarrow> kobj \<Rightarrow> u32 \<Rightarrow> sys \<Rightarrow> outcome \<times> sys" where
  "fcntl_dupfd x obj min_fd s =
     (case dup_from (fds x) (unat min_fd) of
        None \<Rightarrow> (Crash ''attempt to add with overflow'', s)
      | Some newfd \<Rightarrow> finish (ucast newfd) (upd_fds (insert_at newfd obj) s))"

definition fcntl_flock :: "usize \<Rightarrow> kobj \<Rightarrow> usize \<Rightarrow> sys \<Rightarrow> outcome \<times> sys" where
  "fcntl_flock cmd obj ptr s =
     (if \<not> is_user_pointer_valid 32 ptr 1 then finish EFAULT s
      else
        case file_lock_id obj of
          None \<Rightarrow> finish EINVAL s
        | Some f \<Rightarrow> fcntl_lock cmd f (read_flock (mem_now s) ptr) ptr s)"

definition fcntl_set_vfs :: "process \<Rightarrow> u32 \<Rightarrow> u32 \<Rightarrow> sys \<Rightarrow> outcome \<times> sys" where
  "fcntl_set_vfs x fd server_fd s =
     (if fd = - 1 then
        (case handle_insert (KVfsFile server_fd) (fds x) of
           (Ok newfd, t) \<Rightarrow> finish (ucast newfd) (upd_fds (\<lambda>_. t) s)
         | (Err e, t) \<Rightarrow> (Crash e, s)
         | (Panic e, t) \<Rightarrow> (Crash e, s))
      else finish 0 (upd_fds (insert_at fd (KVfsFile server_fd)) s))"

fun fcntl_get_vfs :: "kobj \<Rightarrow> usize" where
  "fcntl_get_vfs (KVfsFile server_fd) = ucast server_fd"
| "fcntl_get_vfs _ = - 1"

text \<open>The commands on a valid descriptor \<open>fd\<close>, which names \<open>obj\<close>.\<close>

definition fcntl_command :: "process \<Rightarrow> u32 \<Rightarrow> kobj \<Rightarrow> usize \<Rightarrow> usize \<Rightarrow> sys \<Rightarrow> outcome \<times> sys" where
  "fcntl_command x fd obj cmd arg2 s =
     (if cmd = F_DUPFD then fcntl_dupfd x obj (ucast arg2) s
      else if cmd = F_GETFD then finish (if is_cloexec (fds x) fd then FD_CLOEXEC else 0) s
      else if cmd = F_SETFD then finish 0 (upd_fds (set_cloexec fd (arg2 AND FD_CLOEXEC \<noteq> 0)) s)
      else if cmd = F_GETFL then finish (case fd_flags s (cur s, fd) of Some v \<Rightarrow> v | None \<Rightarrow> 0) s
      else if cmd = F_SETFL then finish 0 (s\<lparr>fd_flags := (fd_flags s)((cur s, fd) \<mapsto> arg2)\<rparr>)
      else if cmd = F_GETLK \<or> cmd = F_SETLK \<or> cmd = F_SETLKW then fcntl_flock cmd obj arg2 s
      else if cmd = F_GET_VFS_FD then finish (fcntl_get_vfs obj) s
      else finish ENOSYS s)"

definition sys_fcntl :: "usize \<Rightarrow> usize \<Rightarrow> usize \<Rightarrow> sys \<Rightarrow> outcome \<times> sys" where
  "sys_fcntl arg0 cmd arg2 s =
     (let fd = ucast arg0 :: u32 in
      case get_proc s (cur s) of
        None \<Rightarrow> finish ESRCH s
      | Some x \<Rightarrow>
          if cmd = F_SET_VFS_FD then fcntl_set_vfs x fd (ucast arg2) s
          else
            (case get (fds x) fd of
               None \<Rightarrow> finish EBADF_RET s
             | Some obj \<Rightarrow> fcntl_command x fd obj cmd arg2 s))"

section \<open>Locks of different processes stay compatible\<close>

text \<open>A write lock of one process and a read or write lock of another never cover the same byte.\<close>

definition compatible :: "lock_entry \<Rightarrow> lock_entry \<Rightarrow> bool" where
  "compatible e e' \<longleftrightarrow>
     lpid e = lpid e' \<or> \<not> ranges_overlap (l_start e) (l_end e) (l_start e') (l_end e')
   \<or> \<not> (l_type e = F_WRLCK \<and> (l_type e' = F_RDLCK \<or> l_type e' = F_WRLCK))"

definition lock_ok :: "sys \<Rightarrow> bool" where
  "lock_ok s \<longleftrightarrow> (\<forall>f. \<forall>e \<in> set (locks_of f s). \<forall>e' \<in> set (locks_of f s). compatible e e')"

lemma locks_of_simps [simp]:
  "locks_of f (modify p g s) = locks_of f s" "locks_of f (enq p s) = locks_of f s" "locks_of f (grant p s) = locks_of f s"
  "locks_of f (s\<lparr>lock_waiters := w\<rparr>) = locks_of f s" "locks_of f (copy_out a bs s) = locks_of f s"
  "locks_of f (s\<lparr>fd_flags := fl\<rparr>) = locks_of f s"
  "locks_of f (set_locks h es s) = (if f = h then es else locks_of f s)"
  by (auto simp: locks_of_def grant_def set_locks_def copy_out_def split: option.splits)

lemma lock_ok_cong: "(\<And>f. locks_of f s' = locks_of f s) \<Longrightarrow> lock_ok s' = lock_ok s"
  by (simp add: lock_ok_def)

lemma lock_ok_simps [simp]:
  "lock_ok (modify p g s) = lock_ok s" "lock_ok (enq p s) = lock_ok s" "lock_ok (grant p s) = lock_ok s"
  "lock_ok (s\<lparr>lock_waiters := w\<rparr>) = lock_ok s" "lock_ok (copy_out a bs s) = lock_ok s"
  "lock_ok (s\<lparr>fd_flags := fl\<rparr>) = lock_ok s"
  by (rule lock_ok_cong; simp)+

lemma lock_ok_subset: "lock_ok s \<Longrightarrow> (\<And>f. set (locks_of f s') \<subseteq> set (locks_of f s)) \<Longrightarrow> lock_ok s'"
  unfolding lock_ok_def by blast

lemma conflicts_iff:
  "conflicts p ty rs re e \<longleftrightarrow>
     lpid e \<noteq> p \<and> ranges_overlap rs re (l_start e) (l_end e) \<and> (ty = F_WRLCK \<or> ty = F_RDLCK \<and> l_type e = F_WRLCK)"
  by (auto simp: conflicts_def)

lemma no_conflict_compatible:
  assumes "\<not> conflicts p ty rs re e"
  shows "compatible e \<lparr>lpid = p, l_type = ty, l_start = rs, l_end = re\<rparr>"
    "compatible \<lparr>lpid = p, l_type = ty, l_start = rs, l_end = re\<rparr> e"
  using assms by (auto simp: conflicts_iff compatible_def ranges_overlap_def)

lemma try_acquire_locks:
  "locks_of g (snd (try_acquire f p ty rs re s)) =
     (if fst (try_acquire f p ty rs re s) \<and> g = f
      then filter (outside p rs re) (locks_of f s) @ [\<lparr>lpid = p, l_type = ty, l_start = rs, l_end = re\<rparr>]
      else locks_of g s)"
  by (auto simp: try_acquire_def locks_of_def)

lemma try_acquire_iff: "fst (try_acquire f p ty rs re s) \<longleftrightarrow> (\<forall>e \<in> set (locks_of f s). \<not> conflicts p ty rs re e)"
  by (auto simp: try_acquire_def list_ex_iff)

lemma try_acquire_ok:
  assumes "lock_ok s"
  shows "lock_ok (snd (try_acquire f p ty rs re s))"
proof (cases "fst (try_acquire f p ty rs re s)")
  case True
  then have "\<forall>e \<in> set (locks_of f s). \<not> conflicts p ty rs re e" by (simp add: try_acquire_iff)
  then show ?thesis
    using assms True no_conflict_compatible unfolding lock_ok_def try_acquire_locks
    by (auto simp: compatible_def [of "_\<lparr>lpid := _\<rparr>"]) (auto simp: compatible_def)
next
  case False
  then show ?thesis using assms by (simp add: lock_ok_def try_acquire_locks)
qed

lemma wake_each_ok: "lock_ok s \<Longrightarrow> lock_ok (snd (wake_each f ws s))"
proof (induction f ws s rule: wake_each.induct)
  case (2 f p ty ws we rest s)
  note ok = try_acquire_ok [OF "2.prems", of f p ty ws we]
  obtain b s1 where b: "try_acquire f p ty ws we s = (b, s1)" by fastforce
  show ?case using ok b 2 by (cases b) (auto split: prod.splits)
qed simp

lemma wake_lock_waiters_ok: "lock_ok s \<Longrightarrow> lock_ok (wake_lock_waiters f s)"
  using wake_each_ok [of s f] by (auto simp: wake_lock_waiters_def case_prod_beta split: option.splits)

lemma release_range_ok:
  assumes "lock_ok s"
  shows "lock_ok (release_range f p rs re s)"
proof -
  have "lock_ok (set_locks f (filter (outside p rs re) es) s)" if "map_of (file_locks s) f = Some es" for es
  proof (rule lock_ok_subset [OF assms])
    have "locks_of f s = es" by (simp add: locks_of_def that)
    then show "set (locks_of g (set_locks f (filter (outside p rs re) es) s)) \<subseteq> set (locks_of g s)" for g by auto
  qed
  then show ?thesis
    using assms by (auto simp: release_range_def intro!: wake_lock_waiters_ok split: option.splits)
qed

lemma drop_locks_of_ok: "lock_ok s \<Longrightarrow> lock_ok (drop_locks_of p f s)"
  by (rule lock_ok_subset) (auto simp: drop_locks_of_def locks_of_def set_locks_def split: option.splits)

lemma release_all_locks_ok: "lock_ok s \<Longrightarrow> lock_ok (release_all_locks p s)"
proof -
  have fold_ok: "lock_ok (fold g fs s)" if "lock_ok s" "\<And>f s. lock_ok s \<Longrightarrow> lock_ok (g f s)" for g and fs :: "u64 list" and s
    using that by (induction fs arbitrary: s) auto
  show "lock_ok s \<Longrightarrow> lock_ok (release_all_locks p s)"
    unfolding release_all_locks_def Let_def
    by (intro fold_ok drop_locks_of_ok wake_lock_waiters_ok)
qed

lemma fcntl_lock_ok: "lock_ok s \<Longrightarrow> lock_ok (snd (fcntl_lock cmd f fl ptr s))"
proof -
  assume ok: "lock_ok s"
  obtain rs re where r: "resolve_range (fl_start fl) (fl_len fl) = (rs, re)" by fastforce
  obtain b s1 where b: "try_acquire f (cur s) (fl_type fl) rs re s = (b, s1)" by fastforce
  have "lock_ok s1" using try_acquire_ok [OF ok, of f "cur s" "fl_type fl" rs re] b by simp
  moreover have "lock_ok (release_range f (cur s) rs re s)" by (rule release_range_ok [OF ok])
  ultimately show ?thesis
    using ok r b by (auto simp: fcntl_lock_def Let_def write_blocking_def split: option.splits bool.splits)
qed

lemma fcntl_command_ok: "lock_ok s \<Longrightarrow> lock_ok (snd (fcntl_command x fd obj cmd arg2 s))"
proof -
  assume ok: "lock_ok s"
  have "lock_ok (snd (fcntl_dupfd x obj n s))" for n
    using ok by (simp add: fcntl_dupfd_def upd_fds_def split: option.split)
  moreover have "lock_ok (snd (fcntl_flock cmd obj ptr s))" for ptr
    using ok fcntl_lock_ok [OF ok] by (simp add: fcntl_flock_def split: option.split)
  ultimately show ?thesis using ok by (simp add: fcntl_command_def upd_fds_def)
qed

lemma sys_fcntl_ok: "lock_ok s \<Longrightarrow> lock_ok (snd (sys_fcntl a c b s))"
proof -
  assume ok: "lock_ok s"
  have "lock_ok (snd (fcntl_set_vfs x fd v s))" for x fd v
    using ok by (simp add: fcntl_set_vfs_def upd_fds_def split: prod.split rr.split)
  with fcntl_command_ok [OF ok] ok show ?thesis by (simp add: sys_fcntl_def Let_def split: option.split)
qed

section \<open>Properties\<close>

definition sample_lock :: "pid \<Rightarrow> int \<Rightarrow> int \<Rightarrow> int \<Rightarrow> lock_entry" where
  "sample_lock p ty a b = \<lparr>lpid = p, l_type = ty, l_start = a, l_end = b\<rparr>"

text \<open>C8: File locks exclude each other: no sequence step of \<open>fcntl\<close>, no close and no exit of a process lets a
  write lock of one process cover a byte that another process has locked, and a request is granted
  exactly when no lock of another process conflicts with it.\<close>

theorem locks_stay_exclusive:
  assumes "lock_ok s"
  shows "lock_ok (snd (sys_fcntl a c b s)) \<and> lock_ok (release_fd_locks f p s) \<and> lock_ok (release_all_locks p s)
    \<and> (fst (try_acquire f p ty rs re s) \<longleftrightarrow> (\<forall>e \<in> set (locks_of f s). \<not> conflicts p ty rs re e))"
  using sys_fcntl_ok [OF assms] release_range_ok [OF assms] release_all_locks_ok [OF assms]
  by (simp add: release_fd_locks_def try_acquire_iff)

theorem locks_stay_exclusive_witness:
  "lock_ok (release_all_locks 1 ((sample_sys [])\<lparr>file_locks := [(3, [sample_lock 1 F_WRLCK 0 10, sample_lock 2 F_WRLCK 10 20])]\<rparr>))"
proof -
  let ?s = "(sample_sys [])\<lparr>file_locks := [(3, [sample_lock 1 F_WRLCK 0 10, sample_lock 2 F_WRLCK 10 20])]\<rparr>"
  have "lock_ok ?s" by (auto simp: lock_ok_def locks_of_def compatible_def sample_lock_def ranges_overlap_def split: option.splits if_splits)
  from locks_stay_exclusive [OF this, where p = 1] show ?thesis by blast
qed

end
