(* ===== verification/Sync_Ipc.thy ===== *)
theory Sync_Ipc
  imports Process
begin

text \<open>Synchronous and mailbox IPC, \<open>src/syscall/ipc.rs\<close>: \<open>sys_ipc_send\<close>, \<open>sys_ipc_receive\<close>,
  \<open>sys_ipc_sendrec\<close>, the kernel's own \<open>kernel_send_msg\<close>, and the mailbox calls.  A call that blocks
  steps \<open>sepc\<close> back, so it is made again when the process next runs; \<open>None\<close> results of
  \<open>unwrap\<close> and a second acquisition of a held lock end in \<open>Crash\<close>.\<close>

section \<open>The calls\<close>

definition ANY :: pid where "ANY = - 1"

definition USIZE_MAX :: usize where "USIZE_MAX = - 1"

definition msg_ptr_ok :: "usize \<Rightarrow> bool" where
  "msg_ptr_ok p \<longleftrightarrow> is_user_pointer_valid 64 p 1"

definition unwrap_none :: string where
  "unwrap_none = ''called Option::unwrap() on a None value''"

definition recursive_lock :: string where
  "recursive_lock = ''Recursive lock deadlock detected!''"

definition local_msg :: "usize \<Rightarrow> sys \<Rightarrow> ipc_msg" where
  "local_msg ptr s = (read_msg (mem_now s) ptr)\<lparr>source := cur s\<rparr>"

text \<open>Depositing a message with a process that waits for it.\<close>

definition deposit :: "pid \<Rightarrow> ipc_msg \<Rightarrow> sys \<Rightarrow> sys" where
  "deposit t m s = enq t (modify t (\<lambda>x. x\<lparr>istate := MessageAvailable m\<rparr>) s)"

definition kernel_send_msg :: "pid \<Rightarrow> ipc_msg \<Rightarrow> sys \<Rightarrow> sys" where
  "kernel_send_msg t m s =
     (case get_proc s t of
        None \<Rightarrow> s
      | Some x \<Rightarrow>
          (case istate x of
             Receiving src _ \<Rightarrow>
               if src = source m \<or> src = ANY then deposit t m s
               else modify t (\<lambda>x. x\<lparr>irq_pending := irq_pending x @ [m]\<rparr>) s
           | NoIpc \<Rightarrow> modify t (\<lambda>x. x\<lparr>istate := MessageAvailable m\<rparr>) s
           | _ \<Rightarrow> modify t (\<lambda>x. x\<lparr>irq_pending := irq_pending x @ [m]\<rparr>) s))"

definition waits_for :: "pid \<Rightarrow> ipc_state \<Rightarrow> bool" where
  "waits_for p st \<longleftrightarrow>
     (case st of
        Receiving src _ \<Rightarrow> src = p \<or> src = ANY
      | ReceivingReply src _ \<Rightarrow> src = p \<or> src = ANY
      | _ \<Rightarrow> False)"

text \<open>Queueing behind a target that does not wait.\<close>

definition queue_send :: "pid \<Rightarrow> ipc_msg \<Rightarrow> usize option \<Rightarrow> sys \<Rightarrow> outcome \<times> sys" where
  "queue_send t m reply s =
     block (modify t (\<lambda>x. x\<lparr>senders := senders x @ [cur s]\<rparr>)
             (modify (cur s) (\<lambda>x. x\<lparr>istate := Sending t m reply\<rparr>) s))"

definition sys_ipc_send :: "usize \<Rightarrow> usize \<Rightarrow> sys \<Rightarrow> outcome \<times> sys" where
  "sys_ipc_send arg0 msg_ptr s =
     (let t = as_i32 arg0; me = cur s in
      case get_proc s me of
        None \<Rightarrow> (Crash unwrap_none, s)
      | Some x \<Rightarrow>
          if istate x = SendComplete then finish 0 (modify me (\<lambda>x. x\<lparr>istate := NoIpc\<rparr>) s)
          else if \<not> msg_ptr_ok msg_ptr then finish USIZE_MAX s
          else
            let m = local_msg msg_ptr s in
            (case get_proc s t of
               None \<Rightarrow> finish USIZE_MAX s
             | Some y \<Rightarrow>
                 if waits_for me (istate y) then finish 0 (deposit t m s)
                 else if t = me then (Crash recursive_lock, s)
                 else queue_send t m None s))"

text \<open>The three places a receive looks, in order.\<close>

definition receive_available :: "usize \<Rightarrow> ipc_msg \<Rightarrow> process \<Rightarrow> sys \<Rightarrow> outcome \<times> sys" where
  "receive_available msg_ptr m x s =
     (if \<not> msg_ptr_ok msg_ptr then finish USIZE_MAX s
      else
        let (next, rest) =
              (case irq_pending x of [] \<Rightarrow> (NoIpc, []) | n # ns \<Rightarrow> (MessageAvailable n, ns))
        in finish (word_of_int (source m))
             (modify (cur s) (\<lambda>x. x\<lparr>istate := next, irq_pending := rest\<rparr>) (copy_out msg_ptr (msg_bytes m) s)))"

definition receive_pending :: "usize \<Rightarrow> ipc_msg \<Rightarrow> ipc_msg list \<Rightarrow> sys \<Rightarrow> outcome \<times> sys" where
  "receive_pending msg_ptr m rest s =
     (let s1 = modify (cur s) (\<lambda>x. x\<lparr>irq_pending := rest\<rparr>) s in
      if \<not> msg_ptr_ok msg_ptr then finish USIZE_MAX s1
      else finish (word_of_int (source m)) (copy_out msg_ptr (msg_bytes m) s1))"

definition receive_sender :: "usize \<Rightarrow> pid \<Rightarrow> pid list \<Rightarrow> sys \<Rightarrow> outcome \<times> sys" where
  "receive_sender msg_ptr p rest s =
     (let s1 = modify (cur s) (\<lambda>x. x\<lparr>senders := rest\<rparr>) s in
      case get_proc s1 p of
        None \<Rightarrow> (Crash unwrap_none, s1)
      | Some y \<Rightarrow>
          (case istate y of
             Sending _ m reply \<Rightarrow>
               if \<not> msg_ptr_ok msg_ptr then finish USIZE_MAX s1
               else
                 let s2 = copy_out msg_ptr (msg_bytes m) s1 in
                 finish (word_of_int (source m))
                   (case reply of
                      Some r \<Rightarrow> modify p (\<lambda>y. y\<lparr>istate := ReceivingReply (cur s) r\<rparr>) s2
                    | None \<Rightarrow> enq p (modify p (\<lambda>y. y\<lparr>istate := SendComplete\<rparr>) s2))
           | _ \<Rightarrow> finish USIZE_MAX s1))"

definition sys_ipc_receive :: "usize \<Rightarrow> usize \<Rightarrow> sys \<Rightarrow> outcome \<times> sys" where
  "sys_ipc_receive arg0 msg_ptr s =
     (let from = as_i32 arg0; me = cur s in
      case get_proc s me of
        None \<Rightarrow> (Crash unwrap_none, s)
      | Some x \<Rightarrow>
          (case istate x of
             MessageAvailable m \<Rightarrow> receive_available msg_ptr m x s
           | _ \<Rightarrow>
               (case List.extract (\<lambda>m. from = ANY \<or> from = source m) (irq_pending x) of
                  Some (pre, m, post) \<Rightarrow> receive_pending msg_ptr m (pre @ post) s
                | None \<Rightarrow>
                    (case List.extract (\<lambda>p. from = ANY \<or> from = p) (senders x) of
                       Some (pre, p, post) \<Rightarrow> receive_sender msg_ptr p (pre @ post) s
                     | None \<Rightarrow> block (modify me (\<lambda>x. x\<lparr>istate := Receiving from msg_ptr\<rparr>) s)))))"

definition sys_ipc_sendrec :: "usize \<Rightarrow> usize \<Rightarrow> sys \<Rightarrow> outcome \<times> sys" where
  "sys_ipc_sendrec arg0 msg_ptr s =
     (let t = as_i32 arg0; me = cur s in
      case get_proc s me of
        None \<Rightarrow> (Crash unwrap_none, s)
      | Some x \<Rightarrow>
          (case istate x of
             MessageAvailable m \<Rightarrow>
               finish 0 (modify me (\<lambda>x. x\<lparr>istate := NoIpc\<rparr>) (copy_out msg_ptr (msg_bytes m) s))
           | ReceivingReply _ _ \<Rightarrow> block s
           | NoIpc \<Rightarrow>
               let m = local_msg msg_ptr s in
               (case get_proc s t of
                  None \<Rightarrow> finish USIZE_MAX s
                | Some y \<Rightarrow>
                    if t = me then (Crash recursive_lock, s)
                    else
                      (case istate y of
                         Receiving src _ \<Rightarrow>
                           if src = me \<or> src = ANY
                           then block (modify me (\<lambda>x. x\<lparr>istate := ReceivingReply t msg_ptr\<rparr>) (deposit t m s))
                           else queue_send t m (Some msg_ptr) s
                       | _ \<Rightarrow> queue_send t m (Some msg_ptr) s))
           | _ \<Rightarrow> finish USIZE_MAX (modify me (\<lambda>x. x\<lparr>istate := NoIpc\<rparr>) s)))"

section \<open>Mailboxes\<close>

definition read_bytes :: "(usize \<Rightarrow> u8) \<Rightarrow> usize \<Rightarrow> nat \<Rightarrow> u8 list" where
  "read_bytes mm p n = map (\<lambda>i. mm (p + of_nat i)) [0..<n]"

definition sys_mailbox_send :: "usize \<Rightarrow> usize \<Rightarrow> usize \<Rightarrow> sys \<Rightarrow> outcome \<times> sys" where
  "sys_mailbox_send arg0 ptr len s =
     (let t = as_i32 arg0 in
      if 4096 < len then finish USIZE_MAX s
      else if \<not> is_user_pointer_valid 1 ptr len then finish USIZE_MAX s
      else
        let buf = read_bytes (mem_now s) ptr (unat len) in
        (case get_proc s t of
           None \<Rightarrow> finish USIZE_MAX s
         | Some y \<Rightarrow>
             let s1 = modify t (\<lambda>y. y\<lparr>mailbox := mailbox y @ [(cur s, buf)]\<rparr>) s in
             finish 0
               (if mailbox_waiter y \<noteq> 0 then
                  let s2 = modify t (\<lambda>y. y\<lparr>mailbox_waiter := 0\<rparr>) s1 in
                  if pstate y = Stopped then enq t (modify t (\<lambda>y. y\<lparr>pstate := Running\<rparr>) s2) else s2
                else s1)))"

definition sys_mailbox_receive :: "usize \<Rightarrow> usize \<Rightarrow> usize \<Rightarrow> sys \<Rightarrow> outcome \<times> sys" where
  "sys_mailbox_receive ptr max_len from_ptr s =
     (case get_proc s (cur s) of
        None \<Rightarrow> finish ESRCH s
      | Some x \<Rightarrow>
          (case mailbox x of
             (sender, buf) # rest \<Rightarrow>
               let n = min (unat max_len) (length buf);
                   s1 = modify (cur s) (\<lambda>x. x\<lparr>mailbox := rest\<rparr>) s in
               if \<not> is_user_pointer_valid 1 ptr (of_nat n) then finish USIZE_MAX s1
               else
                 let s2 = copy_out ptr (take n buf) s1 in
                 finish (of_nat n)
                   (if from_ptr \<noteq> 0 then copy_out from_ptr (le32_bytes (word_of_int sender)) s2 else s2)
           | [] \<Rightarrow>
               block (modify (cur s) (\<lambda>x. x\<lparr>mailbox_waiter := 1, pstate := Stopped\<rparr>) s)))"

section \<open>Queued senders are blocked senders\<close>

text \<open>Every process in a sender queue exists, is blocked sending to the owner of that queue with a
  message in its own name, and is queued once.\<close>

fun sending :: "ipc_state \<Rightarrow> bool" where
  "sending (Sending _ _ _) = True"
| "sending _ = False"

definition ipc_ok :: "(pid \<Rightarrow> process option) \<Rightarrow> bool" where
  "ipc_ok g \<longleftrightarrow>
     (\<forall>t y. g t = Some y \<longrightarrow>
        distinct (senders y)
      \<and> (\<forall>p \<in> set (senders y). \<exists>x m r. g p = Some x \<and> istate x = Sending t m r \<and> source m = p))"

lemma ipc_okD:
  assumes "ipc_ok g" "g t = Some y"
  shows "distinct (senders y)"
    "p \<in> set (senders y) \<Longrightarrow> \<exists>x m r. g p = Some x \<and> istate x = Sending t m r \<and> source m = p"
  using assms unfolding ipc_ok_def by blast+

lemma not_sending_not_queued:
  assumes "ipc_ok g" "g t = Some y" "g p = Some x" "\<not> sending (istate x)"
  shows "p \<notin> set (senders y)"
  using ipc_okD(2) [OF assms(1,2), of p] assms(3,4) by auto

lemma ok_modify:
  assumes ok: "ipc_ok (get_proc s)"
    and f: "\<And>x. get_proc s q = Some x \<Longrightarrow> senders (f x) = senders x \<and> (istate (f x) = istate x \<or> \<not> sending (istate x))"
  shows "ipc_ok (get_proc (modify q f s))"
  unfolding ipc_ok_def
proof (intro allI impI conjI ballI)
  fix t y assume "get_proc (modify q f s) t = Some y"
  then obtain y0 where y0: "get_proc s t = Some y0" "senders y = senders y0"
    using f by (auto split: if_splits)
  show "distinct (senders y)" using ipc_okD(1) [OF ok y0(1)] y0(2) by simp
  fix p assume "p \<in> set (senders y)"
  then obtain x m r where x: "get_proc s p = Some x" "istate x = Sending t m r" "source m = p"
    using ipc_okD(2) [OF ok y0(1)] y0(2) by metis
  then show "\<exists>x m r. get_proc (modify q f s) p = Some x \<and> istate x = Sending t m r \<and> source m = p"
    using f [of x] by (cases "p = q") auto
qed

lemma ok_finish: "ipc_ok (get_proc s) \<Longrightarrow> ipc_ok (get_proc (snd (finish v s)))"
  by (simp add: ok_modify del: get_proc_modify)

lemma ok_block: "ipc_ok (get_proc s) \<Longrightarrow> ipc_ok (get_proc (snd (block s)))"
  by (simp add: ok_modify del: get_proc_modify)

lemma ok_deposit:
  "ipc_ok (get_proc s) \<Longrightarrow> get_proc s t = Some y \<Longrightarrow> \<not> sending (istate y)
    \<Longrightarrow> ipc_ok (get_proc (deposit t m s))"
  unfolding deposit_def get_proc_enq by (rule ok_modify) auto

lemma ok_queue_send:
  assumes ok: "ipc_ok (get_proc s)" and x: "get_proc s (cur s) = Some x" "\<not> sending (istate x)"
    and t: "t \<noteq> cur s" and m: "source m = cur s"
  shows "ipc_ok (get_proc (snd (queue_send t m reply s)))"
proof -
  let ?s1 = "modify (cur s) (\<lambda>x. x\<lparr>istate := Sending t m reply\<rparr>) s"
  let ?s2 = "modify t (\<lambda>x. x\<lparr>senders := senders x @ [cur s]\<rparr>) ?s1"
  have "ipc_ok (get_proc ?s2)"
    unfolding ipc_ok_def
  proof (intro allI impI conjI ballI)
    fix u y assume y: "get_proc ?s2 u = Some y"
    then obtain y0 where y0: "get_proc s u = Some y0"
      "senders y = (if u = t then senders y0 @ [cur s] else senders y0)"
      using t by (auto split: if_splits)
    have nq: "cur s \<notin> set (senders y0)" by (rule not_sending_not_queued [OF ok y0(1) x])
    show "distinct (senders y)" using ipc_okD(1) [OF ok y0(1)] y0(2) nq by simp
    fix p assume p: "p \<in> set (senders y)"
    show "\<exists>x m r. get_proc ?s2 p = Some x \<and> istate x = Sending u m r \<and> source m = p"
    proof (cases "p \<in> set (senders y0)")
      case True
      then have "p \<noteq> cur s" using nq by auto
      then show ?thesis using ipc_okD(2) [OF ok y0(1) True] by auto
    next
      case False
      then have "p = cur s" "u = t" using p y0(2) by (auto split: if_splits)
      then show ?thesis using x(1) t m by auto
    qed
  qed
  from ok_block [OF this] show ?thesis unfolding queue_send_def .
qed

lemma ok_dequeue:
  assumes ok: "ipc_ok (get_proc s)" and x: "get_proc s (cur s) = Some x" "senders x = pre @ p # post"
    and f: "\<And>y. senders (f y) = senders y"
  shows "ipc_ok (get_proc (modify p f (modify (cur s) (\<lambda>x. x\<lparr>senders := pre @ post\<rparr>) s)))"
  unfolding ipc_ok_def
proof (intro allI impI conjI ballI)
  let ?g = "get_proc (modify p f (modify (cur s) (\<lambda>x. x\<lparr>senders := pre @ post\<rparr>) s))"
  obtain px m0 r0 where px: "get_proc s p = Some px" "istate px = Sending (cur s) m0 r0"
    using ipc_okD(2) [OF ok x(1), of p] x(2) by auto
  have d: "distinct (pre @ p # post)" using ipc_okD(1) [OF ok x(1)] x(2) by simp
  fix u y assume "?g u = Some y"
  then obtain y0 where y0: "get_proc s u = Some y0" "senders y = (if u = cur s then pre @ post else senders y0)"
    using f x(1) by (auto split: if_splits)
  have sub: "set (senders y) \<subseteq> set (senders y0)" and pn: "p \<notin> set (senders y)"
    using y0 x d ipc_okD(2) [OF ok y0(1), of p] px by auto
  show "distinct (senders y)" using ipc_okD(1) [OF ok y0(1)] y0(2) d by simp
  fix q assume q: "q \<in> set (senders y)"
  then obtain z m r where z: "get_proc s q = Some z" "istate z = Sending u m r" "source m = q"
    using ipc_okD(2) [OF ok y0(1)] sub by blast
  have "q \<noteq> p" using q pn by auto
  then show "\<exists>z m r. ?g q = Some z \<and> istate z = Sending u m r \<and> source m = q" using z by auto
qed

section \<open>The IPC calls as a transition system\<close>

text \<open>Any interleaving of IPC calls by processes that are not blocked in IPC, and of messages from the
  kernel.  A call that crashes has no next state.\<close>

fun blocked :: "ipc_state \<Rightarrow> bool" where
  "blocked (Sending _ _ _) = True"
| "blocked (Receiving _ _) = True"
| "blocked (ReceivingReply _ _) = True"
| "blocked _ = False"

lemma sending_blocked: "sending st \<Longrightarrow> blocked st"
  by (cases st) auto

inductive ipc_step :: "sys \<Rightarrow> sys \<Rightarrow> bool" where
  send: "get_proc s p = Some x \<Longrightarrow> \<not> blocked (istate x)
    \<Longrightarrow> sys_ipc_send a ptr (switch_to p s) = (out, s') \<Longrightarrow> \<forall>e. out \<noteq> Crash e \<Longrightarrow> ipc_step s s'"
| receive: "get_proc s p = Some x \<Longrightarrow> \<not> blocked (istate x)
    \<Longrightarrow> sys_ipc_receive a ptr (switch_to p s) = (out, s') \<Longrightarrow> \<forall>e. out \<noteq> Crash e \<Longrightarrow> ipc_step s s'"
| sendrec: "get_proc s p = Some x \<Longrightarrow> \<not> blocked (istate x)
    \<Longrightarrow> sys_ipc_sendrec a ptr (switch_to p s) = (out, s') \<Longrightarrow> \<forall>e. out \<noteq> Crash e \<Longrightarrow> ipc_step s s'"
| interrupt: "ipc_step s (kernel_send_msg t m s)"

lemma waits_not_sending: "waits_for p st \<Longrightarrow> \<not> sending st"
  by (cases st) (auto simp: waits_for_def)

lemma source_local_msg [simp]: "source (local_msg ptr s) = cur s"
  by (simp add: local_msg_def)

lemma ok_kernel_send_msg:
  assumes ok: "ipc_ok (get_proc s)"
  shows "ipc_ok (get_proc (kernel_send_msg t m s))"
proof (cases "get_proc s t")
  case None
  then show ?thesis using ok by (simp add: kernel_send_msg_def)
next
  case (Some x)
  have pend: "ipc_ok (get_proc (modify t (\<lambda>x. x\<lparr>irq_pending := irq_pending x @ [m]\<rparr>) s))"
    by (rule ok_modify [OF ok]) simp
  have avail: "ipc_ok (get_proc (modify t (\<lambda>x. x\<lparr>istate := MessageAvailable m\<rparr>) s))" if "\<not> sending (istate x)"
    by (rule ok_modify [OF ok]) (use that Some in simp)
  have dep: "ipc_ok (get_proc (deposit t m s))" if "\<not> sending (istate x)"
    by (rule ok_deposit [OF ok Some that])
  show ?thesis
    using pend avail dep Some by (cases "istate x") (auto simp: kernel_send_msg_def simp del: get_proc_modify)
qed

lemma ok_send:
  assumes ok: "ipc_ok (get_proc s)" and x: "get_proc s (cur s) = Some x" "\<not> blocked (istate x)"
  shows "ipc_ok (get_proc (snd (sys_ipc_send a ptr s)))"
proof -
  have ns: "\<not> sending (istate x)" using x(2) sending_blocked by blast
  let ?t = "as_i32 a"
  have fin: "ipc_ok (get_proc (snd (finish v s)))" for v by (rule ok_finish [OF ok])
  have done': "ipc_ok (get_proc (snd (finish 0 (modify (cur s) (\<lambda>x. x\<lparr>istate := NoIpc\<rparr>) s))))"
    by (rule ok_finish, rule ok_modify [OF ok]) (use x(1) ns in simp)
  have dep: "ipc_ok (get_proc (snd (finish 0 (deposit ?t (local_msg ptr s) s))))"
    if "get_proc s ?t = Some y" "waits_for (cur s) (istate y)" for y
    by (rule ok_finish, rule ok_deposit [OF ok that(1)]) (rule waits_not_sending [OF that(2)])
  have q: "ipc_ok (get_proc (snd (queue_send ?t (local_msg ptr s) None s)))" if "?t \<noteq> cur s"
    by (rule ok_queue_send [OF ok x(1) ns that]) simp
  show ?thesis
    unfolding sys_ipc_send_def Let_def x(1) option.case
    using fin done' dep q ok by (cases "get_proc s ?t") (auto simp del: outcome_simps get_proc_modify)
qed

lemma ok_receive_sender:
  assumes ok: "ipc_ok (get_proc s)" and x: "get_proc s (cur s) = Some x" "senders x = pre @ p # post"
  shows "ipc_ok (get_proc (snd (receive_sender ptr p (pre @ post) s)))"
    and "fst (receive_sender ptr p (pre @ post) s) = Return"
proof -
  let ?s1 = "modify (cur s) (\<lambda>x. x\<lparr>senders := pre @ post\<rparr>) s"
  obtain px m r where px: "get_proc s p = Some px" "istate px = Sending (cur s) m r"
    using ipc_okD(2) [OF ok x(1), of p] x(2) by auto
  then obtain py where py: "get_proc ?s1 p = Some py" "istate py = Sending (cur s) m r"
    by (cases "p = cur s") auto
  have deq: "ipc_ok (get_proc (modify p f ?s1))" if "\<And>y. senders (f y) = senders y" for f
    by (rule ok_dequeue [OF ok x that])
  have "get_proc (modify p (\<lambda>x. x) ?s1) = get_proc ?s1" by (auto simp: fun_eq_iff option.map_ident)
  then have ok1: "ipc_ok (get_proc ?s1)" using deq [of "\<lambda>x. x"] by simp
  have cm: "get_proc (modify p f (copy_out ptr bs ?s1)) = get_proc (modify p f ?s1)" for f bs
    by (simp add: fun_eq_iff)
  show "fst (receive_sender ptr p (pre @ post) s) = Return"
    unfolding receive_sender_def Let_def py option.case ipc_state.case by simp
  show "ipc_ok (get_proc (snd (receive_sender ptr p (pre @ post) s)))"
  proof (cases "msg_ptr_ok ptr")
    case False
    then show ?thesis
      unfolding receive_sender_def Let_def py option.case ipc_state.case by (simp add: ok_finish [OF ok1] del: outcome_simps)
  next
    case True
    have "ipc_ok (get_proc (case r of
        Some r \<Rightarrow> modify p (\<lambda>y. y\<lparr>istate := ReceivingReply (cur s) r\<rparr>) (copy_out ptr (msg_bytes m) ?s1)
      | None \<Rightarrow> enq p (modify p (\<lambda>y. y\<lparr>istate := SendComplete\<rparr>) (copy_out ptr (msg_bytes m) ?s1))))"
      by (cases r) (simp_all add: cm deq del: get_proc_modify)
    from ok_finish [OF this] True show ?thesis
      unfolding receive_sender_def Let_def py option.case ipc_state.case by (simp del: outcome_simps)
  qed
qed

lemma ok_receive_available:
  assumes "ipc_ok (get_proc s)" "get_proc s (cur s) = Some x" "\<not> sending (istate x)"
  shows "ipc_ok (get_proc (snd (receive_available ptr m x s)))" "fst (receive_available ptr m x s) = Return"
proof -
  have "ipc_ok (get_proc (modify (cur s) (\<lambda>x. x\<lparr>istate := n, irq_pending := ms\<rparr>) (copy_out ptr bs s)))" for n ms bs
    by (rule ok_modify) (use assms in auto)
  from ok_finish [OF this] ok_finish [OF assms(1)]
  show "ipc_ok (get_proc (snd (receive_available ptr m x s)))"
    by (auto simp: receive_available_def Let_def simp del: outcome_simps get_proc_modify split: prod.splits)
  show "fst (receive_available ptr m x s) = Return" by (simp add: receive_available_def split: prod.splits)
qed

lemma ok_receive_pending:
  assumes "ipc_ok (get_proc s)"
  shows "ipc_ok (get_proc (snd (receive_pending ptr m rest s)))" "fst (receive_pending ptr m rest s) = Return"
proof -
  have 1: "ipc_ok (get_proc (modify (cur s) (\<lambda>x. x\<lparr>irq_pending := rest\<rparr>) s))" by (rule ok_modify [OF assms]) simp
  then have "ipc_ok (get_proc (copy_out ptr bs (modify (cur s) (\<lambda>x. x\<lparr>irq_pending := rest\<rparr>) s)))" for bs
    unfolding get_proc_copy_out .
  from ok_finish [OF this] ok_finish [OF 1] show "ipc_ok (get_proc (snd (receive_pending ptr m rest s)))"
    by (simp add: receive_pending_def Let_def del: outcome_simps get_proc_modify)
  show "fst (receive_pending ptr m rest s) = Return" by (simp add: receive_pending_def Let_def)
qed

lemma ok_receive:
  assumes ok: "ipc_ok (get_proc s)" and x: "get_proc s (cur s) = Some x" "\<not> blocked (istate x)"
  shows "ipc_ok (get_proc (snd (sys_ipc_receive a ptr s)))" "\<forall>e. fst (sys_ipc_receive a ptr s) \<noteq> Crash e"
proof -
  have ns: "\<not> sending (istate x)" using x(2) sending_blocked by blast
  let ?from = "as_i32 a"
  note avail = ok_receive_available [OF ok x(1) ns] and pend = ok_receive_pending [OF ok]
  have blk: "ipc_ok (get_proc (snd (block (modify (cur s) (\<lambda>x. x\<lparr>istate := Receiving ?from ptr\<rparr>) s))))"
    by (rule ok_block, rule ok_modify [OF ok]) (use x(1) ns in simp)
  have wait: "ipc_ok (get_proc (snd r)) \<and> (\<forall>e. fst r \<noteq> Crash e)"
    if r: "r = (case List.extract (\<lambda>p. ?from = ANY \<or> ?from = p) (senders x) of
        Some (pre, p, post) \<Rightarrow> receive_sender ptr p (pre @ post) s
      | None \<Rightarrow> block (modify (cur s) (\<lambda>x. x\<lparr>istate := Receiving ?from ptr\<rparr>) s))" for r
  proof (cases "List.extract (\<lambda>p. ?from = ANY \<or> ?from = p) (senders x)")
    case None
    then show ?thesis using blk r by (simp del: get_proc_modify)
  next
    case (Some e)
    then obtain pre p post where e: "e = (pre, p, post)" "senders x = pre @ p # post"
      by (cases e) (auto simp: extract_Some_iff)
    show ?thesis using ok_receive_sender [OF ok x(1) e(2), of ptr] r Some e(1) by simp
  qed
  show "ipc_ok (get_proc (snd (sys_ipc_receive a ptr s)))"
    unfolding sys_ipc_receive_def Let_def x(1) option.case using avail(1) pend(1) wait [OF refl]
    by (auto split: ipc_state.splits option.splits simp del: get_proc_modify outcome_simps)
  show "\<forall>e. fst (sys_ipc_receive a ptr s) \<noteq> Crash e"
    unfolding sys_ipc_receive_def Let_def x(1) option.case using avail(2) pend(2) wait [OF refl]
    by (auto split: ipc_state.splits option.splits simp del: get_proc_modify outcome_simps)
qed

lemma ok_sendrec:
  assumes ok: "ipc_ok (get_proc s)" and x: "get_proc s (cur s) = Some x" "\<not> blocked (istate x)"
  shows "ipc_ok (get_proc (snd (sys_ipc_sendrec a ptr s)))"
proof -
  have ns: "\<not> sending (istate x)" using x(2) sending_blocked by blast
  let ?t = "as_i32 a" and ?m = "local_msg ptr s"
  have set_state: "ipc_ok (get_proc (modify (cur s) (\<lambda>x. x\<lparr>istate := n\<rparr>) s'))"
    if "get_proc s' = get_proc s" for s' n
    by (rule ok_modify) (use ok x(1) ns that in auto)
  have fin: "ipc_ok (get_proc (snd (finish v s)))" for v by (rule ok_finish [OF ok])
  have fin_set: "ipc_ok (get_proc (snd (finish v (modify (cur s) (\<lambda>x. x\<lparr>istate := n\<rparr>) s))))" for v n
    by (rule ok_finish, rule set_state) simp
  have fin_out: "ipc_ok (get_proc (snd (finish v (modify (cur s) (\<lambda>x. x\<lparr>istate := n\<rparr>) (copy_out ptr bs s)))))" for v n bs
    by (rule ok_finish, rule set_state) simp
  have blk: "ipc_ok (get_proc (snd (block s)))" by (rule ok_block [OF ok])
  have q: "ipc_ok (get_proc (snd (queue_send ?t ?m (Some ptr) s)))" if "?t \<noteq> cur s"
    by (rule ok_queue_send [OF ok x(1) ns that]) simp
  have dep: "ipc_ok (get_proc (snd (block (modify (cur s) (\<lambda>x. x\<lparr>istate := n\<rparr>) (deposit ?t ?m s)))))"
    if "?t \<noteq> cur s" "get_proc s ?t = Some y" "\<not> sending (istate y)" for y n
  proof (rule ok_block, rule ok_modify [OF ok_deposit [OF ok that(2,3)]])
    fix z assume "get_proc (deposit ?t ?m s) (cur s) = Some z"
    then have "z = x" using that(1) x(1) by (auto simp: deposit_def)
    then show "senders (z\<lparr>istate := n\<rparr>) = senders z \<and> (istate (z\<lparr>istate := n\<rparr>) = istate z \<or> \<not> sending (istate z))"
      using ns by simp
  qed
  show ?thesis
    unfolding sys_ipc_sendrec_def Let_def x(1) option.case using fin fin_set fin_out blk q dep ok
    by (auto split: ipc_state.splits option.splits if_splits simp del: get_proc_modify outcome_simps)
qed

lemma ipc_step_ok: "ipc_step s s' \<Longrightarrow> ipc_ok (get_proc s) \<Longrightarrow> ipc_ok (get_proc s')"
proof (induction rule: ipc_step.induct)
  case (send s p x a ptr out s')
  then show ?case using ok_send [of "switch_to p s" x a ptr] by simp
next
  case (receive s p x a ptr out s')
  then show ?case using ok_receive(1) [of "switch_to p s" x a ptr] by simp
next
  case (sendrec s p x a ptr out s')
  then show ?case using ok_sendrec [of "switch_to p s" x a ptr] by simp
next
  case (interrupt s t m)
  then show ?case by (rule ok_kernel_send_msg)
qed

lemma ipc_reachable_ok: "ipc_step\<^sup>*\<^sup>* s s' \<Longrightarrow> ipc_ok (get_proc s) \<Longrightarrow> ipc_ok (get_proc s')"
  by (induction rule: rtranclp_induct) (auto intro: ipc_step_ok)

lemma ipc_ok_initial: "\<forall>p x. g p = Some x \<longrightarrow> senders x = [] \<Longrightarrow> ipc_ok g"
  by (simp add: ipc_ok_def)

section \<open>What a call does, case by case\<close>

lemma send_to_waiting:
  assumes "get_proc s (cur s) = Some x" "istate x \<noteq> SendComplete" "msg_ptr_ok ptr"
    "get_proc s (as_i32 a) = Some y" "waits_for (cur s) (istate y)"
  shows "sys_ipc_send a ptr s = finish 0 (deposit (as_i32 a) (local_msg ptr s) s)"
  using assms by (simp add: sys_ipc_send_def Let_def)

lemma send_to_busy:
  assumes "get_proc s (cur s) = Some x" "istate x \<noteq> SendComplete" "msg_ptr_ok ptr"
    "get_proc s (as_i32 a) = Some y" "\<not> waits_for (cur s) (istate y)" "as_i32 a \<noteq> cur s"
  shows "sys_ipc_send a ptr s = queue_send (as_i32 a) (local_msg ptr s) None s"
  using assms by (simp add: sys_ipc_send_def Let_def)

lemma receive_deposited:
  assumes "get_proc s (cur s) = Some x" "istate x = MessageAvailable m"
  shows "sys_ipc_receive a ptr s = receive_available ptr m x s"
  using assms by (simp add: sys_ipc_receive_def Let_def)

lemma receive_available_ok:
  assumes "msg_ptr_ok ptr"
  obtains n rest where "receive_available ptr m x s = (Return, snd (finish (word_of_int (source m))
    (modify (cur s) (\<lambda>x. x\<lparr>istate := n, irq_pending := rest\<rparr>) (copy_out ptr (msg_bytes m) s))))"
proof (cases "irq_pending x")
  case Nil
  show ?thesis by (rule that [where n = NoIpc and rest = "[]"]) (simp add: receive_available_def finish_def assms Nil)
next
  case (Cons k ks)
  show ?thesis by (rule that [where n = "MessageAvailable k" and rest = ks]) (simp add: receive_available_def finish_def assms Cons)
qed

lemma receive_queued:
  assumes "get_proc s (cur s) = Some x" "\<forall>m. istate x \<noteq> MessageAvailable m"
    "\<forall>m \<in> set (irq_pending x). \<not> (as_i32 a = ANY \<or> as_i32 a = source m)"
    "senders x = pre @ p # post" "\<forall>q \<in> set pre. \<not> (as_i32 a = ANY \<or> as_i32 a = q)" "as_i32 a = ANY \<or> as_i32 a = p"
  shows "sys_ipc_receive a ptr s = receive_sender ptr p (pre @ post) s"
proof -
  have "List.extract (\<lambda>m. as_i32 a = ANY \<or> as_i32 a = source m) (irq_pending x) = None"
    using assms(3) by (simp add: extract_None_iff)
  moreover have "List.extract (\<lambda>p. as_i32 a = ANY \<or> as_i32 a = p) (senders x) = Some (pre, p, post)"
    using assms(4,5,6) by (simp add: extract_Some_iff)
  ultimately show ?thesis using assms(1,2) by (simp add: sys_ipc_receive_def Let_def split: ipc_state.splits)
qed

lemma length_data_read [simp]: "length (data (read_msg mm p)) = 56"
  by (simp add: read_msg_def)

lemma read_copied_msg:
  "pid_ok (cur s) \<Longrightarrow> read_msg (write_bytes buf (msg_bytes (local_msg ptr s)) mm) buf = local_msg ptr s"
  by (rule read_write_msg) (simp_all add: local_msg_def)

section \<open>Properties\<close>

definition sample_pair :: "ipc_state \<Rightarrow> ipc_state \<Rightarrow> sys" where
  "sample_pair st1 st2 =
     sample_sys [(1, blank_proc\<lparr>istate := st1, satp_val := 0x1000\<rparr>), (2, blank_proc\<lparr>istate := st2, satp_val := 0x2000\<rparr>)]"

lemma sample_pair_procs:
  "get_proc (sample_pair st1 st2) =
     [1 \<mapsto> blank_proc\<lparr>istate := st1, satp_val := 0x1000\<rparr>, 2 \<mapsto> blank_proc\<lparr>istate := st2, satp_val := 0x2000\<rparr>]"
  by (auto simp: sample_pair_def get_proc_sample fun_eq_iff)

lemma sample_ptr: "msg_ptr_ok 0x100001000"
  by (simp add: msg_ptr_ok_def is_user_pointer_valid_def saturating_add_def saturating_mul_def Let_def)

text \<open>C20: A send to a process that waits for it delivers at once: the sender returns 0, the receiver is queued
  to run, and when it makes its receive again it gets the sender's id and, in its own buffer, the
  message the sender's buffer held, with the sender's id as its source.\<close>

theorem rendezvous_delivers:
  assumes p: "get_proc s p = Some x" "istate x = NoIpc"
    and t: "get_proc s t = Some y" "istate y = Receiving src buf" "src = p \<or> src = ANY"
    and a: "t \<noteq> p" "pid_ok p" "msg_ptr_ok ptr" "msg_ptr_ok buf" "as_i32 a = t"
  shows "\<exists>s1 s2. sys_ipc_send a ptr (switch_to p s) = (Return, s1)
    \<and> map_option a0 (get_proc s1 p) = Some 0 \<and> runq s1 = rq_insert t (prio y) (runq s)
    \<and> sys_ipc_receive b buf (switch_to t s1) = (Return, s2)
    \<and> map_option a0 (get_proc s2 t) = Some (word_of_int p)
    \<and> read_msg (umem s2 (satp_val y)) buf = (read_msg (umem s (satp_val x)) ptr)\<lparr>source := p\<rparr>"
proof -
  define m where "m = local_msg ptr (switch_to p s)"
  define s1 where "s1 = snd (finish 0 (deposit t m (switch_to p s)))"
  have send: "sys_ipc_send a ptr (switch_to p s) = (Return, s1)"
    using send_to_waiting [of "switch_to p s" x ptr a y] p t a by (simp add: waits_for_def finish_def s1_def m_def)
  have y1: "get_proc s1 t = Some (y\<lparr>istate := MessageAvailable m\<rparr>)"
    and x1: "map_option a0 (get_proc s1 p) = Some 0" and rq: "runq s1 = rq_insert t (prio y) (runq s)"
    and um: "umem s1 = umem s"
    using p t a by (simp_all add: s1_def deposit_def)
  have cur': "cur (switch_to t s1) = t" "satp (switch_to t s1) = satp_val y" using y1 by simp_all
  obtain n rest where ra: "receive_available buf m (y\<lparr>istate := MessageAvailable m\<rparr>) (switch_to t s1) =
      (Return, snd (finish (word_of_int (source m)) (modify (cur (switch_to t s1))
        (\<lambda>x. x\<lparr>istate := n, irq_pending := rest\<rparr>) (copy_out buf (msg_bytes m) (switch_to t s1)))))"
    by (rule receive_available_ok [OF a(4)])
  define s2 where "s2 = modify t (\<lambda>x. x\<lparr>a0 := word_of_int (source m)\<rparr>)
    (modify t (\<lambda>x. x\<lparr>istate := n, irq_pending := rest\<rparr>) (copy_out buf (msg_bytes m) (switch_to t s1)))"
  have "sys_ipc_receive b buf (switch_to t s1) = receive_available buf m (y\<lparr>istate := MessageAvailable m\<rparr>) (switch_to t s1)"
    by (rule receive_deposited) (simp_all add: cur' y1)
  then have recv: "sys_ipc_receive b buf (switch_to t s1) = (Return, s2)" unfolding ra by (simp add: cur' s2_def)
  have um2: "umem s2 (satp_val y) = write_bytes buf (msg_bytes m) (umem s (satp_val y))"
    by (simp add: s2_def copy_out_def cur' um)
  have m: "m = (read_msg (umem s (satp_val x)) ptr)\<lparr>source := p\<rparr>" "source m = p"
    using p by (simp_all add: m_def local_msg_def mem_now_def)
  have "read_msg (umem s2 (satp_val y)) buf = m"
    unfolding um2 m_def using p a(2) by (intro read_copied_msg) simp
  then have rd: "read_msg (umem s2 (satp_val y)) buf = (read_msg (umem s (satp_val x)) ptr)\<lparr>source := p\<rparr>"
    by (simp add: m(1))
  have ret: "map_option a0 (get_proc s2 t) = Some (word_of_int p)"
    using y1 m(2) by (simp add: s2_def)
  show ?thesis by (rule exI [of _ s1], rule exI [of _ s2], intro conjI) (fact send x1 rq recv ret rd)+
qed

theorem rendezvous_delivers_witness:
  "\<exists>s1 s2. sys_ipc_send 2 0x100001000 (switch_to 1 (sample_pair NoIpc (Receiving 1 0x100001000))) = (Return, s1)
    \<and> sys_ipc_receive 1 0x100001000 (switch_to 2 s1) = (Return, s2)
    \<and> map_option a0 (get_proc s2 2) = Some (word_of_int 1)"
proof -
  let ?s = "sample_pair NoIpc (Receiving 1 0x100001000)"
  have x: "get_proc ?s 1 = Some (blank_proc\<lparr>istate := NoIpc, satp_val := 0x1000\<rparr>)"
    and y: "get_proc ?s 2 = Some (blank_proc\<lparr>istate := Receiving 1 0x100001000, satp_val := 0x2000\<rparr>)"
    by (simp_all add: sample_pair_procs)
  have "as_i32 2 = 2" "pid_ok 1" by (simp_all add: as_i32_def pid_ok_def)
  from rendezvous_delivers [OF x _ y, of 1 "0x100001000" "0x100001000" 2 1] this sample_ptr
  show ?thesis by auto
qed

text \<open>C21: A send to a process that is not ready blocks, and completes when the target receives: the sender is
  queued last and does not run; a receive that no earlier sender matches takes its message, returns
  its id and queues it to run; the sender's repeated call then returns 0 and leaves it out of IPC.\<close>

theorem blocked_send_completes:
  assumes p: "get_proc s p = Some x" "istate x = NoIpc"
    and t: "get_proc s t = Some y" "istate y = NoIpc" "irq_pending y = []"
    and b: "\<forall>q \<in> set (senders y). \<not> (as_i32 b = ANY \<or> as_i32 b = q)" "as_i32 b = ANY \<or> as_i32 b = p"
    and a: "t \<noteq> p" "pid_ok p" "msg_ptr_ok ptr" "msg_ptr_ok buf" "as_i32 a = t"
  shows "\<exists>s1 s2 s3. sys_ipc_send a ptr (switch_to p s) = (Blocked, s1)
    \<and> map_option senders (get_proc s1 t) = Some (senders y @ [p]) \<and> runq s1 = runq s
    \<and> sys_ipc_receive b buf (switch_to t s1) = (Return, s2)
    \<and> map_option a0 (get_proc s2 t) = Some (word_of_int p)
    \<and> map_option senders (get_proc s2 t) = Some (senders y)
    \<and> read_msg (umem s2 (satp_val y)) buf = (read_msg (umem s (satp_val x)) ptr)\<lparr>source := p\<rparr>
    \<and> runq s2 = rq_insert p (prio x) (runq s)
    \<and> sys_ipc_send a ptr (switch_to p s2) = (Return, s3)
    \<and> map_option a0 (get_proc s3 p) = Some 0 \<and> map_option istate (get_proc s3 p) = Some NoIpc"
proof -
  define m where "m = local_msg ptr (switch_to p s)"
  have m: "m = (read_msg (umem s (satp_val x)) ptr)\<lparr>source := p\<rparr>" "source m = p"
    using p by (simp_all add: m_def local_msg_def mem_now_def)
  define s1 where "s1 = snd (queue_send t m None (switch_to p s))"
  have send: "sys_ipc_send a ptr (switch_to p s) = (Blocked, s1)"
    using send_to_busy [of "switch_to p s" x ptr a y] p t a
    by (simp add: waits_for_def s1_def queue_send_def block_def m_def)
  have y1: "get_proc s1 t = Some (y\<lparr>senders := senders y @ [p]\<rparr>)"
    and x1: "get_proc s1 p = Some (x\<lparr>istate := Sending t m None, sepc := sepc x - 4\<rparr>)"
    and rq1: "runq s1 = runq s" and um1: "umem s1 = umem s"
    using p t a by (simp_all add: s1_def queue_send_def)
  let ?t = "switch_to t s1"
  have cur': "cur ?t = t" "satp ?t = satp_val y" using y1 by simp_all
  have "sys_ipc_receive b buf ?t = receive_sender buf p (senders y @ []) ?t"
  proof (rule receive_queued)
    show "get_proc ?t (cur ?t) = Some (y\<lparr>senders := senders y @ [p]\<rparr>)" by (simp add: cur' y1)
    show "\<forall>m. istate (y\<lparr>senders := senders y @ [p]\<rparr>) \<noteq> MessageAvailable m"
      "\<forall>m \<in> set (irq_pending (y\<lparr>senders := senders y @ [p]\<rparr>)). \<not> (as_i32 b = ANY \<or> as_i32 b = source m)"
      by (simp_all add: t(2,3))
  qed (simp, fact b(1), fact b(2))
  moreover define s2 where "s2 = modify t (\<lambda>x. x\<lparr>a0 := word_of_int p\<rparr>) (enq p
    (modify p (\<lambda>y. y\<lparr>istate := SendComplete\<rparr>) (copy_out buf (msg_bytes m) (modify t (\<lambda>x. x\<lparr>senders := senders y\<rparr>) ?t))))"
  ultimately have recv: "sys_ipc_receive b buf ?t = (Return, s2)"
    using x1 a(1,4) m(2) by (simp add: receive_sender_def cur' finish_def)
  have y2: "map_option a0 (get_proc s2 t) = Some (word_of_int p)" "map_option senders (get_proc s2 t) = Some (senders y)"
    and x2: "get_proc s2 p = Some (x\<lparr>istate := SendComplete, sepc := sepc x - 4\<rparr>)"
    and rq2: "runq s2 = rq_insert p (prio x) (runq s)"
    using x1 y1 a(1) rq1 by (simp_all add: s2_def)
  have um2: "umem s2 (satp_val y) = write_bytes buf (msg_bytes m) (umem s (satp_val y))"
    by (simp add: s2_def copy_out_def cur' um1)
  have "read_msg (umem s2 (satp_val y)) buf = m"
    unfolding um2 m_def using p a(2) by (intro read_copied_msg) simp
  then have rd: "read_msg (umem s2 (satp_val y)) buf = (read_msg (umem s (satp_val x)) ptr)\<lparr>source := p\<rparr>"
    by (simp add: m(1))
  define s3 where "s3 = snd (finish 0 (modify p (\<lambda>x. x\<lparr>istate := NoIpc\<rparr>) (switch_to p s2)))"
  have again: "sys_ipc_send a ptr (switch_to p s2) = (Return, s3)"
    using x2 by (simp add: sys_ipc_send_def Let_def finish_def s3_def)
  have x3: "map_option a0 (get_proc s3 p) = Some 0" "map_option istate (get_proc s3 p) = Some NoIpc"
    using x2 by (simp_all add: s3_def)
  have q: "map_option senders (get_proc s1 t) = Some (senders y @ [p])" using y1 by simp
  show ?thesis by (rule exI [of _ s1], rule exI [of _ s2], rule exI [of _ s3], intro conjI)
      (fact send q rq1 recv y2 rd rq2 again x3)+
qed

theorem blocked_send_completes_witness:
  "\<exists>s1 s2 s3. sys_ipc_send 2 0x100001000 (switch_to 1 (sample_pair NoIpc NoIpc)) = (Blocked, s1)
    \<and> sys_ipc_receive 1 0x100001000 (switch_to 2 s1) = (Return, s2)
    \<and> sys_ipc_send 2 0x100001000 (switch_to 1 s2) = (Return, s3)"
proof -
  let ?s = "sample_pair NoIpc NoIpc"
  have x: "get_proc ?s 1 = Some (blank_proc\<lparr>istate := NoIpc, satp_val := 0x1000\<rparr>)"
    and y: "get_proc ?s 2 = Some (blank_proc\<lparr>istate := NoIpc, satp_val := 0x2000\<rparr>)"
    by (simp_all add: sample_pair_procs)
  have "as_i32 2 = 2" "as_i32 1 = 1" "pid_ok 1" by (simp_all add: as_i32_def pid_ok_def)
  from blocked_send_completes [OF x _ y, of 1 "0x100001000" "0x100001000" 2] this sample_ptr
  show ?thesis by (auto simp: blank_proc_def)
qed

lemma sample_pair_step:
  "ipc_step (sample_pair NoIpc NoIpc) (snd (sys_ipc_send 2 0x100001000 (switch_to 1 (sample_pair NoIpc NoIpc))))"
proof (rule ipc_step.send)
  let ?s = "switch_to 1 (sample_pair NoIpc NoIpc)"
  show x: "get_proc (sample_pair NoIpc NoIpc) 1 = Some (blank_proc\<lparr>istate := NoIpc, satp_val := 0x1000\<rparr>)"
    by (simp add: sample_pair_procs)
  have c: "cur ?s = 1" using x by simp
  have "sys_ipc_send 2 0x100001000 ?s = queue_send (as_i32 2) (local_msg 0x100001000 ?s) None ?s"
    by (rule send_to_busy [where x = "blank_proc\<lparr>istate := NoIpc, satp_val := 0x1000\<rparr>"
          and y = "blank_proc\<lparr>istate := NoIpc, satp_val := 0x2000\<rparr>"])
       (simp_all add: c sample_pair_procs sample_ptr as_i32_def waits_for_def)
  then have "fst (sys_ipc_send 2 0x100001000 ?s) = Blocked" by (simp add: queue_send_def)
  then show "sys_ipc_send 2 0x100001000 ?s = (Blocked, snd (sys_ipc_send 2 0x100001000 ?s))" by (simp add: prod_eq_iff)
qed simp_all



text \<open>A call that sends and waits for the answer can take an interrupt for the answer: if the kernel
  deposits a message with a process that is not in IPC, its next \<open>sendrec\<close> returns 0 at once with
  that message in its buffer, and the request is never sent.\<close>

theorem sendrec_takes_interrupt_as_reply:
  assumes "get_proc s p = Some x" "istate x = NoIpc" "length (data m) = 56" "pid_ok (source m)"
  shows "\<exists>s'. sys_ipc_sendrec a ptr (switch_to p (kernel_send_msg p m s)) = (Return, s')
    \<and> map_option a0 (get_proc s' p) = Some 0 \<and> read_msg (umem s' (satp_val x)) ptr = m
    \<and> (\<forall>q. q \<noteq> p \<longrightarrow> get_proc s' q = get_proc s q) \<and> runq s' = runq s"
proof -
  define s1 where "s1 = switch_to p (kernel_send_msg p m s)"
  have s1: "get_proc s1 p = Some (x\<lparr>istate := MessageAvailable m\<rparr>)" "cur s1 = p" "satp s1 = satp_val x"
    "\<And>q. q \<noteq> p \<Longrightarrow> get_proc s1 q = get_proc s q" "runq s1 = runq s"
    using assms(1,2) by (simp_all add: s1_def kernel_send_msg_def)
  define s2 where "s2 = snd (finish 0 (modify p (\<lambda>x. x\<lparr>istate := NoIpc\<rparr>) (copy_out ptr (msg_bytes m) s1)))"
  have 1: "sys_ipc_sendrec a ptr s1 = (Return, s2)"
    using s1(1,2) by (simp add: sys_ipc_sendrec_def Let_def finish_def s2_def)
  have 2: "map_option a0 (get_proc s2 p) = Some 0" using s1(1,2) by (simp add: s2_def)
  have "umem s2 (satp_val x) = write_bytes ptr (msg_bytes m) (umem s1 (satp_val x))"
    using s1(3) by (simp add: s2_def copy_out_def)
  then have 3: "read_msg (umem s2 (satp_val x)) ptr = m" by (simp only: read_write_msg [OF assms(3,4)])
  have 4: "\<forall>q. q \<noteq> p \<longrightarrow> get_proc s2 q = get_proc s q" using s1(2,4) by (simp add: s2_def)
  have 5: "runq s2 = runq s" using s1(5) by (simp add: s2_def)
  show ?thesis unfolding s1_def [symmetric] by (rule exI [of _ s2], intro conjI) (fact 1 2 3 4 5)+
qed

theorem sendrec_takes_interrupt_as_reply_witness:
  "\<exists>s'. sys_ipc_sendrec 2 0x100001000
      (switch_to 1 (kernel_send_msg 1 \<lparr>source = - 2, mtype = 0, data = replicate 56 0\<rparr> (sample_pair NoIpc NoIpc))) = (Return, s')
    \<and> map_option senders (get_proc s' 2) = Some []"
proof -
  have x: "get_proc (sample_pair NoIpc NoIpc) 1 = Some (blank_proc\<lparr>istate := NoIpc, satp_val := 0x1000\<rparr>)"
    and y: "get_proc (sample_pair NoIpc NoIpc) 2 = Some (blank_proc\<lparr>istate := NoIpc, satp_val := 0x2000\<rparr>)"
    by (simp_all add: sample_pair_procs)
  have "\<exists>s'. sys_ipc_sendrec 2 0x100001000
      (switch_to 1 (kernel_send_msg 1 \<lparr>source = - 2, mtype = 0, data = replicate 56 0\<rparr> (sample_pair NoIpc NoIpc))) = (Return, s')
    \<and> (\<forall>q. q \<noteq> 1 \<longrightarrow> get_proc s' q = get_proc (sample_pair NoIpc NoIpc) q)"
    using sendrec_takes_interrupt_as_reply [OF x, of "\<lparr>source = - 2, mtype = 0, data = replicate 56 0\<rparr>" 2 "0x100001000"]
    by (auto simp: pid_ok_def)
  then show ?thesis using y by (auto simp: blank_proc_def)
qed

text \<open>\<open>sendrec\<close> does not check its buffer: with a reply waiting it writes the message to whatever address
  it is given, where a receive with the same address is refused and writes nothing.\<close>

theorem sendrec_writes_anywhere:
  assumes "get_proc s (cur s) = Some x" "istate x = MessageAvailable m" "\<not> msg_ptr_ok ptr"
  shows "sys_ipc_receive b ptr s = finish USIZE_MAX s \<and> fst (sys_ipc_sendrec a ptr s) = Return
    \<and> mem_now (snd (sys_ipc_sendrec a ptr s)) = write_bytes ptr (msg_bytes m) (mem_now s)"
  using assms by (simp add: sys_ipc_receive_def sys_ipc_sendrec_def receive_available_def Let_def)

theorem sendrec_writes_anywhere_witness:
  "\<not> msg_ptr_ok 0x80200000 \<and> mem_now (snd (sys_ipc_sendrec 2 0x80200000
      (switch_to 1 (sample_pair (MessageAvailable \<lparr>source = 2, mtype = 0, data = replicate 56 7\<rparr>) NoIpc)))) 0x80200008 = 7"
proof -
  let ?m = "\<lparr>source = 2, mtype = 0, data = replicate 56 7\<rparr>"
  let ?s = "switch_to 1 (sample_pair (MessageAvailable ?m) NoIpc)"
  have x: "get_proc ?s (cur ?s) = Some (blank_proc\<lparr>istate := MessageAvailable ?m, satp_val := 0x1000\<rparr>)"
    by (simp add: sample_pair_procs)
  have k: "\<not> msg_ptr_ok 0x80200000" by (simp add: msg_ptr_ok_def is_user_pointer_valid_def Let_def)
  have "mem_now (snd (sys_ipc_sendrec 2 0x80200000 ?s)) = write_bytes 0x80200000 (msg_bytes ?m) (mem_now ?s)"
    using sendrec_writes_anywhere [OF x _ k, of ?m 1 2] by simp
  then show ?thesis using k by (simp add: write_bytes_def msg_bytes_def le32_bytes_def)
qed

end
