(* ===== verification/Exit.thy ===== *)
theory Exit
  imports Locks Sync_Ipc Swap
begin

text \<open>The end of a process: \<open>exit\<close> and \<open>try_wake_parent\<close> of \<open>src/posix/spawn.rs\<close>; \<open>waitpid\<close>, signals that
  interrupt or kill, futexes and thread exit of \<open>src/syscall/proc.rs\<close>.\<close>

section \<open>\<open>exit\<close>\<close>

definition SIGHUP_CONT :: u32 where "SIGHUP_CONT = push_bit 1 1 OR push_bit 18 1"

definition raise :: "pid \<Rightarrow> u32 \<Rightarrow> sys \<Rightarrow> sys" where
  "raise p bits s = modify p (\<lambda>x. x\<lparr>pending_signals := pending_signals x OR bits\<rparr>) s"

definition wake_if_stopped :: "pid \<Rightarrow> sys \<Rightarrow> sys" where
  "wake_if_stopped p s =
     (case get_proc s p of
        None \<Rightarrow> s
      | Some x \<Rightarrow> if pstate x = Stopped then wake p s else s)"

definition wait_accepts :: "pid option \<Rightarrow> pid \<Rightarrow> bool" where
  "wait_accepts w child \<longleftrightarrow> (case w of None \<Rightarrow> True | Some t \<Rightarrow> t = - 1 \<or> t = child)"

definition try_wake_parent :: "pid \<Rightarrow> pid \<Rightarrow> int \<Rightarrow> sys \<Rightarrow> sys" where
  "try_wake_parent parent child status s =
     (let s1 = raise parent (push_bit 17 1) s in
      case get_proc s1 parent of
        None \<Rightarrow> s1
      | Some x \<Rightarrow>
          if \<not> wait_accepts (wait_target x) child then s1
          else wake_if_stopped parent
                 (modify parent (\<lambda>x. x\<lparr>wait_result := wait_result x @ [(child, status)]\<rparr>) s1))"

text \<open>Closing the handles runs the destructors of the objects whose last reference goes, with the process
  table locked; a destructor that wakes a process locks it again.\<close>

definition open_objects :: "kobj handle_table \<Rightarrow> kobj list" where
  "open_objects t = List.map_filter (\<lambda>i. map_option object (hmap t (of_nat i))) [0..<65536]"

definition close_wakes :: "process \<Rightarrow> sys \<Rightarrow> bool" where
  "close_wakes x s \<longleftrightarrow> list_ex (\<lambda>obj. last_ref_waiters s obj \<noteq> []) (open_objects (fds x))"

text \<open>\<open>CLONE_CHILD_CLEARTID\<close>: the word is cleared in the address space of the caller of \<open>exit\<close>.\<close>

definition clear_tid :: "usize \<Rightarrow> sys \<Rightarrow> sys" where
  "clear_tid addr s =
     (if addr \<noteq> 0 \<and> 0x100000000 \<le> addr then
        let s1 = copy_out addr [0, 0, 0, 0] s in
        (case map_of (futex_table s1) addr of
           None \<Rightarrow> s1
         | Some waiters \<Rightarrow> fold wake waiters (s1\<lparr>futex_table := bt_remove addr (futex_table s1)\<rparr>))
      else s)"

definition unblock :: "pid \<Rightarrow> sys \<Rightarrow> sys" where
  "unblock p s =
     wake_if_stopped p (modify p (\<lambda>x. x\<lparr>sepc := sepc x + 4, a0 := ESRCH, istate := NoIpc\<rparr>) s)"

fun waits_on :: "pid \<Rightarrow> ipc_state \<Rightarrow> bool" where
  "waits_on p (ReceivingReply src _) = (src = p)"
| "waits_on p (Receiving src _) = (src = p)"
| "waits_on _ _ = False"

definition stuck_waiters :: "pid \<Rightarrow> sys \<Rightarrow> pid list" where
  "stuck_waiters p s = map fst (filter (\<lambda>(_, x). waits_on p (istate x)) (procs s))"

definition reparent_child :: "pid \<Rightarrow> sys \<Rightarrow> sys" where
  "reparent_child c s =
     (let s1 = modify c (\<lambda>x. x\<lparr>ppid := 1\<rparr>) s in
      case (get_proc s1 1, get_proc s1 c) of
        (Some _, Some x) \<Rightarrow> (case pstate x of Zombie st \<Rightarrow> try_wake_parent 1 c st s1 | _ \<Rightarrow> s1)
      | _ \<Rightarrow> s1)"

definition adopt :: "pid list \<Rightarrow> pid list \<Rightarrow> pid list" where
  "adopt cs own = fold (\<lambda>c own. if c \<in> set own then own else own @ [c]) cs own"

definition reparent :: "pid list \<Rightarrow> sys \<Rightarrow> sys" where
  "reparent cs s =
     (if cs = [] then s
      else fold reparent_child cs (modify 1 (\<lambda>x. x\<lparr>children := adopt cs (children x)\<rparr>) s))"

definition add_new :: "'a \<Rightarrow> 'a list \<Rightarrow> 'a list" where
  "add_new x xs = (if x \<in> set xs then xs else xs @ [x])"

definition affected_groups :: "pid \<Rightarrow> pid list \<Rightarrow> sys \<Rightarrow> pid list" where
  "affected_groups p cs s =
     (let of_children = fold (\<lambda>c gs. case get_proc s c of None \<Rightarrow> gs | Some x \<Rightarrow> add_new (pgid x) gs) cs []
      in case get_proc s p of None \<Rightarrow> of_children | Some x \<Rightarrow> add_new (pgid x) of_children)"

definition is_orphaned :: "pid \<Rightarrow> pid \<Rightarrow> sys \<Rightarrow> bool" where
  "is_orphaned p g s \<longleftrightarrow>
     \<not> list_ex (\<lambda>(_, x). pgid x = g \<and> ppid x \<noteq> p \<and> ppid x \<noteq> 0
          \<and> (case get_proc s (ppid x) of None \<Rightarrow> False | Some par \<Rightarrow> sid par = sid x)) (procs s)"

definition hang_up :: "pid \<Rightarrow> pid \<Rightarrow> sys \<Rightarrow> sys" where
  "hang_up p g s =
     (if is_orphaned p g s then
        fold (\<lambda>q s. wake_if_stopped q (raise q SIGHUP_CONT s))
          (map fst (filter (\<lambda>(_, x). pgid x = g) (procs s))) s
      else s)"

definition signal_orphans :: "pid \<Rightarrow> pid list \<Rightarrow> sys \<Rightarrow> sys" where
  "signal_orphans p cs s = (if cs = [] then s else fold (hang_up p) (affected_groups p cs s) s)"

definition exit :: "pid \<Rightarrow> int \<Rightarrow> sys \<Rightarrow> outcome \<times> sys" where
  "exit p status s =
     (case get_proc s p of
        None \<Rightarrow> (Return, s)
      | Some x \<Rightarrow>
          let s1 = modify p (\<lambda>x. x\<lparr>pstate := Zombie status\<rparr>) s in
          if close_wakes x s1 then (Crash recursive_lock, s1)
          else
            let s2 = modify p (\<lambda>x. x\<lparr>fds := close_all (fds x), senders := []\<rparr>) s1;
                s3 = clear_tid (clear_tid_ptr x) s2;
                s4 = fold unblock (senders x) s3;
                s5 = fold unblock (stuck_waiters p s4) s4;
                s6 = s5\<lparr>irq_handlers := filter (\<lambda>(_, owner). owner \<noteq> p) (irq_handlers s5)\<rparr>;
                s7 = release_all_locks p s6;
                s8 = reparent (children x) s7;
                s9 = (if ppid x \<noteq> 0 \<and> get_proc s8 (ppid x) \<noteq> None then try_wake_parent (ppid x) p status s8 else s8)
            in (Return, signal_orphans p (children x) s9))"

section \<open>Waiting for children\<close>

definition reap_zombie :: "pid \<Rightarrow> int \<Rightarrow> pid \<Rightarrow> usize \<Rightarrow> sys \<Rightarrow> outcome \<times> sys" where
  "reap_zombie z status parent status_ptr s =
     (let s1 = (case get_proc s z of
            None \<Rightarrow> s
          | Some x \<Rightarrow>
              let s1 = s\<lparr>procs := bt_remove z (procs s)\<rparr>;
                  s2 = modify parent (\<lambda>y. y\<lparr>children := filter (\<lambda>c. c \<noteq> z) (children y),
                                            wait_target := None, wait_status_ptr := None\<rparr>) s1;
                  root = satp_root (satp_val x)
              in if root \<noteq> 0 then
                   let (last_owner, refs) = satp_unshare root (satp_refcount s2);
                       s3 = s2\<lparr>satp_refcount := refs\<rparr>
                   in if last_owner then s3\<lparr>freed_roots := freed_roots s3 @ [root]\<rparr> else s3
                 else s2);
          s4 = (if status_ptr \<noteq> 0 then copy_out status_ptr (le32_bytes (word_of_int status)) s1 else s1)
      in finish (word_of_int z) s4)"

definition WNOHANG :: usize where "WNOHANG = 1"

definition wait_matches :: "pid \<Rightarrow> pid \<Rightarrow> sys \<Rightarrow> pid \<Rightarrow> bool" where
  "wait_matches target parent_pgid s c \<longleftrightarrow>
     (if 0 < target then target = c
      else if target = - 1 then True
      else case get_proc s c of
             None \<Rightarrow> False
           | Some x \<Rightarrow> pgid x = (if target = 0 then parent_pgid else - target))"

definition zombie_status :: "sys \<Rightarrow> pid \<Rightarrow> int option" where
  "zombie_status s c =
     (case get_proc s c of Some x \<Rightarrow> (case pstate x of Zombie st \<Rightarrow> Some st | _ \<Rightarrow> None) | None \<Rightarrow> None)"

definition first_zombie :: "(pid \<Rightarrow> bool) \<Rightarrow> pid list \<Rightarrow> sys \<Rightarrow> (pid \<times> int) option" where
  "first_zombie ok cs s =
     first_some (\<lambda>c. if ok c then map_option (\<lambda>st. (c, st)) (zombie_status s c) else None) cs"

text \<open>Negating the smallest \<open>i32\<close> overflows; the code does so when it compares with a child's group.\<close>

definition negates_min :: "pid \<Rightarrow> process \<Rightarrow> sys \<Rightarrow> bool" where
  "negates_min target x s \<longleftrightarrow> target = - (2 ^ 31) \<and> list_ex (\<lambda>c. get_proc s c \<noteq> None) (children x)"

definition wait_block :: "pid \<Rightarrow> usize \<Rightarrow> process \<Rightarrow> sys \<Rightarrow> outcome \<times> sys" where
  "wait_block target status_ptr x s =
     (let me = cur s;
          s1 = modify me (\<lambda>x. x\<lparr>wait_target := Some target, wait_status_ptr := Some status_ptr\<rparr>) s in
      case first_zombie (\<lambda>c. if 0 < target then target = c else True) (children x) s1 of
        Some (z, st) \<Rightarrow>
          reap_zombie z st me status_ptr (modify me (\<lambda>x. x\<lparr>wait_target := None, wait_status_ptr := None\<rparr>) s1)
      | None \<Rightarrow> block (modify me (\<lambda>x. x\<lparr>pstate := Stopped\<rparr>) s1))"

definition sys_waitpid :: "usize \<Rightarrow> usize \<Rightarrow> usize \<Rightarrow> sys \<Rightarrow> outcome \<times> sys" where
  "sys_waitpid arg0 status_ptr options s =
     (if status_ptr \<noteq> 0 \<and> \<not> is_user_pointer_valid 4 status_ptr 1 then finish EFAULT s
      else
        let target = as_i32 arg0; me = cur s in
        case get_proc s me of
          None \<Rightarrow> finish USIZE_MAX s
        | Some x \<Rightarrow>
            (case wait_result x of
               (z, st) # rest \<Rightarrow> reap_zombie z st me status_ptr (modify me (\<lambda>x. x\<lparr>wait_result := rest\<rparr>) s)
             | [] \<Rightarrow>
                 if negates_min target x s then (Crash ''attempt to negate with overflow'', s)
                 else
                   (case first_zombie (wait_matches target (pgid x) s) (children x) s of
                      Some (z, st) \<Rightarrow> reap_zombie z st me status_ptr s
                    | None \<Rightarrow>
                        if \<not> list_ex (wait_matches target (pgid x) s) (children x) then finish USIZE_MAX s
                        else if options AND WNOHANG \<noteq> 0 then finish 0 s
                        else wait_block target status_ptr x s)))"

section \<open>What the end of one process leaves of another\<close>

definition holds :: "pid \<Rightarrow> (process \<Rightarrow> bool) \<Rightarrow> sys \<Rightarrow> bool" where
  "holds t Q s \<longleftrightarrow> (case get_proc s t of None \<Rightarrow> False | Some x \<Rightarrow> Q x)"

text \<open>Facts about a process that waking it, unblocking it and signalling it keep.\<close>

definition stable :: "(process \<Rightarrow> bool) \<Rightarrow> bool" where
  "stable Q \<longleftrightarrow>
     (\<forall>x. Q x \<longrightarrow> (\<forall>v. Q (x\<lparr>pstate := v\<rparr>)) \<and> (\<forall>v. Q (x\<lparr>pending_signals := v\<rparr>))
        \<and> (\<forall>pc v. Q (x\<lparr>sepc := pc, a0 := v, istate := NoIpc\<rparr>)) \<and> Q (x\<lparr>a0 := 0, istate := NoIpc, pstate := Running\<rparr>))"

text \<open>Facts that the exit of a child or parent keeps as well.\<close>

definition kin_stable :: "(process \<Rightarrow> bool) \<Rightarrow> bool" where
  "kin_stable Q \<longleftrightarrow>
     (\<forall>x. Q x \<longrightarrow> (\<forall>v. Q (x\<lparr>ppid := v\<rparr>)) \<and> (\<forall>v. Q (x\<lparr>children := v\<rparr>)) \<and> (\<forall>v. Q (x\<lparr>wait_result := v\<rparr>)))"

lemma holds_modify: "holds t Q s \<Longrightarrow> (\<And>x. p = t \<Longrightarrow> Q x \<Longrightarrow> Q (f x)) \<Longrightarrow> holds t Q (modify p f s)"
  by (auto simp: holds_def split: option.splits)

lemma holds_simps [simp]:
  "holds t Q (enq p s) = holds t Q s" "holds t Q (copy_out a bs s) = holds t Q s"
  "holds t Q (s\<lparr>futex_table := ft\<rparr>) = holds t Q s" "holds t Q (s\<lparr>irq_handlers := ih\<rparr>) = holds t Q s"
  "holds t Q (s\<lparr>file_locks := fl\<rparr>) = holds t Q s" "holds t Q (s\<lparr>lock_waiters := lw\<rparr>) = holds t Q s"
  "holds t Q (switch_to p s) = holds t Q s"
  by (simp_all add: holds_def get_proc_def)

lemma holds_fold: "holds t Q s \<Longrightarrow> (\<And>x s. holds t Q s \<Longrightarrow> holds t Q (f x s)) \<Longrightarrow> holds t Q (fold f xs s)"
  by (induction xs arbitrary: s) auto

lemma holds_wake: "stable Q \<Longrightarrow> holds t Q s \<Longrightarrow> holds t Q (wake p s)"
  by (auto simp: wake_def stable_def intro!: holds_modify)

lemma holds_wake_if_stopped: "stable Q \<Longrightarrow> holds t Q s \<Longrightarrow> holds t Q (wake_if_stopped p s)"
  by (simp add: wake_if_stopped_def holds_wake split: option.split)

lemma holds_raise: "stable Q \<Longrightarrow> holds t Q s \<Longrightarrow> holds t Q (raise p bits s)"
  by (auto simp: raise_def stable_def intro!: holds_modify)

lemma holds_unblock: "stable Q \<Longrightarrow> holds t Q s \<Longrightarrow> holds t Q (unblock p s)"
  unfolding unblock_def by (rule holds_wake_if_stopped) (auto simp: stable_def intro!: holds_modify)

lemma holds_clear_tid: "stable Q \<Longrightarrow> holds t Q s \<Longrightarrow> holds t Q (clear_tid a s)"
  by (auto simp: clear_tid_def Let_def intro!: holds_fold holds_wake split: option.split)

lemma holds_grant: "stable Q \<Longrightarrow> holds t Q s \<Longrightarrow> holds t Q (grant p s)"
  by (auto simp: grant_def stable_def intro!: holds_modify split: option.split)

lemma holds_try_acquire: "holds t Q s \<Longrightarrow> holds t Q (snd (try_acquire f p ty rs re s))"
  by (simp add: try_acquire_def)

lemma holds_wake_each: "stable Q \<Longrightarrow> holds t Q s \<Longrightarrow> holds t Q (snd (wake_each f ws s))"
proof (induction f ws s rule: wake_each.induct)
  case (2 f p ty ws we rest s)
  obtain b s1 where b: "try_acquire f p ty ws we s = (b, s1)" by fastforce
  have "holds t Q s1" using holds_try_acquire [OF 2(4), of f p ty ws we] b by simp
  then show ?case using b 2 by (cases b) (auto simp: holds_grant case_prod_beta)
qed simp

lemma holds_wake_lock_waiters: "stable Q \<Longrightarrow> holds t Q s \<Longrightarrow> holds t Q (wake_lock_waiters f s)"
  by (simp add: wake_lock_waiters_def case_prod_beta holds_wake_each split: option.split)

lemma holds_release_all_locks:
  assumes "stable Q" "holds t Q s"
  shows "holds t Q (release_all_locks p s)"
  unfolding release_all_locks_def Let_def
proof (intro holds_fold holds_wake_lock_waiters assms)
  show "holds t Q s \<Longrightarrow> holds t Q (drop_locks_of p f s)" for f s
    by (simp add: drop_locks_of_def set_locks_def split: option.split)
qed

lemma holds_try_wake_parent:
  assumes "stable Q" "kin_stable Q" "holds t Q s"
  shows "holds t Q (try_wake_parent parent c st s)"
  using assms holds_raise [OF assms(1,3)]
  by (auto simp: try_wake_parent_def Let_def kin_stable_def intro!: holds_wake_if_stopped holds_modify split: option.split)

lemma holds_reparent:
  assumes Q: "stable Q" "kin_stable Q" and s: "holds t Q s"
  shows "holds t Q (reparent cs s)"
proof -
  have child: "holds t Q (reparent_child c s)" if "holds t Q s" for c s
  proof -
    have "holds t Q (modify c (\<lambda>x. x\<lparr>ppid := 1\<rparr>) s)"
      using that Q(2) by (auto simp: kin_stable_def intro!: holds_modify)
    then show ?thesis using holds_try_wake_parent [OF Q]
      by (auto simp: reparent_child_def Let_def split: option.split proc_state.split)
  qed
  show ?thesis using s Q(2) by (auto simp: reparent_def kin_stable_def intro!: holds_fold child holds_modify)
qed

lemma holds_signal_orphans: "stable Q \<Longrightarrow> holds t Q s \<Longrightarrow> holds t Q (signal_orphans p cs s)"
  by (auto simp: signal_orphans_def hang_up_def intro!: holds_fold holds_wake_if_stopped holds_raise)

text \<open>The state of \<open>exit\<close> up to the reparenting.\<close>

definition exit_local :: "pid \<Rightarrow> int \<Rightarrow> process \<Rightarrow> sys \<Rightarrow> sys" where
  "exit_local p status x s =
     (let s2 = modify p (\<lambda>x. x\<lparr>fds := close_all (fds x), senders := []\<rparr>) (modify p (\<lambda>x. x\<lparr>pstate := Zombie status\<rparr>) s);
          s4 = fold unblock (senders x) (clear_tid (clear_tid_ptr x) s2);
          s5 = fold unblock (stuck_waiters p s4) s4
      in release_all_locks p (s5\<lparr>irq_handlers := filter (\<lambda>(_, owner). owner \<noteq> p) (irq_handlers s5)\<rparr>))"

lemma exit_cases:
  assumes "get_proc s p = Some x" "\<not> close_wakes x s"
  shows "exit p status s =
    (let s8 = reparent (children x) (exit_local p status x s) in
     (Return, signal_orphans p (children x)
        (if ppid x \<noteq> 0 \<and> get_proc s8 (ppid x) \<noteq> None then try_wake_parent (ppid x) p status s8 else s8)))"
  using assms by (simp add: exit_def exit_local_def Let_def close_wakes_def)

lemma holds_exit_local:
  assumes "stable Q" "holds t Q s" "t \<noteq> p"
  shows "holds t Q (exit_local p status x s)"
proof -
  have "holds t Q (modify p f s)" for f using assms(2,3) by (auto intro!: holds_modify)
  moreover have "holds t Q (modify p f (modify p g s))" for f g using assms(2,3) by (auto intro!: holds_modify)
  ultimately show ?thesis
    unfolding exit_local_def Let_def
    by (intro holds_release_all_locks [OF assms(1)], subst holds_simps)
       (intro holds_fold holds_unblock [OF assms(1)] holds_clear_tid [OF assms(1)], auto)
qed

lemma holds_exit:
  assumes Q: "stable Q" "kin_stable Q" and s: "holds t Q s" "t \<noteq> p"
  shows "holds t Q (snd (exit p status s))"
proof (cases "get_proc s p")
  case None
  then show ?thesis using s by (simp add: exit_def)
next
  case (Some x)
  show ?thesis
  proof (cases "close_wakes x s")
    case True
    then show ?thesis using Some s by (auto simp: exit_def Let_def close_wakes_def intro!: holds_modify)
  next
    case False
    have "holds t Q (reparent (children x) (exit_local p status x s))"
      by (intro holds_reparent [OF Q] holds_exit_local [OF Q(1) s])
    then show ?thesis unfolding exit_cases [OF Some False] Let_def
      using holds_try_wake_parent [OF Q] by (auto intro!: holds_signal_orphans [OF Q(1)])
  qed
qed

section \<open>Reaping and unblocking\<close>

lemma get_proc_reap:
  "get_proc (snd (reap_zombie z st parent ptr s)) q =
     (if get_proc s z = None then map_option (\<lambda>x. if q = cur s then x\<lparr>a0 := word_of_int z\<rparr> else x) (get_proc s q)
      else if q = z then None
      else map_option (\<lambda>x. if q = cur s then x\<lparr>a0 := word_of_int z\<rparr> else x)
             (map_option (\<lambda>y. if q = parent then y\<lparr>children := filter (\<lambda>c. c \<noteq> z) (children y),
                wait_target := None, wait_status_ptr := None\<rparr> else y) (get_proc s q)))"
proof -
  have upd: "get_proc (s\<lparr>procs := bt_remove z (procs s)\<rparr>) q = (if q = z then None else get_proc s q)" for q s
    by (simp add: get_proc_def)
  have flds: "get_proc (s\<lparr>satp_refcount := r\<rparr>) = get_proc s" "get_proc (s\<lparr>freed_roots := fr\<rparr>) = get_proc s"
    "cur (s\<lparr>satp_refcount := r\<rparr>) = cur s" for s r fr
    by (simp_all add: get_proc_def fun_eq_iff)
  show ?thesis
    by (cases "get_proc s z")
       (auto simp: reap_zombie_def Let_def upd flds option.map_comp comp_def option.map_ident split: prod.splits)
qed

lemma fst_reap [simp]: "fst (reap_zombie z st parent ptr s) = Return"
  by (simp add: reap_zombie_def Let_def)

lemma mem_reap:
  "mem_now (snd (reap_zombie z st parent ptr s)) =
     (if ptr \<noteq> 0 then write_bytes ptr (le32_bytes (word_of_int st)) (mem_now s) else mem_now s)"
  "satp (snd (reap_zombie z st parent ptr s)) = satp s"
proof -
  have flds: "mem_now (s\<lparr>satp_refcount := r\<rparr>) = mem_now s" "mem_now (s\<lparr>freed_roots := fr\<rparr>) = mem_now s"
    "mem_now (s\<lparr>procs := ps\<rparr>) = mem_now s" for s r fr ps
    by (simp_all add: mem_now_def)
  show "mem_now (snd (reap_zombie z st parent ptr s)) =
     (if ptr \<noteq> 0 then write_bytes ptr (le32_bytes (word_of_int st)) (mem_now s) else mem_now s)"
    by (auto simp: reap_zombie_def Let_def flds split: option.split prod.split)
  show "satp (snd (reap_zombie z st parent ptr s)) = satp s"
    by (auto simp: reap_zombie_def Let_def split: option.split prod.split)
qed

lemma get_proc_unblock:
  "get_proc (unblock p s) q =
     (if q = p then map_option (\<lambda>x. x\<lparr>sepc := sepc x + 4, a0 := ESRCH, istate := NoIpc,
         pstate := (if pstate x = Stopped then Running else pstate x)\<rparr>) (get_proc s p)
      else get_proc s q)"
  by (auto simp: unblock_def wake_if_stopped_def wake_def split: option.splits)

definition nobody_stopped :: "sys \<Rightarrow> bool" where
  "nobody_stopped s \<longleftrightarrow> (\<forall>q x. get_proc s q = Some x \<longrightarrow> pstate x \<noteq> Stopped)"

lemma unblock_quiet:
  assumes "nobody_stopped s"
  shows "nobody_stopped (unblock p s)" "runq (unblock p s) = runq s" "lock_waiters (unblock p s) = lock_waiters s"
proof -
  show "nobody_stopped (unblock p s)"
    using assms by (auto simp: nobody_stopped_def get_proc_unblock split: if_splits)
  show "runq (unblock p s) = runq s" "lock_waiters (unblock p s) = lock_waiters s"
    using assms by (auto simp: nobody_stopped_def unblock_def wake_if_stopped_def split: option.split)
qed

lemma fold_unblock_quiet:
  assumes "nobody_stopped s"
  shows "nobody_stopped (fold unblock ps s) \<and> runq (fold unblock ps s) = runq s
    \<and> lock_waiters (fold unblock ps s) = lock_waiters s"
  using assms by (induction ps arbitrary: s) (auto simp: unblock_quiet)

definition answered :: "process \<Rightarrow> bool" where
  "answered x \<longleftrightarrow> istate x = NoIpc \<and> a0 x = ESRCH"

lemma holds_answered_unblock: "holds p answered s \<Longrightarrow> holds p answered (unblock q s)"
  by (auto simp: holds_def answered_def get_proc_unblock split: option.splits)

lemma fold_unblock_answers:
  assumes "p \<in> set ps" "get_proc s p = Some x"
  shows "holds p answered (fold unblock ps s)"
  using assms
proof (induction ps arbitrary: s x)
  case (Cons q ps)
  show ?case
  proof (cases "p = q")
    case True
    have "holds p answered (unblock q s)" using True Cons.prems(2) by (simp add: holds_def answered_def get_proc_unblock)
    then show ?thesis by (simp add: holds_fold holds_answered_unblock)
  next
    case False
    then show ?thesis using Cons.IH [of "unblock q s" x] Cons.prems by (simp add: get_proc_unblock)
  qed
qed simp

lemma drop_locks_quiet [simp]:
  "runq (drop_locks_of p f s) = runq s" "lock_waiters (drop_locks_of p f s) = lock_waiters s"
  "get_proc (drop_locks_of p f s) = get_proc s"
  by (simp_all add: drop_locks_of_def set_locks_def get_proc_def fun_eq_iff split: option.split)

lemma fold_drop_locks_quiet:
  "runq (fold (drop_locks_of p) fs s) = runq s \<and> lock_waiters (fold (drop_locks_of p) fs s) = lock_waiters s
   \<and> get_proc (fold (drop_locks_of p) fs s) = get_proc s"
  by (induction fs arbitrary: s) auto

lemma release_all_locks_quiet:
  assumes "lock_waiters s = []"
  shows "runq (release_all_locks p s) = runq s" "get_proc (release_all_locks p s) = get_proc s"
  using assms fold_drop_locks_quiet [of p "map fst (file_locks s)" s] by (simp_all add: release_all_locks_def)

section \<open>Properties\<close>


text \<open>A killed sender brings the kernel down: a process that is killed while it is first in the queue of a
  receiver, and then reaped, stays in that queue, and the receiver's next receive from anyone panics.\<close>

theorem killed_sender_panics_receiver:
  assumes "get_proc s t = Some y" "senders y = p # rest" "irq_pending y = []" "istate y = NoIpc"
    and "get_proc s p = Some x" "t \<noteq> p" "as_i32 a = ANY"
  shows "fst (sys_ipc_receive a ptr
      (switch_to t (snd (reap_zombie p st q sp (switch_to q (snd (exit p st s))))))) = Crash unwrap_none"
proof -
  let ?Q = "\<lambda>y. senders y = p # rest \<and> irq_pending y = [] \<and> istate y = NoIpc"
  define s1 where "s1 = switch_to q (snd (exit p st s))"
  define s2 where "s2 = snd (reap_zombie p st q sp s1)"
  have "holds t ?Q (snd (exit p st s))"
    by (rule holds_exit) (use assms in \<open>auto simp: stable_def kin_stable_def holds_def\<close>)
  then obtain y1 where y1: "get_proc s1 t = Some y1" "?Q y1" by (auto simp: s1_def holds_def split: option.splits)
  have gone: "get_proc s2 p = None" by (simp add: s2_def get_proc_reap)
  have "holds t ?Q s2" using y1 assms(6) by (auto simp: s2_def holds_def get_proc_reap)
  then obtain y2 where y2: "get_proc s2 t = Some y2" "?Q y2" by (auto simp: holds_def split: option.splits)
  have "sys_ipc_receive a ptr (switch_to t s2) = receive_sender ptr p ([] @ rest) (switch_to t s2)"
    by (rule receive_queued [where x = y2]) (use y2 assms(7) in auto)
  then show ?thesis
    using gone assms(6) y2(1) unfolding s2_def [symmetric] s1_def [symmetric]
    by (simp add: receive_sender_def Let_def)
qed

text \<open>A sender whose target exits is answered but never runs again: blocking in a send leaves the process
  in state Running, so \<open>exit\<close>, which only enqueues stopped processes, gives it its error code and
  leaves the run queue as it was.\<close>

theorem exit_strands_blocked_sender:
  assumes y: "get_proc s t = Some y" "\<not> close_wakes y s" "children y = []" "ppid y = 0" "clear_tid_ptr y = 0"
    and s: "nobody_stopped s" "lock_waiters s = []"
    and p: "p \<in> set (senders y)" "get_proc s p = Some x" "p \<noteq> t"
  shows "\<exists>s'. exit t st s = (Return, s') \<and> holds p answered s' \<and> runq s' = runq s"
proof -
  define s2 where "s2 = modify t (\<lambda>x. x\<lparr>fds := close_all (fds x), senders := []\<rparr>) (modify t (\<lambda>x. x\<lparr>pstate := Zombie st\<rparr>) s)"
  define s4 where "s4 = fold unblock (senders y) s2"
  define s5 where "s5 = fold unblock (stuck_waiters t s4) s4"
  define s6 where "s6 = s5\<lparr>irq_handlers := filter (\<lambda>(_, owner). owner \<noteq> t) (irq_handlers s5)\<rparr>"
  have el: "exit_local t st y s = release_all_locks t s6"
    by (simp add: exit_local_def s2_def s4_def s5_def s6_def clear_tid_def y(5) Let_def)
  have ex: "exit t st s = (Return, release_all_locks t s6)"
    using exit_cases [OF y(1,2), of st] y(3,4) el by (simp add: reparent_def signal_orphans_def)
  have q2: "nobody_stopped s2" "runq s2 = runq s" "lock_waiters s2 = []" "get_proc s2 p = Some x"
    using s p by (auto simp: s2_def nobody_stopped_def split: if_splits)
  have q4: "nobody_stopped s4 \<and> runq s4 = runq s2 \<and> lock_waiters s4 = lock_waiters s2"
    unfolding s4_def by (rule fold_unblock_quiet [OF q2(1)])
  have q5: "nobody_stopped s5 \<and> runq s5 = runq s4 \<and> lock_waiters s5 = lock_waiters s4"
    unfolding s5_def by (rule fold_unblock_quiet) (use q4 in simp)
  have "holds p answered s4" unfolding s4_def by (rule fold_unblock_answers [OF p(1) q2(4)])
  then have h5: "holds p answered s5" unfolding s5_def by (simp add: holds_fold holds_answered_unblock)
  have lw: "lock_waiters s6 = []" and rq: "runq s6 = runq s" and h6: "holds p answered s6"
    using q2 q4 q5 h5 by (simp_all add: s6_def)
  show ?thesis
    using ex release_all_locks_quiet [OF lw] rq h6 by (auto simp: holds_def)
qed

text \<open>Waiting for one child can return another: a \<open>waitpid\<close> for a particular child takes the first
  result in the parent's queue, whatever child it belongs to.\<close>

theorem waitpid_returns_other_child:
  assumes "get_proc s (cur s) = Some x" "wait_result x = (c, st) # rest" "c \<noteq> as_i32 a" "c \<noteq> cur s"
  shows "fst (sys_waitpid a 0 opts s) = Return
    \<and> map_option a0 (get_proc (snd (sys_waitpid a 0 opts s)) (cur s)) = Some (word_of_int c)"
  using assms by (auto simp: sys_waitpid_def Let_def get_proc_reap split: option.splits)

section \<open>Witnesses\<close>

lemma no_objects [simp]: "open_objects HandleTable_new = []"
  by (simp add: open_objects_def HandleTable_new_def List.map_filter_def del: upt_rec_numeral)

definition sample_family :: sys where
  "sample_family = sample_sys
     [(2, blank_proc\<lparr>children := [3]\<rparr>), (3, blank_proc\<lparr>ppid := 2, istate := Sending 4 \<lparr>source = 3, mtype = 0, data = []\<rparr> None\<rparr>),
      (4, blank_proc\<lparr>senders := [3]\<rparr>)]"

lemma sample_family_procs:
  "get_proc sample_family =
     [2 \<mapsto> blank_proc\<lparr>children := [3]\<rparr>, 3 \<mapsto> blank_proc\<lparr>ppid := 2, istate := Sending 4 \<lparr>source = 3, mtype = 0, data = []\<rparr> None\<rparr>,
      4 \<mapsto> blank_proc\<lparr>senders := [3]\<rparr>]"
  by (auto simp: sample_family_def get_proc_sample fun_eq_iff)

lemma sample_family_closes: "fds x = HandleTable_new \<Longrightarrow> \<not> close_wakes x s"
  by (simp add: close_wakes_def)

lemma sample_family_at:
  "get_proc sample_family 2 = Some (blank_proc\<lparr>children := [3]\<rparr>)"
  "get_proc sample_family 3 = Some (blank_proc\<lparr>ppid := 2, istate := Sending 4 \<lparr>source = 3, mtype = 0, data = []\<rparr> None\<rparr>)"
  "get_proc sample_family 4 = Some (blank_proc\<lparr>senders := [3]\<rparr>)"
  by (simp_all add: sample_family_procs)


theorem killed_sender_panics_receiver_witness:
  "fst (sys_ipc_receive 0xFFFFFFFF 0x100001000
      (switch_to 4 (snd (reap_zombie 3 (- 9) 2 0 (switch_to 2 (snd (exit 3 (- 9) sample_family))))))) = Crash unwrap_none"
proof -
  have "as_i32 0xFFFFFFFF = ANY" by (simp add: as_i32_def ANY_def)
  with killed_sender_panics_receiver [OF sample_family_at(3) _ _ _ sample_family_at(2), where rest = "[]" and a = "0xFFFFFFFF" and st = "- 9" and q = 2 and sp = 0 and ptr = "0x100001000"]
  show ?thesis by simp
qed

theorem exit_strands_blocked_sender_witness:
  "\<exists>s'. exit 4 0 sample_family = (Return, s') \<and> holds 3 answered s' \<and> runq s' = []"
proof -
  have "nobody_stopped sample_family" by (auto simp: nobody_stopped_def sample_family_procs split: if_splits)
  moreover have "lock_waiters sample_family = []" "runq sample_family = []"
    by (simp_all add: sample_family_def sample_sys_def)
  ultimately show ?thesis
    using exit_strands_blocked_sender [OF sample_family_at(3) _ _ _ _ _ _ _ sample_family_at(2), where st = 0]
    by (simp add: sample_family_closes)
qed

theorem waitpid_returns_other_child_witness:
  "map_option a0 (get_proc (snd (sys_waitpid 3 0 0
     (switch_to 2 (sample_sys [(2, blank_proc\<lparr>children := [3, 4], wait_result := [(4, 0)]\<rparr>)])))) 2) = Some (word_of_int 4)"
proof -
  let ?s = "switch_to 2 (sample_sys [(2, blank_proc\<lparr>children := [3, 4], wait_result := [(4, 0)]\<rparr>)])"
  have x: "get_proc ?s (cur ?s) = Some (blank_proc\<lparr>children := [3, 4], wait_result := [(4, 0)]\<rparr>)" and c: "cur ?s = 2"
    by (simp_all add: get_proc_sample)
  show ?thesis using waitpid_returns_other_child [OF x, of 4 0 "[]" 3 0] c by (simp add: as_i32_def)
qed

end
