(* ===== verification/Signals.thy ===== *)
theory Signals
  imports Exit
begin

text \<open>Signals, futexes, sleeping and thread exit, \<open>src/syscall/proc.rs\<close>.  A call that ends with a switch to
  another process has outcome \<open>Blocked\<close>, also when the caller has exited.  The clock is an argument of
  the calls that read it.\<close>

section \<open>Signals\<close>

definition SIGKILL :: nat where "SIGKILL = 9"
definition SIGSTOP :: nat where "SIGSTOP = 19"

definition sig_bit :: "nat \<Rightarrow> u32" where
  "sig_bit n = push_bit n 1"

definition wake_with_eintr :: "pid \<Rightarrow> sys \<Rightarrow> sys" where
  "wake_with_eintr p s =
     (case get_proc s p of
        None \<Rightarrow> s
      | Some x \<Rightarrow>
          if pstate x \<noteq> Stopped then s
          else
            let s1 = (case istate x of
                        Sending t _ _ \<Rightarrow> modify t (\<lambda>y. y\<lparr>senders := filter (\<lambda>q. q \<noteq> p) (senders y)\<rparr>) s
                      | _ \<Rightarrow> s)
            in wake p (modify p (\<lambda>x. x\<lparr>istate := NoIpc, sepc := sepc x + 4, a0 := EINTR\<rparr>) s1))"

definition kill_matches :: "pid \<Rightarrow> pid \<Rightarrow> pid \<Rightarrow> pid \<times> process \<Rightarrow> bool" where
  "kill_matches target me my_pgid = (\<lambda>(p, x).
     if 0 < target then p = target
     else if target = 0 then pgid x = my_pgid
     else if target = - 1 then 1 < p \<and> p \<noteq> me
     else pgid x = - target)"

definition post_signal :: "nat \<Rightarrow> pid \<Rightarrow> sys \<Rightarrow> sys" where
  "post_signal sig p s =
     (let s1 = raise p (sig_bit sig) s in
      case get_proc s1 p of
        None \<Rightarrow> s1
      | Some x \<Rightarrow> if sig_bit sig AND NOT (blocked_signals x) \<noteq> 0 then wake_with_eintr p s1 else s1)"

fun exit_each :: "pid list \<Rightarrow> int \<Rightarrow> sys \<Rightarrow> outcome \<times> sys" where
  "exit_each [] status s = (Return, s)"
| "exit_each (p # ps) status s =
     (case exit p status s of
        (Return, s1) \<Rightarrow> exit_each ps status s1
      | (other, s1) \<Rightarrow> (other, s1))"

definition exit_then_schedule :: "pid \<Rightarrow> int \<Rightarrow> sys \<Rightarrow> outcome \<times> sys" where
  "exit_then_schedule p status s =
     (case exit p status s of (Return, s1) \<Rightarrow> (Blocked, s1) | (other, s1) \<Rightarrow> (other, s1))"

definition kill_list :: "pid list \<Rightarrow> sys \<Rightarrow> outcome \<times> sys" where
  "kill_list ps s =
     (case exit_each (filter (\<lambda>p. p \<noteq> cur s) ps) (- 9) s of
        (Return, s1) \<Rightarrow>
          if cur s \<in> set ps then exit_then_schedule (cur s) (- 9) s1
          else finish (if ps \<noteq> [] then 0 else USIZE_MAX) s1
      | (other, s1) \<Rightarrow> (other, s1))"

definition sys_kill :: "usize \<Rightarrow> usize \<Rightarrow> sys \<Rightarrow> outcome \<times> sys" where
  "sys_kill arg0 arg1 s =
     (let target = as_i32 arg0; sig = unat (ucast arg1 :: u32); me = cur s in
      if 32 \<le> sig then finish USIZE_MAX s
      else if target = - (2 ^ 31) \<and> procs s \<noteq> [] then (Crash ''attempt to negate with overflow'', s)
      else
        let my_pgid = (case get_proc s me of Some x \<Rightarrow> pgid x | None \<Rightarrow> 0);
            hit = map fst (filter (kill_matches target me my_pgid) (procs s))
        in if sig = 0 then finish USIZE_MAX s
           else if sig = SIGKILL then kill_list hit s
           else finish (if hit \<noteq> [] then 0 else USIZE_MAX) (fold (post_signal sig) hit s))"

text \<open>\<open>struct SigAction\<close> in user memory: handler at 0, flags at 8, mask at 16, restorer at 24.\<close>

definition write_sigaction :: "nat \<Rightarrow> process \<Rightarrow> usize \<Rightarrow> sys \<Rightarrow> sys" where
  "write_sigaction sig x ptr s =
     copy_out (ptr + 24) (le_bytes 8 (uint (signal_restorers x ! sig)))
       (copy_out ptr (le_bytes 8 (uint (signal_handlers x ! sig)) @ le_bytes 8 0 @ le_bytes 4 (uint (signal_masks x ! sig))) s)"

definition read_u64 :: "(usize \<Rightarrow> u8) \<Rightarrow> usize \<Rightarrow> u64" where
  "read_u64 mm p = word_of_int (read_le 8 mm p)"

definition read_u32 :: "(usize \<Rightarrow> u8) \<Rightarrow> usize \<Rightarrow> u32" where
  "read_u32 mm p = word_of_int (read_le 4 mm p)"

definition install_sigaction :: "nat \<Rightarrow> usize \<Rightarrow> sys \<Rightarrow> sys" where
  "install_sigaction sig ptr s =
     (let mm = mem_now s in
      modify (cur s)
        (\<lambda>x. x\<lparr>signal_handlers := (signal_handlers x)[sig := read_u64 mm ptr],
               signal_masks := (signal_masks x)[sig := read_u32 mm (ptr + 16)],
               signal_restorers := (signal_restorers x)[sig := read_u64 mm (ptr + 24)]\<rparr>) s)"

definition sys_sigaction :: "usize \<Rightarrow> usize \<Rightarrow> usize \<Rightarrow> sys \<Rightarrow> outcome \<times> sys" where
  "sys_sigaction arg0 arg1 arg2 s =
     (let sig = unat arg0 in
      if 32 \<le> sig \<or> sig = SIGKILL then finish USIZE_MAX s
      else if arg2 \<noteq> 0 \<and> \<not> is_user_pointer_valid 32 arg2 1 then finish EFAULT s
      else if arg1 \<noteq> 0 \<and> \<not> is_user_pointer_valid 32 arg1 1 then finish EFAULT s
      else
        case get_proc s (cur s) of
          None \<Rightarrow> finish ESRCH s
        | Some x \<Rightarrow>
            let s1 = (if arg2 \<noteq> 0 then write_sigaction sig x arg2 s else s)
            in finish 0 (if arg1 \<noteq> 0 then install_sigaction sig arg1 s1 else s1))"

definition new_mask :: "usize \<Rightarrow> u32 \<Rightarrow> u32 \<Rightarrow> u32 option" where
  "new_mask how old new =
     (if how = 0 then Some (old OR new)
      else if how = 1 then Some (old AND NOT new)
      else if how = 2 then Some new
      else None)"

definition sys_sigprocmask :: "usize \<Rightarrow> usize \<Rightarrow> usize \<Rightarrow> sys \<Rightarrow> outcome \<times> sys" where
  "sys_sigprocmask how set_ptr old_set_ptr s =
     (case get_proc s (cur s) of
        None \<Rightarrow> finish ESRCH s
      | Some x \<Rightarrow>
          if old_set_ptr \<noteq> 0 \<and> \<not> is_user_pointer_valid 4 old_set_ptr 1 then finish EFAULT s
          else
            let s1 = (if old_set_ptr \<noteq> 0 then copy_out old_set_ptr (le32_bytes (blocked_signals x)) s else s) in
            if set_ptr = 0 then finish 0 s1
            else if \<not> is_user_pointer_valid 4 set_ptr 1 then finish EFAULT s1
            else
              (case new_mask how (blocked_signals x) (read_u32 (mem_now s1) set_ptr) of
                 None \<Rightarrow> finish EINVAL s1
               | Some updated \<Rightarrow>
                   finish 0 (modify (cur s1)
                     (\<lambda>x. x\<lparr>blocked_signals := updated OR sig_bit SIGKILL OR sig_bit SIGSTOP\<rparr>) s1)))"

definition sys_sigpending :: "usize \<Rightarrow> sys \<Rightarrow> outcome \<times> sys" where
  "sys_sigpending set_ptr s =
     (if \<not> is_user_pointer_valid 4 set_ptr 1 then finish EFAULT s
      else
        case get_proc s (cur s) of
          None \<Rightarrow> finish ESRCH s
        | Some x \<Rightarrow> finish 0 (copy_out set_ptr (le32_bytes (pending_signals x AND NOT (blocked_signals x))) s))"

definition sys_tgkill :: "usize \<Rightarrow> usize \<Rightarrow> usize \<Rightarrow> sys \<Rightarrow> outcome \<times> sys" where
  "sys_tgkill tg tid sig s =
     (case get_proc s (as_i32 tid) of
        None \<Rightarrow> finish ESRCH s
      | Some x \<Rightarrow>
          if tgid x \<noteq> as_i32 tg then finish ESRCH s
          else finish 0 (if sig \<noteq> 0 \<and> sig < 32 then raise (as_i32 tid) (sig_bit (unat sig - 1)) s else s))"

section \<open>Sleeping\<close>

text \<open>\<open>struct TimeSpec\<close>: seconds at 0, nanoseconds at 8, both read as \<open>u64\<close>.\<close>

definition sys_nanosleep :: "u64 \<Rightarrow> usize \<Rightarrow> sys \<Rightarrow> outcome \<times> sys" where
  "sys_nanosleep now ptr s =
     (if ptr = 0 \<or> \<not> is_user_pointer_valid 16 ptr 1 then finish EFAULT s
      else
        let sec = unat (read_u64 (mem_now s) ptr); nsec = unat (read_u64 (mem_now s) (ptr + 8)) in
        if 2 ^ 64 \<le> sec * 10000000 then (Crash ''attempt to multiply with overflow'', s)
        else if 2 ^ 64 \<le> sec * 10000000 + nsec div 100 then (Crash ''attempt to add with overflow'', s)
        else if 2 ^ 64 \<le> unat now + (sec * 10000000 + nsec div 100) then (Crash ''attempt to add with overflow'', s)
        else
          let s1 = s\<lparr>sleep_queue := sleep_queue s @ [(cur s, now + of_nat (sec * 10000000 + nsec div 100))]\<rparr>
          in (Blocked, modify (cur s) (\<lambda>x. x\<lparr>pstate := Stopped, a0 := 0\<rparr>) s1))"

section \<open>Futexes\<close>

definition FUTEX_WAIT :: usize where "FUTEX_WAIT = 0"
definition FUTEX_WAKE :: usize where "FUTEX_WAKE = 1"

definition futex_waiters :: "usize \<Rightarrow> sys \<Rightarrow> pid list" where
  "futex_waiters addr s = (case map_of (futex_table s) addr of Some ws \<Rightarrow> ws | None \<Rightarrow> [])"

definition futex_wait :: "usize \<Rightarrow> usize \<Rightarrow> sys \<Rightarrow> outcome \<times> sys" where
  "futex_wait addr val s =
     (if read_u32 (mem_now s) addr \<noteq> ucast val then finish EAGAIN s
      else
        let s1 = s\<lparr>futex_table := bt_insert addr (futex_waiters addr s @ [cur s]) (futex_table s)\<rparr>
        in (Blocked, modify (cur s) (\<lambda>x. x\<lparr>pstate := Stopped, a0 := 0\<rparr>) s1))"

definition futex_wake :: "usize \<Rightarrow> usize \<Rightarrow> sys \<Rightarrow> outcome \<times> sys" where
  "futex_wake addr val s =
     (case map_of (futex_table s) addr of
        None \<Rightarrow> finish 0 s
      | Some ws \<Rightarrow>
          let n = min (if val = 0 then 1 else unat val) (length ws);
              s1 = s\<lparr>futex_table := (if drop n ws = [] then bt_remove addr (futex_table s)
                                     else bt_insert addr (drop n ws) (futex_table s))\<rparr>
          in finish (of_nat (length (take n ws))) (fold wake (take n ws) s1))"

definition sys_futex :: "usize \<Rightarrow> usize \<Rightarrow> usize \<Rightarrow> sys \<Rightarrow> outcome \<times> sys" where
  "sys_futex addr op val s =
     (if \<not> is_user_pointer_valid 4 addr 1 then finish EFAULT s
      else if op = FUTEX_WAIT then futex_wait addr val s
      else if op = FUTEX_WAKE then futex_wake addr val s
      else finish USIZE_MAX s)"

section \<open>Ending\<close>

definition sys_exit :: "usize \<Rightarrow> sys \<Rightarrow> outcome \<times> sys" where
  "sys_exit status s = exit_then_schedule (cur s) (as_i32 status) s"

definition sys_exit_group :: "usize \<Rightarrow> sys \<Rightarrow> outcome \<times> sys" where
  "sys_exit_group status s =
     (case get_proc s (cur s) of
        None \<Rightarrow> (Blocked, s)
      | Some x \<Rightarrow>
          (case exit_each (map fst (filter (\<lambda>(_, y). tgid y = tgid x) (procs s))) (as_i32 status) s of
             (Return, s1) \<Rightarrow> (Blocked, s1)
           | (other, s1) \<Rightarrow> (other, s1)))"

definition sys_set_tid_address :: "usize \<Rightarrow> sys \<Rightarrow> outcome \<times> sys" where
  "sys_set_tid_address ptr s =
     finish (word_of_int (cur s)) (modify (cur s) (\<lambda>x. x\<lparr>clear_tid_ptr := ptr\<rparr>) s)"

definition sys_task_kill :: "usize \<Rightarrow> sys \<Rightarrow> outcome \<times> sys" where
  "sys_task_kill handle s =
     (if handle = 0 then exit_then_schedule (cur s) (- 1) s
      else
        case get_proc s (cur s) of
          None \<Rightarrow> finish ESRCH s
        | Some x \<Rightarrow>
            (case get (fds x) (ucast handle) of
               Some (KJob j) \<Rightarrow>
                 (case exit_each (job_members s j) (- 1) s of
                    (Return, s1) \<Rightarrow> finish 0 s1
                  | (other, s1) \<Rightarrow> (other, s1))
             | _ \<Rightarrow> finish EBADF_RET s))"

section \<open>One signal to one process\<close>

definition table_ok :: "sys \<Rightarrow> bool" where
  "table_ok s \<longleftrightarrow> distinct (map fst (procs s)) \<and> rq_wf (runq s)"

lemma filter_key: "distinct (map fst m) \<Longrightarrow> map_of m p = Some x \<Longrightarrow> filter (\<lambda>(q, _). q = p) m = [(p, x)]"
proof (induction m)
  case (Cons a m)
  show ?case
  proof (cases "fst a = p")
    case True
    with Cons.prems have "filter (\<lambda>(q, _). q = p) m = []" by (auto simp: filter_empty_conv rev_image_eqI)
    with True Cons.prems show ?thesis by (cases a) auto
  next
    case False
    with Cons show ?thesis by (cases a) auto
  qed
qed simp

lemma kill_hits_one:
  assumes "distinct (map fst (procs s))" "get_proc s p = Some x" "0 < p"
  shows "map fst (filter (kill_matches p me g) (procs s)) = [p]"
proof -
  have "kill_matches p me g = (\<lambda>(q, _). q = p)" using assms(3) by (auto simp: kill_matches_def)
  then show ?thesis using filter_key [of "procs s" p x] assms by (simp add: get_proc_def)
qed

text \<open>What \<open>kill\<close> does for one target and an ordinary signal.\<close>

lemma kill_one:
  assumes "table_ok s" "get_proc s (as_i32 a) = Some x" "0 < as_i32 a"
    and "0 < unat (ucast b :: u32)" "unat (ucast b :: u32) < 32" "unat (ucast b :: u32) \<noteq> SIGKILL"
  shows "sys_kill a b s = finish 0 (post_signal (unat (ucast b :: u32)) (as_i32 a) s)"
  using assms by (simp add: sys_kill_def Let_def kill_hits_one table_ok_def)

lemma sig_bit_unblocked:
  assumes "n < 32"
  shows "sig_bit n AND NOT m \<noteq> 0 \<longleftrightarrow> \<not> bit m n"
proof
  from assms have at: "bit (sig_bit n AND NOT m) k \<longleftrightarrow> k = n \<and> \<not> bit m n" for k
    by (auto simp: sig_bit_def bit_simps)
  show "sig_bit n AND NOT m \<noteq> 0 \<Longrightarrow> \<not> bit m n" using at by (metis bit_word_eqI bit_0_eq bot_apply bot_bool_def)
  show "\<not> bit m n \<Longrightarrow> sig_bit n AND NOT m \<noteq> 0" using at [of n] by auto
qed

lemma post_signal_wakes:
  assumes "get_proc s p = Some x" "pstate x = Stopped" "n < 32" "\<not> bit (blocked_signals x) n"
  shows "post_signal n p s = wake_with_eintr p (raise p (sig_bit n) s)"
  using assms sig_bit_unblocked [of n "blocked_signals x"] by (simp add: post_signal_def raise_def Let_def)

lemma eintr_stopped:
  assumes "get_proc s p = Some x" "pstate x = Stopped" "\<forall>t m r. istate x = Sending t m r \<longrightarrow> t \<noteq> p"
  shows "get_proc (wake_with_eintr p s) p =
      Some (x\<lparr>istate := NoIpc, sepc := sepc x + 4, a0 := EINTR, pstate := Running\<rparr>)"
    "runq (wake_with_eintr p s) = rq_insert p (prio x) (runq s)"
  using assms by (auto simp: wake_with_eintr_def wake_def split: ipc_state.splits)

lemma eintr_other:
  assumes "q \<noteq> p" "get_proc s q = Some y" "get_proc s p = Some x" "\<forall>m r. istate x \<noteq> Sending q m r"
  shows "get_proc (wake_with_eintr p s) q = Some y"
  using assms by (auto simp: wake_with_eintr_def wake_def split: ipc_state.splits)

lemma rq_insert_queues: "rq_wf rq \<Longrightarrow> p \<in> set (bucket (rq_insert p k rq) k)"
  by (simp add: rq_insert_bucket)

lemma futex_frame [simp]:
  "futex_table (wake p s) = futex_table s" "futex_table (raise p b s) = futex_table s"
  "futex_table (wake_with_eintr p s) = futex_table s" "mem_now (wake p s) = mem_now s"
  "cur (wake p s) = cur s" "cur (wake_with_eintr p s) = cur s" "cur (raise p b s) = cur s"
  by (auto simp: wake_def raise_def wake_with_eintr_def mem_now_def Let_def split: option.splits ipc_state.splits)

lemma get_proc_wake [simp]:
  "get_proc (wake p s) q = (if q = p then map_option (\<lambda>x. x\<lparr>pstate := Running\<rparr>) (get_proc s p) else get_proc s q)"
  by (simp add: wake_def)

lemma get_proc_raise [simp]:
  "get_proc (raise p b s) q =
     (if q = p then map_option (\<lambda>x. x\<lparr>pending_signals := pending_signals x OR b\<rparr>) (get_proc s p) else get_proc s q)"
  by (simp add: raise_def)

lemma get_proc_futex_upd [simp]: "get_proc (s\<lparr>futex_table := t\<rparr>) = get_proc s"
  by (simp add: get_proc_def fun_eq_iff)

lemma futex_switch [simp]: "futex_table (switch_to p s) = futex_table s"
  by (simp add: switch_to_def split: option.splits)

lemma fold_wake_get:
  "get_proc (fold wake ps s) q =
     (if q \<in> set ps then map_option (\<lambda>x. x\<lparr>pstate := Running\<rparr>) (get_proc s q) else get_proc s q)"
  by (induction ps arbitrary: s) (auto simp: option.map_comp comp_def)

lemma fold_wake_frame [simp]: "cur (fold wake ps s) = cur s" "futex_table (fold wake ps s) = futex_table s"
  by (induction ps arbitrary: s) auto

lemma futex_wake_some:
  assumes "map_of (futex_table s) addr = Some qs" "n = (if k = 0 then 1 else unat k)"
  shows "futex_wake addr k s = finish (of_nat (min n (length qs)))
    (fold wake (take n qs) (s\<lparr>futex_table := (if drop n qs = [] then bt_remove addr (futex_table s)
                                            else bt_insert addr (drop n qs) (futex_table s))\<rparr>))"
proof -
  have "take (min n (length qs)) qs = take n qs" "drop (min n (length qs)) qs = drop n qs" by (simp_all add: min_def)
  then show ?thesis unfolding futex_wake_def assms(1) option.case Let_def assms(2) [symmetric]
    by (simp only: length_take min.commute)
qed

section \<open>Properties\<close>


text \<open>A futex wakes its waiters in the order in which they began to wait: after a wait that blocks, a
  wake of at most \<open>n\<close> processes makes the first \<open>n\<close> of the waiters runnable, the new one last, and
  reports their number.\<close>

theorem futex_wakes_in_order:
  assumes "get_proc s (cur s) = Some x" "futex_waiters addr s = ws" "is_user_pointer_valid 4 addr 1"
    and "read_u32 (mem_now s) addr = ucast v" "get_proc s q = Some z"
    and n: "n = (if k = 0 then 1 else unat k)" "q \<notin> set ws" "q \<noteq> cur s"
  shows "\<exists>s1 s2. sys_futex addr FUTEX_WAIT v s = (Blocked, s1) \<and> futex_waiters addr s1 = ws @ [cur s]
    \<and> sys_futex addr FUTEX_WAKE k (switch_to q s1) = (Return, s2)
    \<and> futex_waiters addr s2 = drop n (ws @ [cur s])
    \<and> map_option a0 (get_proc s2 q) = Some (of_nat (min n (length ws + 1)))
    \<and> (\<forall>p \<in> set (take n (ws @ [cur s])). \<forall>y. get_proc s2 p = Some y \<longrightarrow> pstate y = Running)"
proof -
  define qs where "qs = ws @ [cur s]"
  define s1 where "s1 = modify (cur s) (\<lambda>x. x\<lparr>pstate := Stopped, a0 := 0\<rparr>)
      (s\<lparr>futex_table := bt_insert addr qs (futex_table s)\<rparr>)"
  have w: "sys_futex addr FUTEX_WAIT v s = (Blocked, s1)"
    using assms by (simp add: sys_futex_def futex_wait_def s1_def qs_def)
  have t1: "map_of (futex_table s1) addr = Some qs" by (simp add: s1_def)
  define s2 where "s2 = switch_to q s1"
  have t2: "map_of (futex_table s2) addr = Some qs" "cur s2 = q" "get_proc s2 = get_proc s1"
    using t1 assms(5) n(3) by (simp_all add: s2_def s1_def fun_eq_iff)
  define ft where "ft = (if drop n qs = [] then bt_remove addr (futex_table s2) else bt_insert addr (drop n qs) (futex_table s2))"
  define s3 where "s3 = fold wake (take n qs) (s2\<lparr>futex_table := ft\<rparr>)"
  define c :: usize where "c = of_nat (min n (length qs))"
  have "sys_futex addr FUTEX_WAKE k s2 = futex_wake addr k s2"
    using assms(3) by (simp add: sys_futex_def FUTEX_WAIT_def FUTEX_WAKE_def)
  also have "\<dots> = finish c s3" unfolding c_def s3_def ft_def by (rule futex_wake_some [OF t2(1) n(1)])
  finally have k: "sys_futex addr FUTEX_WAKE k s2 = (Return, snd (finish c s3))" by (simp add: finish_def)
  have r1: "futex_waiters addr (snd (finish c s3)) = drop n qs"
    by (simp add: futex_waiters_def s3_def ft_def)
  have "q \<notin> set (take n qs)" using n by (auto simp: qs_def dest: in_set_takeD)
  then have r2: "map_option a0 (get_proc (snd (finish c s3)) q) = Some c"
    using assms(5) n(3) t2(2,3) by (simp add: s3_def fold_wake_get s1_def)
  have r3: "\<forall>p \<in> set (take n qs). \<forall>y. get_proc (snd (finish c s3)) p = Some y \<longrightarrow> pstate y = Running"
    by (auto simp: s3_def fold_wake_get split: if_splits)
  have len: "length ws + 1 = length qs" by (simp add: qs_def)
  have r0: "futex_waiters addr s1 = qs" by (simp add: futex_waiters_def t1)
  show ?thesis
    unfolding qs_def [symmetric] len c_def [symmetric]
    by (rule exI [of _ s1], rule exI [of _ "snd (finish c s3)"], intro conjI)
      (fact w r0 k [unfolded s2_def] r1 r2 r3)+
qed

text \<open>A futex waiter that a signal interrupts stays in the futex queue and takes the next wakeup: a wake
  of one process reports success, yet the process that still waits is left stopped and queued.  The
  interrupted process resumes four bytes too far, because only calls that step \<open>sepc\<close> back expect the
  signal to advance it.\<close>

theorem interrupted_waiter_takes_wakeup:
  assumes "table_ok s" "get_proc s (as_i32 a) = Some x" "0 < as_i32 a"
    and sig: "n = unat (ucast b :: u32)" "0 < n" "n < 32" "n \<noteq> SIGKILL" "\<not> bit (blocked_signals x) n"
    and x: "pstate x = Stopped" "istate x = NoIpc"
    and y: "get_proc s r = Some y" "pstate y = Stopped" "r \<noteq> as_i32 a"
    and z: "get_proc s (cur s) = Some z" "cur s \<noteq> as_i32 a" "cur s \<noteq> r"
    and f: "futex_waiters addr s = [as_i32 a, r]" "is_user_pointer_valid 4 addr 1"
  shows "\<exists>s1 s2. sys_kill a b s = (Return, s1) \<and> map_option sepc (get_proc s1 (as_i32 a)) = Some (sepc x + 4)
    \<and> sys_futex addr FUTEX_WAKE 1 s1 = (Return, s2) \<and> map_option a0 (get_proc s2 (cur s)) = Some 1
    \<and> get_proc s2 r = Some y \<and> futex_waiters addr s2 = [r]"
proof -
  let ?p = "as_i32 a"
  define s0 where "s0 = raise ?p (sig_bit n) s"
  define s1 where "s1 = snd (finish 0 (wake_with_eintr ?p s0))"
  define x1 where "x1 = x\<lparr>pending_signals := pending_signals x OR sig_bit n\<rparr>"
  have x1: "get_proc s0 ?p = Some x1" "cur s0 = cur s" using assms(2) by (simp_all add: s0_def x1_def)
  have y0: "get_proc s0 r = Some y" "get_proc s0 (cur s) = Some z" using y z by (simp_all add: s0_def)
  have call: "sys_kill a b s = (Return, s1)"
    using kill_one [OF assms(1,2,3), of b] post_signal_wakes [OF assms(2) x(1) sig(3,5)] sig
    by (simp add: s0_def s1_def finish_def)
  have p: "map_option sepc (get_proc s1 ?p) = Some (sepc x + 4)"
    using eintr_stopped(1) [OF x1(1)] x z(2) x1(2) by (simp add: x1_def s1_def)
  have r1: "get_proc s1 r = Some y"
    using eintr_other [OF y(3) y0(1) x1(1)] x z x1(2) y by (auto simp: s1_def x1_def)
  have q1: "get_proc s1 (cur s) = Some (z\<lparr>a0 := 0\<rparr>)"
    using eintr_other [OF z(2) y0(2) x1(1)] x x1(2) by (auto simp: s1_def x1_def)
  have fs: "map_of (futex_table s) addr = Some [?p, r]" using f(1) by (simp add: futex_waiters_def split: option.splits)
  have m: "map_of (futex_table s1) addr = Some [?p, r]" and c: "cur s1 = cur s"
    using fs by (simp_all add: s1_def s0_def)
  define s2 where "s2 = snd (finish 1 (wake ?p (s1\<lparr>futex_table := bt_insert addr [r] (futex_table s1)\<rparr>)))"
  have w: "sys_futex addr FUTEX_WAKE 1 s1 = (Return, s2)"
    using futex_wake_some [OF m refl, of 1] f(2)
    by (simp add: sys_futex_def FUTEX_WAIT_def FUTEX_WAKE_def s2_def finish_def)
  have a: "map_option a0 (get_proc s2 (cur s)) = Some 1" using q1 c z(2) by (simp add: s2_def)
  have r2: "get_proc s2 r = Some y" using r1 c y(3) z(3) by (simp add: s2_def)
  have e: "futex_waiters addr s2 = [r]" by (simp add: futex_waiters_def s2_def)
  show ?thesis by (rule exI [of _ s1], rule exI [of _ s2], intro conjI) (fact call p w a r2 e)+
qed

section \<open>Witnesses\<close>

definition sample_waiters :: sys where
  "sample_waiters =
     (sample_sys [(2, blank_proc\<lparr>pstate := Stopped\<rparr>), (3, blank_proc\<lparr>pstate := Stopped\<rparr>), (4, blank_proc)])
       \<lparr>cur := 4, futex_table := [(0x100001000, [2, 3])]\<rparr>"

lemma sample_waiters_at:
  "get_proc sample_waiters 2 = Some (blank_proc\<lparr>pstate := Stopped\<rparr>)"
  "get_proc sample_waiters 3 = Some (blank_proc\<lparr>pstate := Stopped\<rparr>)"
  "get_proc sample_waiters 4 = Some blank_proc"
  "cur sample_waiters = 4" "table_ok sample_waiters" "mem_now sample_waiters = (\<lambda>_. 0)"
  by (simp_all add: sample_waiters_def sample_sys_def get_proc_def table_ok_def rq_wf_def mem_now_def)

lemma sample_futex: "futex_waiters 0x100001000 sample_waiters = [2, 3]"
  by (simp add: sample_waiters_def futex_waiters_def)

lemma sample_word: "is_user_pointer_valid 4 0x100001000 1"
  by (simp add: is_user_pointer_valid_def saturating_add_def saturating_mul_def Let_def)

lemma as_i32_2: "as_i32 2 = 2"
  by (simp add: as_i32_def)


theorem futex_wakes_in_order_witness:
  "\<exists>s1 s2. sys_futex 0x100002000 FUTEX_WAIT 0 sample_waiters = (Blocked, s1)
     \<and> sys_futex 0x100002000 FUTEX_WAKE 1 (switch_to 3 s1) = (Return, s2) \<and> futex_waiters 0x100002000 s2 = []"
proof -
  have c: "get_proc sample_waiters (cur sample_waiters) = Some blank_proc" by (simp add: sample_waiters_at)
  have w: "futex_waiters 0x100002000 sample_waiters = []" by (simp add: sample_waiters_def futex_waiters_def)
  have v: "is_user_pointer_valid 4 0x100002000 1"
    by (simp add: is_user_pointer_valid_def saturating_add_def saturating_mul_def Let_def)
  have m: "read_u32 (mem_now sample_waiters) 0x100002000 = ucast (0 :: usize)"
    by (simp add: read_u32_def read_le_def sample_waiters_at)
  show ?thesis
    using futex_wakes_in_order [OF c w v m sample_waiters_at(2), of 1 1] by (auto simp: sample_waiters_at)
qed

theorem interrupted_waiter_takes_wakeup_witness:
  "\<exists>s1 s2. sys_kill 2 15 sample_waiters = (Return, s1)
     \<and> sys_futex 0x100001000 FUTEX_WAKE 1 s1 = (Return, s2) \<and> futex_waiters 0x100001000 s2 = [3]"
proof -
  have c: "get_proc sample_waiters (cur sample_waiters) = Some blank_proc" by (simp add: sample_waiters_at)
  show ?thesis
    using interrupted_waiter_takes_wakeup [OF sample_waiters_at(5), of 2, unfolded as_i32_2, OF sample_waiters_at(1),
      of 15 15 3 _ _ "0x100001000", OF _ _ _ _ _ _ _ _ sample_waiters_at(2) _ _ c] sample_futex sample_word
    by (auto simp: SIGKILL_def sample_waiters_at)
qed

end
