(* ===== verification/Calls.thy ===== *)
theory Calls
  imports Signals
begin

text \<open>The remaining small system calls of \<open>src/syscall/proc.rs\<close> and \<open>src/syscall/pm.rs\<close>, the dispatcher of
  \<open>src/syscall/mod.rs\<close> over the calls of the model, and two invariants of the system as a whole: process
  records stay well formed, and capabilities do not appear without an administrator.\<close>

section \<open>Identity, priority, memory bounds\<close>

definition CAP_PROCESS :: u64 where "CAP_PROCESS = push_bit 3 1"
definition CAP_INTERRUPT :: u64 where "CAP_INTERRUPT = push_bit 4 1"
definition CAP_SYS_ADMIN :: u64 where "CAP_SYS_ADMIN = push_bit 5 1"
definition CAP_DRIVER :: u64 where "CAP_DRIVER = push_bit 6 1"

definition PRIO_REALTIME :: int where "PRIO_REALTIME = 0"
definition PRIO_IDLE :: int where "PRIO_IDLE = 31"

definition sys_yield :: "sys \<Rightarrow> outcome \<times> sys" where
  "sys_yield s =
     (if runq s \<noteq> [] then
        (Blocked, case get_proc s (cur s) of
                    Some _ \<Rightarrow> enq (cur s) s
                  | None \<Rightarrow> s\<lparr>runq := rq_insert (cur s) PRIO_NORMAL (runq s)\<rparr>)
      else (Return, s))"

definition sys_getpid :: "sys \<Rightarrow> outcome \<times> sys" where
  "sys_getpid s = finish (word_of_int (cur s)) s"

definition sys_gettid :: "sys \<Rightarrow> outcome \<times> sys" where
  "sys_gettid s = finish (word_of_int (cur s)) s"

definition sys_getppid :: "sys \<Rightarrow> outcome \<times> sys" where
  "sys_getppid s =
     (case get_proc s (cur s) of None \<Rightarrow> finish ESRCH s | Some x \<Rightarrow> finish (word_of_int (ppid x)) s)"

text \<open>\<open>struct TimeVal\<close>: seconds and microseconds of the 10 MHz clock.\<close>

definition sys_gettimeofday :: "u64 \<Rightarrow> usize \<Rightarrow> sys \<Rightarrow> outcome \<times> sys" where
  "sys_gettimeofday now ptr s =
     (if ptr \<noteq> 0 \<and> \<not> is_user_pointer_valid 16 ptr 1 then finish EFAULT s
      else
        let sec = uint now div 10000000; usec = (uint now mod 10000000) div 10
        in finish 0 (if ptr \<noteq> 0 then copy_out ptr (le_bytes 8 sec @ le_bytes 8 usec) s else s))"

definition sys_setpgid :: "usize \<Rightarrow> usize \<Rightarrow> sys \<Rightarrow> outcome \<times> sys" where
  "sys_setpgid arg0 arg1 s =
     (case get_proc s (cur s) of
        None \<Rightarrow> finish ESRCH s
      | Some x \<Rightarrow>
          let p = (if as_i32 arg0 = 0 then cur s else as_i32 arg0);
              g = (if as_i32 arg1 = 0 then p else as_i32 arg1)
          in if p = cur s then finish 0 (modify (cur s) (\<lambda>x. x\<lparr>pgid := g\<rparr>) s) else finish USIZE_MAX s)"

definition sys_getpgid :: "usize \<Rightarrow> sys \<Rightarrow> outcome \<times> sys" where
  "sys_getpgid arg0 s =
     (case get_proc s (cur s) of
        None \<Rightarrow> finish ESRCH s
      | Some x \<Rightarrow>
          let p = (if as_i32 arg0 = 0 then cur s else as_i32 arg0)
          in finish (if p = cur s then word_of_int (pgid x) else USIZE_MAX) s)"

definition sys_setpriority :: "int \<Rightarrow> sys \<Rightarrow> outcome \<times> sys" where
  "sys_setpriority new s =
     (case get_proc s (cur s) of
        None \<Rightarrow> finish ESRCH s
      | Some _ \<Rightarrow> finish 0 (modify (cur s) (\<lambda>x. x\<lparr>prio := max PRIO_REALTIME (min PRIO_IDLE new)\<rparr>) s))"

definition sys_getpriority :: "sys \<Rightarrow> outcome \<times> sys" where
  "sys_getpriority s =
     (case get_proc s (cur s) of None \<Rightarrow> finish ESRCH s | Some x \<Rightarrow> finish (word_of_int (prio x)) s)"

definition MAP_ANONYMOUS :: usize where "MAP_ANONYMOUS = 0x20"

text \<open>\<open>fd\<close> is register \<open>a4\<close>.\<close>

definition sys_mmap :: "usize \<Rightarrow> usize \<Rightarrow> usize \<Rightarrow> usize \<Rightarrow> sys \<Rightarrow> outcome \<times> sys" where
  "sys_mmap hint len flags fd s =
     (if flags AND MAP_ANONYMOUS = 0 \<and> as_i32 fd \<noteq> - 1 then finish EINVAL s
      else if len = 0 then finish EINVAL s
      else if 2 ^ 64 \<le> unat len + 4096 then (Crash ''attempt to add with overflow'', s)
      else
        let aligned_len = (len + 4095) AND NOT 4095 in
        case get_proc s (cur s) of
          None \<Rightarrow> finish ESRCH s
        | Some x \<Rightarrow>
            finish (if hint \<noteq> 0 \<and> 0x400000000 \<le> hint then hint else next_mmap_va x)
              (modify (cur s) (\<lambda>x. x\<lparr>next_mmap_va := next_mmap_va x + aligned_len\<rparr>) s))"

definition sys_brk :: "usize \<Rightarrow> sys \<Rightarrow> outcome \<times> sys" where
  "sys_brk arg0 s =
     (case get_proc s (cur s) of
        None \<Rightarrow> finish ESRCH s
      | Some x \<Rightarrow>
          let new_brk = (if arg0 = 0 then heap_break x else arg0)
          in finish new_brk (modify (cur s) (\<lambda>x. x\<lparr>heap_break := new_brk\<rparr>) s))"

definition KERNEL_ABI_VERSION :: usize where "KERNEL_ABI_VERSION = 1"

definition sys_abi_version :: "sys \<Rightarrow> outcome \<times> sys" where
  "sys_abi_version s = finish KERNEL_ABI_VERSION s"

section \<open>Capabilities\<close>

definition lacks :: "u64 \<Rightarrow> process \<Rightarrow> bool" where
  "lacks c x \<longleftrightarrow> caps x AND c = 0"

definition sys_privctl :: "usize \<Rightarrow> u64 \<Rightarrow> sys \<Rightarrow> outcome \<times> sys" where
  "sys_privctl pid new s =
     (case get_proc s (cur s) of
        None \<Rightarrow> finish ESRCH s
      | Some x \<Rightarrow>
          if lacks CAP_SYS_ADMIN x then finish EPERM s
          else
            case get_proc s (as_i32 pid) of
              None \<Rightarrow> finish ESRCH s
            | Some _ \<Rightarrow> finish 0 (modify (as_i32 pid) (\<lambda>y. y\<lparr>caps := new\<rparr>) s))"

definition sys_cap_grant :: "pid \<Rightarrow> u64 \<Rightarrow> sys \<Rightarrow> outcome \<times> sys" where
  "sys_cap_grant target new s =
     (case get_proc s (cur s) of
        None \<Rightarrow> finish ESRCH s
      | Some x \<Rightarrow>
          if new AND NOT (caps x) \<noteq> 0 then finish EPERM s
          else
            case get_proc s target of
              None \<Rightarrow> finish ESRCH s
            | Some _ \<Rightarrow> finish 0 (modify target (\<lambda>y. y\<lparr>caps := caps y OR new\<rparr>) s))"

definition sys_grant_driver_cap :: "usize \<Rightarrow> sys \<Rightarrow> outcome \<times> sys" where
  "sys_grant_driver_cap arg0 s =
     (case get_proc s (cur s) of
        None \<Rightarrow> finish ESRCH s
      | Some x \<Rightarrow>
          if lacks CAP_SYS_ADMIN x then finish EPERM s
          else
            case get_proc s (as_i32 arg0) of
              None \<Rightarrow> finish ESRCH s
            | Some _ \<Rightarrow> finish 0 (modify (as_i32 arg0) (\<lambda>y. y\<lparr>caps := caps y OR CAP_DRIVER\<rparr>) s))"

definition sys_irq_register :: "usize \<Rightarrow> usize \<Rightarrow> sys \<Rightarrow> outcome \<times> sys" where
  "sys_irq_register irq pid s =
     (case get_proc s (cur s) of
        None \<Rightarrow> finish ESRCH s
      | Some x \<Rightarrow>
          if lacks (CAP_INTERRUPT OR CAP_DRIVER) x then finish EPERM s
          else finish 0 (s\<lparr>irq_handlers := bt_insert (ucast irq) (as_i32 pid) (irq_handlers s)\<rparr>))"

definition sys_set_process_state :: "usize \<Rightarrow> usize \<Rightarrow> sys \<Rightarrow> outcome \<times> sys" where
  "sys_set_process_state arg0 st s =
     (if (case get_proc s (cur s) of Some x \<Rightarrow> lacks CAP_PROCESS x | None \<Rightarrow> False) then finish EPERM s
      else
        case get_proc s (as_i32 arg0) of
          None \<Rightarrow> finish USIZE_MAX s
        | Some y \<Rightarrow>
            finish 0
              (if st = 1 then wake_if_stopped (as_i32 arg0) s
               else modify (as_i32 arg0) (\<lambda>y. y\<lparr>pstate := Stopped\<rparr>) s))"

section \<open>Dispatch\<close>

text \<open>\<open>None\<close> for a call that the model does not have.  \<open>arg4\<close> is register \<open>a4\<close>, \<open>now\<close> the clock.\<close>

definition dispatch_proc :: "u64 \<Rightarrow> nat \<Rightarrow> usize \<Rightarrow> usize \<Rightarrow> usize \<Rightarrow> usize \<Rightarrow> usize \<Rightarrow> sys \<Rightarrow> (outcome \<times> sys) option" where
  "dispatch_proc now n arg0 arg1 arg2 arg3 arg4 s =
     (if n = 0 then Some (sys_yield s)
      else if n = 1 then Some (sys_exit arg0 s)
      else if n = 52 then Some (sys_waitpid arg0 arg1 arg2 s)
      else if n = 53 then Some (sys_getpid s)
      else if n = 54 then Some (sys_getppid s)
      else if n = 82 then Some (sys_gettimeofday now arg0 s)
      else if n = 83 then Some (sys_nanosleep now arg0 s)
      else if n = 59 then Some (sys_privctl arg0 arg1 s)
      else if n = 84 then Some (sys_setpgid arg0 arg1 s)
      else if n = 85 then Some (sys_getpgid arg0 s)
      else if n = 87 then Some (sys_kill arg0 arg1 s)
      else if n = 88 then Some (sys_sigaction arg0 arg1 arg2 s)
      else if n = 69 then Some (sys_sigprocmask arg0 arg1 arg2 s)
      else if n = 97 then Some (sys_sigpending arg0 s)
      else if n = 121 then Some (sys_futex arg0 arg1 arg2 s)
      else if n = 122 then Some (sys_gettid s)
      else if n = 135 then Some (sys_mmap arg0 arg1 arg3 arg4 s)
      else if n = 137 then Some (sys_brk arg0 s)
      else if n = 138 then Some (sys_abi_version s)
      else if n = 158 then Some (sys_exit_group arg0 s)
      else if n = 159 then Some (sys_set_tid_address arg0 s)
      else if n = 160 then Some (sys_tgkill arg0 arg1 arg2 s)
      else if n = 162 then Some (sys_task_kill arg0 s)
      else if n = 167 then Some (sys_setpriority (as_i32 arg0) s)
      else if n = 168 then Some (sys_getpriority s)
      else if n = 169 then Some (sys_cap_grant (as_i32 arg0) arg1 s)
      else None)"

definition dispatch_ipc :: "nat \<Rightarrow> usize \<Rightarrow> usize \<Rightarrow> usize \<Rightarrow> sys \<Rightarrow> (outcome \<times> sys) option" where
  "dispatch_ipc n arg0 arg1 arg2 s =
     (if n = 61 then Some (sys_mailbox_send arg0 arg1 arg2 s)
      else if n = 62 then Some (sys_mailbox_receive arg0 arg1 arg2 s)
      else if n = 81 then Some (sys_fcntl arg0 arg1 arg2 s)
      else if n = 90 then Some (sys_ipc_send arg0 arg1 s)
      else if n = 91 then Some (sys_ipc_receive arg0 arg1 s)
      else if n = 92 then Some (sys_ipc_sendrec arg0 arg1 s)
      else None)"

definition dispatch_pm :: "nat \<Rightarrow> usize \<Rightarrow> usize \<Rightarrow> sys \<Rightarrow> (outcome \<times> sys) option" where
  "dispatch_pm n arg0 arg1 s =
     (if n = 102 then Some (sys_set_process_state arg0 arg1 s)
      else if n = 107 then Some (sys_irq_register arg0 arg1 s)
      else if n = 166 then Some (sys_grant_driver_cap arg0 s)
      else None)"

definition dispatch :: "u64 \<Rightarrow> nat \<Rightarrow> usize \<Rightarrow> usize \<Rightarrow> usize \<Rightarrow> usize \<Rightarrow> usize \<Rightarrow> sys \<Rightarrow> (outcome \<times> sys) option" where
  "dispatch now n arg0 arg1 arg2 arg3 arg4 s =
     (case dispatch_pm n arg0 arg1 s of
        Some r \<Rightarrow> Some r
      | None \<Rightarrow>
          (case dispatch_proc now n arg0 arg1 arg2 arg3 arg4 s of
             Some r \<Rightarrow> Some r
           | None \<Rightarrow> dispatch_ipc n arg0 arg1 arg2 s))"

text \<open>A process makes a system call, or an interrupt delivers a message.\<close>

inductive kernel_step :: "sys \<Rightarrow> sys \<Rightarrow> bool" where
  call: "get_proc s p = Some x \<Longrightarrow> dispatch now n arg0 arg1 arg2 arg3 arg4 (switch_to p s) = Some (out, s') \<Longrightarrow> kernel_step s s'"
| interrupt: "kernel_step s (kernel_send_msg t m s)"

section \<open>What calls leave of the process table\<close>

text \<open>\<open>kept s s'\<close>: every process of \<open>s'\<close> is one of \<open>s\<close>, with the same capabilities and priority and signal
  tables of the same size, and the table is still ordered.\<close>

definition same_form :: "process \<Rightarrow> process \<Rightarrow> bool" where
  "same_form x y \<longleftrightarrow> caps y = caps x \<and> prio y = prio x \<and> length (signal_handlers y) = length (signal_handlers x)
     \<and> length (signal_masks y) = length (signal_masks x) \<and> length (signal_restorers y) = length (signal_restorers x)"

definition ordered :: "sys \<Rightarrow> bool" where
  "ordered s \<longleftrightarrow> sorted_wrt (<) (map fst (procs s))"

definition kept :: "sys \<Rightarrow> sys \<Rightarrow> bool" where
  "kept s s' \<longleftrightarrow> (\<forall>q y. get_proc s' q = Some y \<longrightarrow> (\<exists>x. get_proc s q = Some x \<and> same_form x y)) \<and> (ordered s \<longrightarrow> ordered s')"

lemma same_form_refl [simp, intro]: "same_form x x"
  by (simp add: same_form_def)

lemma same_form_upd [simp]:
  "same_form x (y\<lparr>pstate := v1\<rparr>) = same_form x y" "same_form x (y\<lparr>a0 := v2\<rparr>) = same_form x y"
  "same_form x (y\<lparr>sepc := v2\<rparr>) = same_form x y" "same_form x (y\<lparr>istate := v3\<rparr>) = same_form x y"
  "same_form x (y\<lparr>senders := v4\<rparr>) = same_form x y" "same_form x (y\<lparr>irq_pending := v5\<rparr>) = same_form x y"
  "same_form x (y\<lparr>mailbox := v6\<rparr>) = same_form x y" "same_form x (y\<lparr>mailbox_waiter := v7\<rparr>) = same_form x y"
  "same_form x (y\<lparr>fds := v8\<rparr>) = same_form x y" "same_form x (y\<lparr>ppid := v7\<rparr>) = same_form x y"
  "same_form x (y\<lparr>children := v4\<rparr>) = same_form x y" "same_form x (y\<lparr>wait_result := v9\<rparr>) = same_form x y"
  "same_form x (y\<lparr>wait_target := v10\<rparr>) = same_form x y" "same_form x (y\<lparr>wait_status_ptr := v11\<rparr>) = same_form x y"
  "same_form x (y\<lparr>pending_signals := v12\<rparr>) = same_form x y" "same_form x (y\<lparr>blocked_signals := v12\<rparr>) = same_form x y"
  "same_form x (y\<lparr>pgid := v7\<rparr>) = same_form x y" "same_form x (y\<lparr>next_mmap_va := v2\<rparr>) = same_form x y"
  "same_form x (y\<lparr>heap_break := v2\<rparr>) = same_form x y" "same_form x (y\<lparr>clear_tid_ptr := v2\<rparr>) = same_form x y"
  by (simp_all add: same_form_def)

lemma kept_refl [simp, intro]: "kept s s"
  by (auto simp: kept_def)

lemma same_form_trans: "same_form x y \<Longrightarrow> same_form y z \<Longrightarrow> same_form x z"
  by (simp add: same_form_def)

lemma kept_trans: "kept s t \<Longrightarrow> kept t u \<Longrightarrow> kept s u"
  unfolding kept_def by (blast intro: same_form_trans)

lemma ordered_modify [simp]: "ordered (modify p f s) = ordered s"
  by (simp add: ordered_def modify_def case_prod_beta comp_def if_distrib cong: if_cong)

lemma ordered_cong: "procs s' = procs s \<Longrightarrow> ordered s' = ordered s"
  by (simp add: ordered_def)

lemma kept_modify [intro]:
  assumes "\<And>x. same_form x (f x)" "kept s t"
  shows "kept s (modify p f t)"
  by (rule kept_trans [OF assms(2)]) (use assms(1) in \<open>auto simp: kept_def\<close>)

lemma kept_procs: "procs t' = procs t \<Longrightarrow> kept s t' = kept s t"
  by (simp add: kept_def get_proc_def ordered_def)

lemma kept_simps [simp]:
  "kept s (enq p t) = kept s t" "kept s (copy_out a bs t) = kept s t" "kept s (switch_to p t) = kept s t"
  "kept s (t\<lparr>runq := v1\<rparr>) = kept s t" "kept s (t\<lparr>futex_table := v2\<rparr>) = kept s t"
  "kept s (t\<lparr>irq_handlers := v3\<rparr>) = kept s t" "kept s (t\<lparr>file_locks := v4\<rparr>) = kept s t"
  "kept s (t\<lparr>lock_waiters := v5\<rparr>) = kept s t" "kept s (t\<lparr>sleep_queue := v6\<rparr>) = kept s t"
  "kept s (t\<lparr>satp_refcount := v7\<rparr>) = kept s t" "kept s (t\<lparr>freed_roots := v8\<rparr>) = kept s t"
  "kept s (t\<lparr>fd_flags := v9\<rparr>) = kept s t"
  by (rule kept_procs; simp)+

lemma kept_remove [intro]: "kept s t \<Longrightarrow> kept s (t\<lparr>procs := bt_remove p (procs t)\<rparr>)"
proof (rule kept_trans)
  have "sorted_wrt (<) (map fst m) \<Longrightarrow> sorted_wrt (<) (map fst (bt_remove p m))" for m :: "(pid \<times> process) list"
    by (induction m) (auto simp: bt_remove_def)
  then show "kept t (t\<lparr>procs := bt_remove p (procs t)\<rparr>)"
    by (auto simp: kept_def get_proc_def ordered_def split: if_splits)
qed

lemma kept_fold [intro]: "(\<And>x t. kept s t \<Longrightarrow> kept s (f x t)) \<Longrightarrow> kept s t \<Longrightarrow> kept s (fold f xs t)"
  by (induction xs arbitrary: t) auto

lemma kept_finish [intro]: "kept s t \<Longrightarrow> kept s (snd (finish v t))" "kept s t \<Longrightarrow> kept s (snd (block t))"
  by (auto intro!: kept_modify)

lemma kept_wake [intro]: "kept s t \<Longrightarrow> kept s (wake p t)"
  unfolding wake_def by (simp add: kept_modify)

lemma kept_raise [intro]: "kept s t \<Longrightarrow> kept s (raise p b t)"
  unfolding raise_def by (simp add: kept_modify)

lemma kept_deposit [intro]: "kept s t \<Longrightarrow> kept s (deposit p m t)"
  unfolding deposit_def by (simp add: kept_modify)

lemma kept_grant [intro]: "kept s t \<Longrightarrow> kept s (grant p t)"
  unfolding grant_def by (simp add: kept_modify split: option.split)

lemma kept_wake_if_stopped [intro]: "kept s t \<Longrightarrow> kept s (wake_if_stopped p t)"
  unfolding wake_if_stopped_def by (simp add: kept_wake split: option.split)

lemma kept_unblock [intro]: "kept s t \<Longrightarrow> kept s (unblock p t)"
  unfolding unblock_def by (intro kept_wake_if_stopped kept_modify) simp_all

lemma kept_wake_with_eintr [intro]: "kept s t \<Longrightarrow> kept s (wake_with_eintr p t)"
  unfolding wake_with_eintr_def Let_def
  by (simp add: kept_wake kept_modify split: option.split ipc_state.split)

lemmas kept_wakes = kept_wake kept_raise kept_deposit kept_grant kept_wake_if_stopped kept_unblock kept_wake_with_eintr

lemma kept_queue_send [intro]: "kept s t \<Longrightarrow> kept s (snd (queue_send p m r t))"
  unfolding queue_send_def by (intro kept_finish kept_modify) simp_all

lemma kept_receive_available [intro]: "kept s t \<Longrightarrow> kept s (snd (receive_available ptr m x t))"
  unfolding receive_available_def Let_def case_prod_beta by (auto simp del: outcome_simps intro!: kept_finish kept_modify)

lemma kept_receive_pending [intro]: "kept s t \<Longrightarrow> kept s (snd (receive_pending ptr m rest t))"
  unfolding receive_pending_def Let_def by (auto simp del: outcome_simps intro!: kept_finish kept_modify)

lemma kept_receive_sender [intro]: "kept s t \<Longrightarrow> kept s (snd (receive_sender ptr p rest t))"
proof -
  assume k: "kept s t"
  then have k1: "kept s (modify (cur t) (\<lambda>x. x\<lparr>senders := rest\<rparr>) t)" by (intro kept_modify) simp_all
  then show ?thesis unfolding receive_sender_def Let_def
    by (auto simp del: outcome_simps get_proc_modify split: option.split ipc_state.split intro!: kept_finish kept_modify)
qed

lemma kept_send: "kept s (snd (sys_ipc_send a ptr s))"
  unfolding sys_ipc_send_def Let_def
  by (auto simp del: outcome_simps split: option.split intro!: kept_finish kept_modify kept_wakes kept_queue_send)

lemma kept_receive: "kept s (snd (sys_ipc_receive a ptr s))"
proof -
  have "kept s (snd (block (modify p (\<lambda>x. x\<lparr>istate := n\<rparr>) s)))" for p n by (intro kept_finish kept_modify) simp_all
  then show ?thesis unfolding sys_ipc_receive_def Let_def
    by (auto simp del: outcome_simps split: option.split ipc_state.split)
qed

lemma kept_sendrec: "kept s (snd (sys_ipc_sendrec a ptr s))"
proof -
  have "kept s (snd (block (modify p (\<lambda>x. x\<lparr>istate := n\<rparr>) (deposit t m s))))"
    "kept s (snd (finish v (modify p (\<lambda>x. x\<lparr>istate := n\<rparr>) (copy_out ptr bs s))))"
    "kept s (snd (finish v (modify p (\<lambda>x. x\<lparr>istate := n\<rparr>) s)))" for p n t m v bs
    by (intro kept_finish kept_modify; auto)+
  then show ?thesis unfolding sys_ipc_sendrec_def Let_def
    by (auto simp del: outcome_simps split: option.split ipc_state.split)
qed

lemma kept_kernel_send: "kept s (kernel_send_msg p m s)"
  unfolding kernel_send_msg_def
  by (auto split: option.split ipc_state.split intro!: kept_modify kept_wakes)

lemma kept_mailbox: "kept s (snd (sys_mailbox_send a ptr len s))" "kept s (snd (sys_mailbox_receive ptr len from s))"
proof -
  have m: "kept s (modify t (\<lambda>y. y\<lparr>mailbox := f y\<rparr>) s)" for t f by (simp add: kept_modify)
  show "kept s (snd (sys_mailbox_send a ptr len s))"
    unfolding sys_mailbox_send_def Let_def
    by (simp del: outcome_simps add: kept_finish kept_modify split: option.split)
  have "kept s (modify t (\<lambda>y. y\<lparr>mailbox_waiter := 1, pstate := Stopped\<rparr>) s)" for t by (simp add: kept_modify)
  then show "kept s (snd (sys_mailbox_receive ptr len from s))"
    unfolding sys_mailbox_receive_def Let_def
    by (simp del: outcome_simps add: kept_finish m split: option.split list.split prod.split)
qed

lemma kept_try_acquire: "kept s t \<Longrightarrow> kept s (snd (try_acquire f p ty rs re t))"
  by (simp add: try_acquire_def)

lemma kept_wake_each: "kept s t \<Longrightarrow> kept s (snd (wake_each f ws t))"
proof (induction f ws t rule: wake_each.induct)
  case (2 f p ty ws we rest t)
  obtain b t1 where b: "try_acquire f p ty ws we t = (b, t1)" by fastforce
  have "kept s t1" using kept_try_acquire [OF 2(3), of f p ty ws we] b by simp
  then show ?case using b 2 by (cases b) (auto simp: kept_grant case_prod_beta)
qed simp

lemma kept_wake_lock_waiters: "kept s t \<Longrightarrow> kept s (wake_lock_waiters f t)"
  by (simp add: wake_lock_waiters_def case_prod_beta kept_wake_each split: option.split)

lemma kept_release_range: "kept s t \<Longrightarrow> kept s (release_range f p rs re t)"
  by (simp add: release_range_def set_locks_def kept_wake_lock_waiters split: option.split)

lemma kept_release_all_locks: "kept s t \<Longrightarrow> kept s (release_all_locks p t)"
  unfolding release_all_locks_def Let_def
  by (intro kept_fold kept_wake_lock_waiters) (auto simp: drop_locks_of_def set_locks_def split: option.split)

lemma kept_upd_fds: "kept s (upd_fds f s)"
  by (simp add: upd_fds_def kept_modify)

lemma kept_write_blocking: "kept s (write_blocking ptr e s)"
  by (simp add: write_blocking_def split: option.split)

lemma kept_fcntl_lock: "kept s (snd (fcntl_lock cmd f fl ptr s))"
proof -
  obtain rs re where r: "resolve_range (fl_start fl) (fl_len fl) = (rs, re)" by fastforce
  obtain b t where t: "try_acquire f (cur s) (fl_type fl) rs re s = (b, t)" by fastforce
  then have k: "kept s t" using kept_try_acquire [OF kept_refl] by (metis snd_conv)
  have "kept s (modify p (\<lambda>x. x\<lparr>istate := n, pstate := Stopped\<rparr>) (t\<lparr>lock_waiters := lw\<rparr>))" for p n lw
    using k by (simp add: kept_modify)
  then show ?thesis
    using k unfolding fcntl_lock_def Let_def r t prod.case
    by (cases b) (simp_all del: outcome_simps add: kept_finish kept_write_blocking kept_release_range)
qed

lemma kept_fcntl: "kept s (snd (sys_fcntl a c b s))"
proof -
  have d: "kept s (snd (fcntl_dupfd x obj fd s))" for x obj fd
    unfolding fcntl_dupfd_def by (simp del: outcome_simps add: kept_finish kept_upd_fds split: option.split)
  have f: "kept s (snd (fcntl_flock cmd obj ptr s))" for cmd obj ptr
    unfolding fcntl_flock_def by (simp del: outcome_simps add: kept_finish kept_fcntl_lock split: option.split)
  have v: "kept s (snd (fcntl_set_vfs x fd sfd s))" for x fd sfd
    unfolding fcntl_set_vfs_def by (simp del: outcome_simps add: kept_finish kept_upd_fds split: rr.split prod.split)
  have c: "kept s (snd (fcntl_command x fd obj cmd arg s))" for x fd obj cmd arg
    unfolding fcntl_command_def by (simp del: outcome_simps add: kept_finish kept_upd_fds d f)
  show ?thesis
    unfolding sys_fcntl_def Let_def by (simp del: outcome_simps add: kept_finish v c split: option.split)
qed

lemma kept_clear_tid: "kept s t \<Longrightarrow> kept s (clear_tid a t)"
  unfolding clear_tid_def Let_def by (auto split: option.split)

lemma kept_try_wake_parent: "kept s t \<Longrightarrow> kept s (try_wake_parent p c st t)"
  unfolding try_wake_parent_def Let_def
  by (auto intro!: kept_wake_if_stopped kept_modify kept_raise split: option.split)

lemma kept_reparent: "kept s t \<Longrightarrow> kept s (reparent cs t)"
proof -
  assume k: "kept s t"
  have "kept s (reparent_child c u)" if "kept s u" for c u
    using that unfolding reparent_child_def Let_def
    by (auto intro!: kept_try_wake_parent kept_modify split: option.split proc_state.split)
  then show ?thesis using k unfolding reparent_def by (auto intro!: kept_fold kept_modify)
qed

lemma kept_signal_orphans: "kept s t \<Longrightarrow> kept s (signal_orphans p cs t)"
  unfolding signal_orphans_def hang_up_def
  by (auto intro!: kept_fold kept_wake_if_stopped kept_raise)

lemma kept_exit: "kept s t \<Longrightarrow> kept s (snd (exit p st t))"
proof -
  assume k: "kept s t"
  have z: "kept s (modify p (\<lambda>x. x\<lparr>pstate := Zombie st\<rparr>) t)" using k by (simp add: kept_modify)
  have l: "kept s (exit_local p st x t)" for x
    unfolding exit_local_def Let_def
    by (intro kept_release_all_locks) (auto intro!: kept_fold kept_unblock kept_clear_tid kept_modify k)
  show ?thesis
  proof (cases "get_proc t p")
    case None
    then show ?thesis using k by (simp add: exit_def)
  next
    case (Some x)
    show ?thesis
    proof (cases "close_wakes x t")
      case True
      then have "exit p st t = (Crash recursive_lock, modify p (\<lambda>x. x\<lparr>pstate := Zombie st\<rparr>) t)"
        using Some by (simp add: exit_def close_wakes_def)
      then show ?thesis using z by simp
    next
      case False
      show ?thesis unfolding exit_cases [OF Some False] Let_def
        by (auto intro!: kept_signal_orphans kept_try_wake_parent kept_reparent l)
    qed
  qed
qed

lemma kept_reap: "kept s t \<Longrightarrow> kept s (snd (reap_zombie z st p a t))"
proof -
  assume k: "kept s t"
  have "kept s (modify q (\<lambda>y. y\<lparr>children := f y, wait_target := None, wait_status_ptr := None\<rparr>)
      (t\<lparr>procs := bt_remove z (procs t)\<rparr>))" for q f
    using kept_remove [OF k] by (intro kept_modify) simp_all
  then show ?thesis using k unfolding reap_zombie_def Let_def
    by (intro kept_finish) (simp add: case_prod_beta split: option.split)
qed

lemma kept_waitpid: "kept s (snd (sys_waitpid a p o' s))"
proof -
  have w: "kept s (snd (wait_block tg q x s))" for tg q x
    unfolding wait_block_def Let_def
    by (auto simp del: outcome_simps intro!: kept_finish kept_reap kept_modify split: option.split)
  show ?thesis unfolding sys_waitpid_def Let_def
    by (auto simp del: outcome_simps intro!: kept_finish kept_reap kept_modify w split: option.split list.split)
qed

lemma kept_exit_each: "kept s t \<Longrightarrow> kept s (snd (exit_each ps st t))"
proof (induction ps arbitrary: t)
  case (Cons p ps)
  obtain o1 t1 where e: "exit p st t = (o1, t1)" by fastforce
  have "kept s t1" using kept_exit [OF Cons.prems, of p st] e by simp
  then show ?case using e Cons.IH by (simp split: outcome.split)
qed simp

lemma kept_exit_then_schedule: "kept s t \<Longrightarrow> kept s (snd (exit_then_schedule p st t))"
  using kept_exit [of s t p st] by (auto simp: exit_then_schedule_def split: prod.split outcome.split)

lemma kept_kill: "kept s (snd (sys_kill a b s))"
proof -
  have l: "kept s (snd (kill_list ps s))" for ps
  proof -
    obtain o1 t1 where e: "exit_each (filter (\<lambda>p. p \<noteq> cur s) ps) (- 9) s = (o1, t1)" by fastforce
    then have "kept s t1" using kept_exit_each [OF kept_refl] by (metis snd_conv)
    then show ?thesis using e
      by (simp del: outcome_simps add: kill_list_def kept_exit_then_schedule kept_finish split: outcome.split)
  qed
  have "kept s (post_signal n p t)" if "kept s t" for n p t
    using that by (auto simp: post_signal_def Let_def intro!: kept_raise kept_wake_with_eintr split: option.split)
  then have "kept s (fold (post_signal n) ps s)" for n ps by (intro kept_fold) simp_all
  then show ?thesis using l unfolding sys_kill_def Let_def by (simp del: outcome_simps add: kept_finish)
qed

lemma kept_sigaction: "kept s (snd (sys_sigaction a b c s))"
proof -
  have w: "kept s (write_sigaction n x p s)" for n x p by (simp add: write_sigaction_def)
  have i: "kept s (install_sigaction n p t)" if "kept s t" for n p t
    unfolding install_sigaction_def Let_def by (intro kept_modify that) (simp add: same_form_def)
  show ?thesis unfolding sys_sigaction_def Let_def
    by (simp del: outcome_simps add: kept_finish w i split: option.split)
qed

lemma kept_signal_calls:
  "kept s (snd (sys_sigprocmask a b c s))" "kept s (snd (sys_sigpending a s))" "kept s (snd (sys_tgkill a b c s))"
  subgoal unfolding sys_sigprocmask_def Let_def
    by (simp del: outcome_simps add: kept_finish kept_modify split: option.split)
  subgoal unfolding sys_sigpending_def by (simp del: outcome_simps add: kept_finish split: option.split)
  subgoal unfolding sys_tgkill_def by (simp del: outcome_simps add: kept_finish kept_raise split: option.split)
  done

lemma kept_sleep_calls: "kept s (snd (sys_nanosleep now p s))" "kept s (snd (sys_futex a b c s))"
proof -
  have m: "kept s (modify p (\<lambda>x. x\<lparr>pstate := Stopped, a0 := 0\<rparr>) t)" if "kept s t" for p t
    using that by (simp add: kept_modify)
  show "kept s (snd (sys_nanosleep now p s))"
    unfolding sys_nanosleep_def Let_def by (simp del: outcome_simps add: kept_finish m)
  have "kept s (snd (futex_wait a c s))"
    unfolding futex_wait_def Let_def by (simp del: outcome_simps add: kept_finish m)
  moreover have "kept s (snd (futex_wake a c s))"
    unfolding futex_wake_def Let_def by (simp del: outcome_simps add: kept_finish kept_fold kept_wake split: option.split)
  ultimately show "kept s (snd (sys_futex a b c s))"
    unfolding sys_futex_def by (simp del: outcome_simps add: kept_finish)
qed

lemma kept_end_calls:
  "kept s (snd (sys_exit a s))" "kept s (snd (sys_exit_group a s))" "kept s (snd (sys_set_tid_address b s))"
  "kept s (snd (sys_task_kill h s))"
proof -
  have e: "kept s (snd (case exit_each ps st s of (Return, s1) \<Rightarrow> (Blocked, s1) | (other, s1) \<Rightarrow> (other, s1)))"
    "kept s (snd (case exit_each ps st s of (Return, s1) \<Rightarrow> finish v s1 | (other, s1) \<Rightarrow> (other, s1)))" for ps st v
    using kept_exit_each [OF kept_refl, of s ps st]
    by (auto simp del: outcome_simps intro!: kept_finish split: prod.split outcome.split)
  show "kept s (snd (sys_exit a s))" unfolding sys_exit_def by (rule kept_exit_then_schedule) simp
  show "kept s (snd (sys_exit_group a s))" unfolding sys_exit_group_def using e by (simp split: option.split)
  show "kept s (snd (sys_set_tid_address b s))"
    unfolding sys_set_tid_address_def by (intro kept_finish kept_modify) simp_all
  show "kept s (snd (sys_task_kill h s))"
    unfolding sys_task_kill_def using e
    by (simp del: outcome_simps add: kept_finish kept_exit_then_schedule split: option.split kobj.split)
qed

lemma kept_small_calls:
  "kept s (snd (sys_yield s))" "kept s (snd (sys_getpid s))" "kept s (snd (sys_gettid s))" "kept s (snd (sys_getppid s))"
  "kept s (snd (sys_gettimeofday now p s))" "kept s (snd (sys_setpgid a b s))" "kept s (snd (sys_getpgid a s))"
  "kept s (snd (sys_getpriority s))" "kept s (snd (sys_mmap a b c d s))" "kept s (snd (sys_brk a s))"
  "kept s (snd (sys_abi_version s))" "kept s (snd (sys_irq_register a b s))" "kept s (snd (sys_set_process_state a b s))"
  unfolding sys_yield_def sys_getpid_def sys_gettid_def sys_getppid_def sys_gettimeofday_def sys_setpgid_def
    sys_getpgid_def sys_getpriority_def sys_mmap_def sys_brk_def sys_abi_version_def sys_irq_register_def
    sys_set_process_state_def Let_def
  by (simp del: outcome_simps add: kept_finish kept_modify kept_wake_if_stopped split: option.split)+

lemmas kept_calls = kept_send kept_receive kept_sendrec kept_mailbox kept_fcntl kept_waitpid kept_kill kept_sigaction
  kept_signal_calls kept_sleep_calls kept_end_calls kept_small_calls

text \<open>A call keeps the table, or is one of the four that change a priority or capabilities.\<close>

lemma dispatch_cases:
  assumes "dispatch now n a b c d e s = Some (out, s')"
  obtains "kept s s'" | "s' = snd (sys_setpriority (as_i32 a) s)" | "s' = snd (sys_privctl a b s)"
    | "s' = snd (sys_cap_grant (as_i32 a) b s)" | "s' = snd (sys_grant_driver_cap a s)"
proof -
  let ?P = "\<lambda>r. kept s (snd r) \<or> snd r = snd (sys_setpriority (as_i32 a) s) \<or> snd r = snd (sys_privctl a b s)
    \<or> snd r = snd (sys_cap_grant (as_i32 a) b s) \<or> snd r = snd (sys_grant_driver_cap a s)"
  have "pred_option ?P (dispatch_pm n a b s)" by (simp add: dispatch_pm_def kept_calls del: outcome_simps)
  moreover have "pred_option ?P (dispatch_ipc n a b c s)" by (simp add: dispatch_ipc_def kept_calls del: outcome_simps)
  moreover have "pred_option ?P (dispatch_proc now n a b c d e s)"
    by (simp add: dispatch_proc_def kept_calls del: outcome_simps)
  ultimately have "pred_option ?P (dispatch now n a b c d e s)"
    unfolding dispatch_def
    by (cases "dispatch_pm n a b s"; cases "dispatch_proc now n a b c d e s")
      (simp_all only: option.case option.pred_inject simp_thms)
  then have "?P (out, s')" using assms by (simp only: option.pred_inject)
  then show ?thesis using that by (elim disjE) (simp_all only: snd_conv)
qed

section \<open>Invariants of the whole system\<close>

definition proc_wf :: "process \<Rightarrow> bool" where
  "proc_wf x \<longleftrightarrow> PRIO_REALTIME \<le> prio x \<and> prio x \<le> PRIO_IDLE \<and> length (signal_handlers x) = 32
     \<and> length (signal_masks x) = 32 \<and> length (signal_restorers x) = 32"

definition sys_wf :: "sys \<Rightarrow> bool" where
  "sys_wf s \<longleftrightarrow> ordered s \<and> (\<forall>p x. get_proc s p = Some x \<longrightarrow> proc_wf x)"

lemma kept_wf: "kept s s' \<Longrightarrow> sys_wf s \<Longrightarrow> sys_wf s'"
  unfolding kept_def sys_wf_def same_form_def proc_wf_def by metis

lemma wf_modify: "sys_wf s \<Longrightarrow> (\<And>x. proc_wf x \<Longrightarrow> proc_wf (f x)) \<Longrightarrow> sys_wf (modify p f s)"
  by (auto simp: sys_wf_def split: if_splits)

lemma wf_switch_to [simp]: "sys_wf (switch_to p s) = sys_wf s"
  by (simp add: sys_wf_def ordered_def)

lemma wf_finish: "sys_wf s \<Longrightarrow> sys_wf (snd (finish v s))"
  by (auto simp: proc_wf_def intro!: wf_modify)

lemma wf_cap_calls:
  assumes "sys_wf s"
  shows "sys_wf (snd (sys_setpriority v s))" "sys_wf (snd (sys_privctl p c s))"
    "sys_wf (snd (sys_cap_grant q c s))" "sys_wf (snd (sys_grant_driver_cap p s))"
  unfolding sys_setpriority_def sys_privctl_def sys_cap_grant_def sys_grant_driver_cap_def
  using assms
  by (auto simp del: outcome_simps simp: proc_wf_def PRIO_REALTIME_def PRIO_IDLE_def split: option.split
      intro!: wf_finish wf_modify)

lemma kernel_step_wf: "kernel_step s s' \<Longrightarrow> sys_wf s \<Longrightarrow> sys_wf s'"
proof (induction rule: kernel_step.induct)
  case (call s p x now n a b c d e out s')
  then show ?case
    using wf_cap_calls [of "switch_to p s"] by (auto elim!: dispatch_cases dest: kept_wf)
next
  case (interrupt s t m)
  then show ?case using kept_kernel_send kept_wf by blast
qed

definition held :: "sys \<Rightarrow> nat \<Rightarrow> bool" where
  "held s b \<longleftrightarrow> (\<exists>p x. get_proc s p = Some x \<and> bit (caps x) b)"

lemma heldI: "get_proc s p = Some x \<Longrightarrow> bit (caps x) b \<Longrightarrow> held s b"
  by (auto simp: held_def)

lemma held_kept: "kept s s' \<Longrightarrow> held s' b \<Longrightarrow> held s b"
  unfolding kept_def held_def same_form_def by metis

lemma held_switch_to [simp]: "held (switch_to p s) = held s"
  by (simp add: held_def fun_eq_iff)

lemma held_alt: "held s b \<longleftrightarrow> (\<exists>p c. map_option caps (get_proc s p) = Some c \<and> bit c b)"
  by (auto simp: held_def)

lemma held_modify: "(\<And>x. caps (f x) = caps x) \<Longrightarrow> held (modify p f s) b = held s b"
proof -
  assume "\<And>x. caps (f x) = caps x"
  then have "map_option caps (get_proc (modify p f s) q) = map_option caps (get_proc s q)" for q
    by (simp add: option.map_comp comp_def)
  then show ?thesis unfolding held_alt by simp
qed

lemma held_finish [simp]: "held (snd (finish v s)) b = held s b"
  by (simp add: held_modify)

lemma lacks_admin: "lacks CAP_SYS_ADMIN x \<longleftrightarrow> \<not> bit (caps x) 5"
proof -
  have "bit (caps x AND CAP_SYS_ADMIN) k \<longleftrightarrow> k = 5 \<and> bit (caps x) 5" for k
    unfolding CAP_SYS_ADMIN_def bit_and_iff bit_push_bit_iff bit_1_iff by auto
  then show ?thesis unfolding lacks_def by (metis bit_word_eqI bit_0_eq bot_apply bot_bool_def)
qed

lemma subset_bit: "c AND NOT m = 0 \<Longrightarrow> bit c b \<Longrightarrow> bit m b" for c m :: u64
proof -
  assume a: "c AND NOT m = 0" "bit c b"
  then have "b < 64" using bit_imp_le_length by fastforce
  moreover have "\<not> bit (c AND NOT m) b" using a(1) by simp
  ultimately show ?thesis using a(2) by (simp add: bit_simps)
qed

lemma held_cap_grant: "held (snd (sys_cap_grant q c s)) b \<Longrightarrow> held s b"
proof -
  assume h: "held (snd (sys_cap_grant q c s)) b"
  have g: "held s b" if x: "get_proc s (cur s) = Some x" "c AND NOT (caps x) = 0"
    and m: "held (modify q (\<lambda>y. y\<lparr>caps := caps y OR c\<rparr>) s) b" for x
  proof -
    from m obtain p y where "get_proc (modify q (\<lambda>y. y\<lparr>caps := caps y OR c\<rparr>) s) p = Some y" "bit (caps y) b"
      by (auto simp: held_def simp del: get_proc_modify)
    then consider z where "get_proc s p = Some z" "bit (caps z) b" | "bit c b"
      by (auto simp: bit_simps split: if_splits)
    then show ?thesis by cases (use x subset_bit [OF x(2)] in \<open>blast intro: heldI\<close>)+
  qed
  show ?thesis
    using h g unfolding sys_cap_grant_def by (simp del: outcome_simps split: option.splits if_splits)
qed

lemma held_other_calls:
  assumes "\<not> held s 5"
  shows "held (snd (sys_privctl p c s)) b \<Longrightarrow> held s b" "held (snd (sys_grant_driver_cap p s)) b \<Longrightarrow> held s b"
    "held (snd (sys_setpriority v s)) b \<Longrightarrow> held s b"
proof -
  have l: "get_proc s q = Some x \<Longrightarrow> lacks CAP_SYS_ADMIN x" for q x using assms by (auto simp: lacks_admin held_def)
  show "held (snd (sys_privctl p c s)) b \<Longrightarrow> held s b" "held (snd (sys_grant_driver_cap p s)) b \<Longrightarrow> held s b"
    unfolding sys_privctl_def sys_grant_driver_cap_def
    by (simp_all del: outcome_simps add: l split: option.splits)
  have "held (modify q (\<lambda>x. x\<lparr>prio := w\<rparr>) s) b = held s b" for q w by (simp add: held_modify)
  then show "held (snd (sys_setpriority v s)) b \<Longrightarrow> held s b"
    unfolding sys_setpriority_def by (simp del: outcome_simps split: option.splits)
qed

lemma kernel_step_caps: "kernel_step s s' \<Longrightarrow> \<not> held s 5 \<Longrightarrow> held s' b \<Longrightarrow> held s b"
proof (induction rule: kernel_step.induct)
  case (call s p x now n a0 a1 a2 a3 a4 out s')
  from call(2) show ?case
    using call(3,4) held_other_calls [of "switch_to p s"] held_cap_grant [of _ _ "switch_to p s"]
    by (cases rule: dispatch_cases) (auto dest: held_kept)
next
  case (interrupt s t m)
  then show ?case using kept_kernel_send held_kept by blast
qed

section \<open>Properties\<close>



section \<open>Witnesses\<close>

definition sample_caps :: sys where
  "sample_caps = sample_sys [(2, blank_proc\<lparr>caps := 8\<rparr>), (3, blank_proc)]"

lemma sample_caps_at:
  "get_proc sample_caps 2 = Some (blank_proc\<lparr>caps := 8\<rparr>)" "get_proc sample_caps 3 = Some blank_proc"
  by (simp_all add: sample_caps_def get_proc_sample)

lemma sample_caps_step:
  "kernel_step sample_caps (snd (sys_cap_grant 3 8 (switch_to 2 sample_caps)))"
proof -
  obtain r s' where e: "sys_cap_grant 3 8 (switch_to 2 sample_caps) = (r, s')" by fastforce
  have "as_i32 3 = 3" by (simp add: as_i32_def)
  then have "dispatch 0 169 3 8 0 0 0 (switch_to 2 sample_caps) = Some (r, s')"
    using e by (simp add: dispatch_def dispatch_pm_def dispatch_proc_def)
  from kernel_step.call [OF sample_caps_at(1) this] show ?thesis by (simp only: e snd_conv)
qed



end
