(* ===== verification/Gzip.thy ===== *)
theory Gzip
  imports Bytes
begin

text \<open>The decompressor of the package manager, \<open>user/pkg/src/gzip.rs\<close>: bit reader, Huffman trees, inflate into
  either of two sinks, and the gzip header.  A bit (\<open>u8\<close> 0 or 1) is a \<open>bool\<close>; \<open>None\<close> of the source is \<open>Err\<close>,
  an index out of range or an arithmetic overflow is \<open>Panic\<close>.\<close>

section \<open>Bit reader\<close>

record bit_reader =
  br_data :: "u8 list"
  br_pos :: nat
  br_bit :: nat

definition BitReader_new :: "u8 list \<Rightarrow> bit_reader" where
  "BitReader_new bs = \<lparr>br_data = bs, br_pos = 0, br_bit = 0\<rparr>"


definition read_bit :: "(bit_reader, bool) kmon" where
  "read_bit r =
     (if length (br_data r) \<le> br_pos r then (Err none, r)
      else if 8 \<le> br_bit r then (Panic overflow, r)
      else
        let b = bit (br_data r ! br_pos r) (br_bit r) in
        if br_bit r + 1 = 8 then (Ok b, r\<lparr>br_bit := 0, br_pos := br_pos r + 1\<rparr>)
        else (Ok b, r\<lparr>br_bit := br_bit r + 1\<rparr>))"

text \<open>\<open>i\<close> bits are in \<open>val\<close>, the given number is still to come; the callers read at most 13.\<close>

fun read_bits_loop :: "nat \<Rightarrow> nat \<Rightarrow> u16 \<Rightarrow> (bit_reader, u16) kmon" where
  "read_bits_loop i 0 val = retK val"
| "read_bits_loop i (Suc k) val =
     bindK read_bit (\<lambda>b. read_bits_loop (i + 1) k (val OR push_bit i (of_bool b)))"

definition read_bits :: "nat \<Rightarrow> (bit_reader, u16) kmon" where
  "read_bits n = read_bits_loop 0 n 0"

definition read_byte :: "(bit_reader, u8) kmon" where
  "read_byte r =
     (if br_bit r = 0 then
        if br_pos r < length (br_data r) then (Ok (br_data r ! br_pos r), r\<lparr>br_pos := br_pos r + 1\<rparr>)
        else (Err none, r)
      else bindK (read_bits 8) (\<lambda>v. retK (ucast v)) r)"

definition read_u16_le :: "(bit_reader, u16) kmon" where
  "read_u16_le = bindK read_byte (\<lambda>lo. bindK read_byte (\<lambda>hi. retK (ucast lo OR push_bit 8 (ucast hi))))"

definition byte_align :: "bit_reader \<Rightarrow> bit_reader" where
  "byte_align r = (if br_bit r \<noteq> 0 then r\<lparr>br_bit := 0, br_pos := br_pos r + 1\<rparr> else r)"

section \<open>Huffman trees\<close>

type_synonym nodes = "(int \<times> int) list"

definition child :: "nodes \<Rightarrow> nat \<Rightarrow> bool \<Rightarrow> int" where
  "child ns i b = (if b then snd (ns ! i) else fst (ns ! i))"

definition set_child :: "nat \<Rightarrow> bool \<Rightarrow> int \<Rightarrow> nodes \<Rightarrow> nodes" where
  "set_child i b v ns = ns[i := (if b then (fst (ns ! i), v) else (v, snd (ns ! i)))]"

definition bl_count :: "nat list \<Rightarrow> nat list" where
  "bl_count lengths = map (\<lambda>l. if l = 0 then 0 else count_list lengths l) [0..<16]"

text \<open>\<open>next_code[1..=15]\<close> from \<open>bl_count[0..15]\<close>.\<close>

fun first_codes :: "nat list \<Rightarrow> u16 \<Rightarrow> u16 list rr" where
  "first_codes [] code = Ok []"
| "first_codes (c # cs) code =
     (if 2 ^ 16 \<le> unat code + unat (of_nat c :: u16) then Panic overflow
      else
        let code' = push_bit 1 (code + of_nat c) in
        case first_codes cs code' of
          Ok rest \<Rightarrow> Ok (code' # rest)
        | Err e \<Rightarrow> Err e
        | Panic e \<Rightarrow> Panic e)"

text \<open>The walk along the low \<open>b\<close> bits of the code \<open>c\<close>, which creates the nodes that are missing.\<close>

fun walk_code :: "u16 \<Rightarrow> nat \<Rightarrow> nat \<Rightarrow> nodes \<Rightarrow> nat \<times> nodes" where
  "walk_code c 0 i ns = (i, ns)"
| "walk_code c (Suc b) i ns =
     (if child ns i (bit c b) < 0 then
        walk_code c b (length ns) (set_child i (bit c b) (int (length ns)) (ns @ [(- 1, - 1)]))
      else walk_code c b (nat (child ns i (bit c b))) ns)"

definition add_symbol :: "nat \<Rightarrow> nat \<Rightarrow> u16 \<Rightarrow> nodes \<Rightarrow> nodes" where
  "add_symbol symbol len c ns =
     (let (i, ns') = walk_code c len 0 ns in ns'[i := (- (int symbol + 1), - (int symbol + 1))])"

fun add_symbols :: "nat \<Rightarrow> nat list \<Rightarrow> u16 list \<Rightarrow> nodes \<Rightarrow> nodes rr" where
  "add_symbols symbol [] next ns = Ok ns"
| "add_symbols symbol (len # lens) next ns =
     (if len = 0 \<or> 15 < len then add_symbols (symbol + 1) lens next ns
      else if next ! len = - 1 then Panic overflow
      else add_symbols (symbol + 1) lens (next[len := next ! len + 1]) (add_symbol symbol len (next ! len) ns))"

definition build :: "nat list \<Rightarrow> nodes rr" where
  "build lengths =
     (case first_codes (take 15 (bl_count lengths)) 0 of
        Ok codes \<Rightarrow> add_symbols 0 lengths (0 # codes) [(- 1, - 1)]
      | Err e \<Rightarrow> Err e
      | Panic e \<Rightarrow> Panic e)"

definition bits_left :: "bit_reader \<Rightarrow> nat" where
  "bits_left r = 8 * length (br_data r) - (8 * br_pos r + br_bit r)"

lemma read_bit_less: "read_bit r = (Ok b, r') \<Longrightarrow> bits_left r' < bits_left r"
  by (auto simp: read_bit_def bits_left_def Let_def split: if_splits)

function decode :: "nodes \<Rightarrow> nat \<Rightarrow> (bit_reader, nat) kmon" where
  "decode ns i r =
     (case read_bit r of
        (Ok b, r') \<Rightarrow>
          if length ns \<le> i then (Panic out_of_bounds, r')
          else if child ns i b < 0 then (Ok (nat (- (child ns i b + 1))), r')
          else decode ns (nat (child ns i b)) r'
      | (Err e, r') \<Rightarrow> (Err e, r')
      | (Panic e, r') \<Rightarrow> (Panic e, r'))"
  by pat_completeness auto
termination by (relation "measure (\<lambda>(ns, i, r). bits_left r)") (auto dest: read_bit_less [OF sym])

declare decode.simps [simp del]

section \<open>Sinks\<close>

definition LEN_BASE :: "nat list" where
  "LEN_BASE = [3,4,5,6,7,8,9,10,11,13,15,17,19,23,27,31,35,43,51,59,67,83,99,115,131,163,195,227,258]"
definition LEN_EXTRA :: "nat list" where
  "LEN_EXTRA = [0,0,0,0,0,0,0,0,1,1,1,1,2,2,2,2,3,3,3,3,4,4,4,4,5,5,5,5,0]"
definition DIST_BASE :: "nat list" where
  "DIST_BASE = [1,2,3,4,5,7,9,13,17,25,33,49,65,97,129,193,257,385,513,769,1025,1537,2049,3073,4097,6145,8193,12289,16385,24577]"
definition DIST_EXTRA :: "nat list" where
  "DIST_EXTRA = [0,0,0,0,1,1,2,2,3,3,4,4,5,5,6,6,7,7,8,8,9,9,10,10,11,11,12,12,13,13]"

definition RING_SIZE :: nat where "RING_SIZE = 32768"
definition OUT_BUF_SIZE :: nat where "OUT_BUF_SIZE = 4096"

text \<open>The trait \<open>InflateOut\<close>.\<close>

record 'o inflate_out =
  push_byte :: "u8 \<Rightarrow> 'o \<Rightarrow> 'o"
  copy_backref :: "nat \<Rightarrow> nat \<Rightarrow> 'o \<Rightarrow> bool \<times> 'o"

definition vec_push :: "u8 \<Rightarrow> u8 list \<Rightarrow> u8 list" where
  "vec_push b out = out @ [b]"

fun vec_copy_loop :: "nat \<Rightarrow> nat \<Rightarrow> u8 list \<Rightarrow> u8 list" where
  "vec_copy_loop from 0 out = out"
| "vec_copy_loop from (Suc n) out = vec_copy_loop (from + 1) n (out @ [out ! from])"

definition vec_copy_backref :: "nat \<Rightarrow> nat \<Rightarrow> u8 list \<Rightarrow> bool \<times> u8 list" where
  "vec_copy_backref dist len out =
     (if dist = 0 \<or> length out < dist then (False, out)
      else (True, vec_copy_loop (length out - dist) len out))"

definition vec_sink :: "u8 list inflate_out" where
  "vec_sink = \<lparr>push_byte = vec_push, copy_backref = vec_copy_backref\<rparr>"

text \<open>\<open>written\<close> are the bytes that have been passed to \<open>write\<close>.\<close>

record stream_writer =
  ring :: "u8 list"
  total :: nat
  out_buf :: "u8 list"
  out_pos :: nat
  written :: "u8 list"

definition StreamWriter_new :: stream_writer where
  "StreamWriter_new = \<lparr>ring = replicate RING_SIZE 0, total = 0, out_buf = replicate OUT_BUF_SIZE 0, out_pos = 0, written = []\<rparr>"

definition flush :: "stream_writer \<Rightarrow> stream_writer" where
  "flush w = (if 0 < out_pos w then w\<lparr>written := written w @ take (out_pos w) (out_buf w), out_pos := 0\<rparr> else w)"

definition StreamWriter_finish :: "stream_writer \<Rightarrow> nat \<times> stream_writer" where
  "StreamWriter_finish w = (let w' = flush w in (total w', w'))"

definition stream_push :: "u8 \<Rightarrow> stream_writer \<Rightarrow> stream_writer" where
  "stream_push b w =
     (let w1 = w\<lparr>ring := (ring w)[total w AND (RING_SIZE - 1) := b], total := total w + 1,
                 out_buf := (out_buf w)[out_pos w := b], out_pos := out_pos w + 1\<rparr>
      in if out_pos w1 = OUT_BUF_SIZE then flush w1 else w1)"

fun stream_copy_loop :: "nat \<Rightarrow> nat \<Rightarrow> stream_writer \<Rightarrow> stream_writer" where
  "stream_copy_loop dist 0 w = w"
| "stream_copy_loop dist (Suc n) w =
     stream_copy_loop dist n (stream_push (ring w ! ((total w - dist) AND (RING_SIZE - 1))) w)"

definition stream_copy_backref :: "nat \<Rightarrow> nat \<Rightarrow> stream_writer \<Rightarrow> bool \<times> stream_writer" where
  "stream_copy_backref dist len w =
     (if dist = 0 \<or> total w < dist then (False, w) else (True, stream_copy_loop dist len w))"

definition stream_sink :: "stream_writer inflate_out" where
  "stream_sink = \<lparr>push_byte = stream_push, copy_backref = stream_copy_backref\<rparr>"

section \<open>Inflate\<close>

text \<open>The length and distance of a back-reference, after the length symbol \<open>257 + idx\<close>.\<close>

definition read_ref :: "nat \<Rightarrow> nodes \<Rightarrow> (bit_reader, nat \<times> nat) kmon" where
  "read_ref idx dist_tree =
     bindK (read_bits (LEN_EXTRA ! idx)) (\<lambda>le.
     bindK (decode dist_tree 0) (\<lambda>dist_sym.
       if 30 \<le> dist_sym then panicK out_of_bounds
       else bindK (read_bits (DIST_EXTRA ! dist_sym)) (\<lambda>de.
              retK (DIST_BASE ! dist_sym + unat de, LEN_BASE ! idx + unat le))))"

lemma decode_less: "decode ns i r = (res, r') \<Longrightarrow> bits_left r' \<le> bits_left r \<and> (\<forall>v. res = Ok v \<longrightarrow> bits_left r' < bits_left r)"
proof (induction ns i r rule: decode.induct)
  case (1 ns i r)
  obtain a r1 where r1: "read_bit r = (a, r1)" by fastforce
  have le: "bits_left r1 \<le> bits_left r \<and> (\<forall>b. a = Ok b \<longrightarrow> bits_left r1 < bits_left r)"
    using r1 by (auto simp: read_bit_def bits_left_def Let_def split: if_splits)
  show ?case
  proof (cases "\<exists>b. a = Ok b \<and> i < length ns \<and> 0 \<le> child ns i b")
    case True
    then obtain b where b: "a = Ok b" "i < length ns" "0 \<le> child ns i b" by blast
    then have "decode ns i r = decode ns (nat (child ns i b)) r1" using r1 by (subst decode.simps) simp
    then show ?thesis using "1.IH" [OF r1 [symmetric] b(1)] "1.prems" b le by auto
  next
    case False
    then show ?thesis using "1.prems" r1 le by (subst (asm) decode.simps) (auto split: rr.splits if_splits)
  qed
qed

lemma read_bits_loop_le: "read_bits_loop i k v r = (res, r') \<Longrightarrow> bits_left r' \<le> bits_left r"
proof (induction k arbitrary: i v r)
  case (Suc k)
  obtain a r1 where r1: "read_bit r = (a, r1)" by fastforce
  have "bits_left r1 \<le> bits_left r" using r1 by (auto simp: read_bit_def bits_left_def Let_def split: if_splits)
  then show ?case using Suc r1 by (cases a) (auto simp: bindK_def dest: order_trans)
qed simp

lemma read_bits_le: "read_bits n r = (res, r') \<Longrightarrow> bits_left r' \<le> bits_left r"
  by (simp add: read_bits_def read_bits_loop_le)

lemma bindK_le:
  assumes "bindK m f r = (res, r')"
    and "\<And>a r1. m r = (a, r1) \<Longrightarrow> bits_left r1 \<le> bits_left r"
    and "\<And>x r1. m r = (Ok x, r1) \<Longrightarrow> f x r1 = (res, r') \<Longrightarrow> bits_left r' \<le> bits_left r1"
  shows "bits_left r' \<le> bits_left r"
proof -
  obtain a r1 where r1: "m r = (a, r1)" by fastforce
  show ?thesis
  proof (cases a)
    case (Ok x)
    then have "f x r1 = (res, r')" using assms(1) r1 by (simp add: bindK_def)
    then show ?thesis using assms(2) [OF r1] assms(3) [of x r1] r1 Ok by (auto dest: order_trans)
  qed (use assms(1) assms(2) [OF r1] r1 in \<open>auto simp: bindK_def\<close>)
qed

lemma read_ref_le: "read_ref idx t r = (res, r') \<Longrightarrow> bits_left r' \<le> bits_left r"
  unfolding read_ref_def
  by (erule bindK_le, erule read_bits_le, erule bindK_le, metis decode_less,
      auto split: if_splits elim!: bindK_le dest: read_bits_le)

lemma decode_lessR: "(Ok s, r1) = decode t i r \<Longrightarrow> bits_left r1 < bits_left r"
  using decode_less [OF sym] by auto

lemma read_ref_leR: "(a, r2) = read_ref idx t r1 \<Longrightarrow> bits_left r2 \<le> bits_left r1"
  using read_ref_le [OF sym] .

text \<open>Symbols above 285 are skipped, as in the source.\<close>

function decode_block :: "'o inflate_out \<Rightarrow> nodes \<Rightarrow> nodes \<Rightarrow> bit_reader \<Rightarrow> 'o \<Rightarrow> unit rr \<times> bit_reader \<times> 'o" where
  "decode_block K lit_tree dist_tree r out =
     (case decode lit_tree 0 r of
        (Ok s, r1) \<Rightarrow>
          if s < 256 then decode_block K lit_tree dist_tree r1 (push_byte K (of_nat s) out)
          else if s = 256 then (Ok (), r1, out)
          else if s \<le> 285 then
            (case read_ref (s - 257) dist_tree r1 of
               (Ok (dist, len), r2) \<Rightarrow>
                 (case copy_backref K dist len out of
                    (True, out') \<Rightarrow> decode_block K lit_tree dist_tree r2 out'
                  | (False, out') \<Rightarrow> (Err none, r2, out'))
             | (Err e, r2) \<Rightarrow> (Err e, r2, out)
             | (Panic e, r2) \<Rightarrow> (Panic e, r2, out))
          else decode_block K lit_tree dist_tree r1 out
      | (Err e, r1) \<Rightarrow> (Err e, r1, out)
      | (Panic e, r1) \<Rightarrow> (Panic e, r1, out))"
  by pat_completeness auto
termination
  by (relation "measure (\<lambda>(K, l, d, r, out). bits_left r)")
    (auto dest!: decode_lessR read_ref_leR intro: le_less_trans)

declare decode_block.simps [simp del]

fun push_stored :: "'o inflate_out \<Rightarrow> nat \<Rightarrow> bit_reader \<Rightarrow> 'o \<Rightarrow> unit rr \<times> bit_reader \<times> 'o" where
  "push_stored K 0 r out = (Ok (), r, out)"
| "push_stored K (Suc n) r out =
     (case read_byte r of
        (Ok b, r1) \<Rightarrow> push_stored K n r1 (push_byte K b out)
      | (Err e, r1) \<Rightarrow> (Err e, r1, out)
      | (Panic e, r1) \<Rightarrow> (Panic e, r1, out))"

definition stored_length :: "(bit_reader, nat) kmon" where
  "stored_length =
     bindK read_u16_le (\<lambda>len. bindK read_u16_le (\<lambda>nlen. if len \<noteq> NOT nlen then errK none else retK (unat len)))"

definition stored_block :: "'o inflate_out \<Rightarrow> bit_reader \<Rightarrow> 'o \<Rightarrow> unit rr \<times> bit_reader \<times> 'o" where
  "stored_block K r out =
     (case stored_length (byte_align r) of
        (Ok len, r1) \<Rightarrow> push_stored K len r1 out
      | (Err e, r1) \<Rightarrow> (Err e, r1, out)
      | (Panic e, r1) \<Rightarrow> (Panic e, r1, out))"

definition coded_block :: "'o inflate_out \<Rightarrow> nat list \<Rightarrow> nat list \<Rightarrow> bit_reader \<Rightarrow> 'o \<Rightarrow> unit rr \<times> bit_reader \<times> 'o" where
  "coded_block K lit_lengths dist_lengths r out =
     (case build lit_lengths of
        Ok lit_tree \<Rightarrow>
          (case build dist_lengths of
             Ok dist_tree \<Rightarrow> decode_block K lit_tree dist_tree r out
           | Err e \<Rightarrow> (Err e, r, out)
           | Panic e \<Rightarrow> (Panic e, r, out))
      | Err e \<Rightarrow> (Err e, r, out)
      | Panic e \<Rightarrow> (Panic e, r, out))"

definition fixed_lit_lengths :: "nat list" where
  "fixed_lit_lengths = replicate 144 8 @ replicate 112 9 @ replicate 24 7 @ replicate 8 8"

definition fixed_dist_lengths :: "nat list" where
  "fixed_dist_lengths = replicate 32 5"

definition CL_ORDER :: "nat list" where
  "CL_ORDER = [16, 17, 18, 0, 8, 7, 9, 6, 10, 5, 11, 4, 12, 3, 13, 2, 14, 1, 15]"

fun read_cl_lengths :: "nat list \<Rightarrow> nat list \<Rightarrow> (bit_reader, nat list) kmon" where
  "read_cl_lengths [] cl = retK cl"
| "read_cl_lengths (i # is) cl = bindK (read_bits 3) (\<lambda>v. read_cl_lengths is (cl[i := unat v]))"

text \<open>The lengths that one symbol of the code-length alphabet stands for.\<close>

definition expand_symbol :: "nat \<Rightarrow> nat list \<Rightarrow> (bit_reader, nat list) kmon" where
  "expand_symbol s lengths =
     (if s < 16 then retK [s]
      else if s = 16 then bindK (read_bits 2) (\<lambda>v. retK (replicate (unat v + 3) (if lengths = [] then 0 else last lengths)))
      else if s = 17 then bindK (read_bits 3) (\<lambda>v. retK (replicate (unat v + 3) 0))
      else if s = 18 then bindK (read_bits 7) (\<lambda>v. retK (replicate (unat v + 11) 0))
      else retK [])"

lemma bit_steps_le:
  "read_bits n r = (a, r') \<Longrightarrow> bits_left r' \<le> bits_left r"
  "expand_symbol k ls r = (c, r') \<Longrightarrow> bits_left r' \<le> bits_left r"
  subgoal by (rule read_bits_le)
  subgoal unfolding expand_symbol_def by (auto split: if_splits elim!: bindK_le dest: read_bits_le)
  done

function read_lengths :: "nodes \<Rightarrow> nat \<Rightarrow> nat list \<Rightarrow> (bit_reader, nat list) kmon" where
  "read_lengths cl_tree n lengths r =
     (if n \<le> length lengths then (Ok lengths, r)
      else
        case decode cl_tree 0 r of
          (Ok s, r1) \<Rightarrow>
            (case expand_symbol s lengths r1 of
               (Ok new, r2) \<Rightarrow> read_lengths cl_tree n (lengths @ new) r2
             | (Err e, r2) \<Rightarrow> (Err e, r2)
             | (Panic e, r2) \<Rightarrow> (Panic e, r2))
        | (Err e, r1) \<Rightarrow> (Err e, r1)
        | (Panic e, r1) \<Rightarrow> (Panic e, r1))"
  by pat_completeness auto
termination
  by (relation "measure (\<lambda>(t, n, ls, r). bits_left r)")
    (auto dest!: decode_lessR bit_steps_le(2) [OF sym] intro: le_less_trans)

declare read_lengths.simps [simp del]

definition dynamic_lengths :: "(bit_reader, nat list \<times> nat list) kmon" where
  "dynamic_lengths =
     bindK (read_bits 5) (\<lambda>a. bindK (read_bits 5) (\<lambda>b. bindK (read_bits 4) (\<lambda>c.
       let hlit = unat a + 257; hdist = unat b + 1; hclen = unat c + 4 in
       bindK (read_cl_lengths (take hclen CL_ORDER) (replicate 19 0)) (\<lambda>cl.
         case build cl of
           Ok cl_tree \<Rightarrow>
             bindK (read_lengths cl_tree (hlit + hdist) []) (\<lambda>lengths.
               let d = take 32 (drop hlit lengths)
               in retK (take hlit lengths @ replicate (288 - hlit) 0, d @ replicate (32 - length d) 0))
         | Err e \<Rightarrow> errK e
         | Panic e \<Rightarrow> panicK e))))"

definition inflate_block :: "'o inflate_out \<Rightarrow> u16 \<Rightarrow> bit_reader \<Rightarrow> 'o \<Rightarrow> unit rr \<times> bit_reader \<times> 'o" where
  "inflate_block K btype r out =
     (if btype = 0 then stored_block K r out
      else if btype = 1 then coded_block K fixed_lit_lengths fixed_dist_lengths r out
      else if btype = 2 then
        (case dynamic_lengths r of
           (Ok (ll, dl), r1) \<Rightarrow> coded_block K ll dl r1 out
         | (Err e, r1) \<Rightarrow> (Err e, r1, out)
         | (Panic e, r1) \<Rightarrow> (Panic e, r1, out))
      else (Err none, r, out))"

lemma read_bit_aligned: "read_bit r = (Ok b, r') \<Longrightarrow> br_bit r' < 8"
  by (auto simp: read_bit_def Let_def split: if_splits)

lemma read_bits_loop_aligned: "read_bits_loop i k v r = (Ok w, r') \<Longrightarrow> br_bit r < 8 \<Longrightarrow> br_bit r' < 8"
  by (induction k arbitrary: i v r) (auto dest: read_bit_aligned)

lemma read_byte_le: "read_byte r = (a, r') \<Longrightarrow> bits_left r' \<le> bits_left r"
  unfolding read_byte_def
  by (auto simp: bits_left_def split: if_splits elim!: bindK_le [unfolded bits_left_def] dest!: read_bits_le [unfolded bits_left_def])

lemma read_u16_le_le: "read_u16_le r = (a, r') \<Longrightarrow> bits_left r' \<le> bits_left r"
  unfolding read_u16_le_def by (auto elim!: bindK_le dest!: read_byte_le)

lemma byte_align_le: "br_bit r < 8 \<Longrightarrow> bits_left (byte_align r) \<le> bits_left r"
  by (auto simp: byte_align_def bits_left_def)

lemma push_stored_le: "push_stored K n r out = (a, r', out') \<Longrightarrow> bits_left r' \<le> bits_left r"
proof (induction n arbitrary: r out)
  case (Suc n)
  obtain c r1 where r1: "read_byte r = (c, r1)" by fastforce
  then have "bits_left r1 \<le> bits_left r" by (rule read_byte_le)
  then show ?case using Suc r1 by (cases c) (auto dest: order_trans)
qed simp

lemma stored_block_le: "stored_block K r out = (a, r', out') \<Longrightarrow> br_bit r < 8 \<Longrightarrow> bits_left r' \<le> bits_left r"
proof -
  assume s: "stored_block K r out = (a, r', out')" and b: "br_bit r < 8"
  obtain c r1 where r1: "stored_length (byte_align r) = (c, r1)" by fastforce
  have "bits_left r1 \<le> bits_left (byte_align r)"
    using r1 unfolding stored_length_def by (auto elim!: bindK_le dest!: read_u16_le_le split: if_splits)
  then have "bits_left r1 \<le> bits_left r" using byte_align_le [OF b] by simp
  then show ?thesis using s r1 by (cases c) (auto simp: stored_block_def dest!: push_stored_le)
qed

lemma decode_block_le: "decode_block K l d r out = (a, r', out') \<Longrightarrow> bits_left r' \<le> bits_left r"
proof (induction K l d r out rule: decode_block.induct)
  case (1 K l d r out)
  obtain c r1 where r1: "decode l 0 r = (c, r1)" by fastforce
  have le: "bits_left r1 \<le> bits_left r" using decode_less [OF r1] by simp
  show ?case
  proof (cases c)
    case (Ok s)
    note IH = "1.IH"(1) [OF r1 [symmetric] Ok] "1.IH"(3) [OF r1 [symmetric] Ok]
    show ?thesis
    proof (cases "257 \<le> s \<and> s \<le> 285")
      case True
      obtain e r2 where r2: "read_ref (s - 257) d r1 = (e, r2)" by fastforce
      have le2: "bits_left r2 \<le> bits_left r" using read_ref_le [OF r2] le by simp
      show ?thesis
      proof (cases "\<exists>dist len out1. e = Ok (dist, len) \<and> copy_backref K dist len out = (True, out1)")
        case t: True
        then obtain dist len out1 where e: "e = Ok (dist, len)" "copy_backref K dist len out = (True, out1)" by blast
        have "bits_left r' \<le> bits_left r2"
          using "1.IH"(2) [OF r1 [symmetric] Ok _ _ _ r2 [symmetric] e(1) refl e(2) [symmetric] refl] "1.prems" True Ok r1 r2 e
          by (simp add: decode_block.simps [of K l d r out])
        then show ?thesis using le2 by simp
      next
        case f: False
        then show ?thesis using "1.prems" True Ok r1 r2 le2
          by (auto simp: decode_block.simps [of K l d r out] split: rr.splits prod.splits bool.splits)
      qed
    next
      case False
      then show ?thesis using "1.prems" IH Ok r1 le
        by (auto simp: decode_block.simps [of K l d r out] split: if_splits dest: order_trans)
    qed
  qed (use "1.prems" r1 le in \<open>auto simp: decode_block.simps [of K l d r out]\<close>)
qed

lemma coded_block_le: "coded_block K ll dl r out = (a, r', out') \<Longrightarrow> bits_left r' \<le> bits_left r"
  by (auto simp: coded_block_def dest!: decode_block_le split: rr.splits)

lemma read_cl_lengths_le: "read_cl_lengths is cl r = (a, r') \<Longrightarrow> bits_left r' \<le> bits_left r"
proof (induction "is" arbitrary: cl r)
  case (Cons i "is")
  show ?case by (rule bindK_le [OF Cons.prems [unfolded read_cl_lengths.simps]]) (auto dest: read_bits_le Cons.IH)
qed simp

lemma read_lengths_le: "read_lengths t n ls r = (a, r') \<Longrightarrow> bits_left r' \<le> bits_left r"
proof (induction t n ls r rule: read_lengths.induct)
  case (1 t n ls r)
  obtain c r1 where r1: "decode t 0 r = (c, r1)" by fastforce
  have le: "bits_left r1 \<le> bits_left r" using decode_less [OF r1] by simp
  show ?case
  proof (cases "n \<le> length ls \<or> (\<forall>s. c \<noteq> Ok s)")
    case True
    then show ?thesis using "1.prems" r1 le by (cases c) (auto simp: read_lengths.simps [of t n ls r] split: if_splits)
  next
    case False
    then obtain s where s: "c = Ok s" "\<not> n \<le> length ls" by blast
    obtain e r2 where r2: "expand_symbol s ls r1 = (e, r2)" by fastforce
    have le2: "bits_left r2 \<le> bits_left r" using bit_steps_le(2) [OF r2] le by simp
    show ?thesis
      using "1.prems" r1 r2 s le2 "1.IH" [OF s(2) r1 [symmetric] s(1) r2 [symmetric]]
      by (cases e) (auto simp: read_lengths.simps [of t n ls r])
  qed
qed

lemma dynamic_lengths_le: "dynamic_lengths r = (a, r') \<Longrightarrow> bits_left r' \<le> bits_left r"
  unfolding dynamic_lengths_def Let_def
  by (auto elim!: bindK_le dest!: read_bits_le read_cl_lengths_le read_lengths_le split: rr.splits)

lemma inflate_block_le:
  "inflate_block K t r out = (a, r', out') \<Longrightarrow> br_bit r < 8 \<Longrightarrow> bits_left r' \<le> bits_left r"
  unfolding inflate_block_def
  by (auto dest!: stored_block_le coded_block_le dynamic_lengths_le split: if_splits rr.splits prod.splits)

lemma inflate_step_less:
  assumes "(Ok b, r1) = read_bit r" "(Ok t, r2) = read_bits 2 r1" "(a, r3, out3) = inflate_block K t r2 out"
  shows "bits_left r3 < bits_left r"
proof -
  have "br_bit r1 < 8" using read_bit_aligned assms(1) by metis
  then have "br_bit r2 < 8" using read_bits_loop_aligned assms(2) unfolding read_bits_def by metis
  then have "bits_left r3 \<le> bits_left r2" using inflate_block_le [OF assms(3) [symmetric]] by simp
  also have "\<dots> \<le> bits_left r1" using read_bits_le [OF assms(2) [symmetric]] .
  also have "\<dots> < bits_left r" using read_bit_less [OF assms(1) [symmetric]] .
  finally show ?thesis .
qed

function inflate_loop :: "'o inflate_out \<Rightarrow> bit_reader \<Rightarrow> 'o \<Rightarrow> unit rr \<times> 'o" where
  "inflate_loop K r out =
     (case read_bit r of
        (Ok bfinal, r1) \<Rightarrow>
          (case read_bits 2 r1 of
             (Ok btype, r2) \<Rightarrow>
               (case inflate_block K btype r2 out of
                  (Ok u, r3, out') \<Rightarrow> if bfinal then (Ok (), out') else inflate_loop K r3 out'
                | (Err e, r3, out') \<Rightarrow> (Err e, out')
                | (Panic e, r3, out') \<Rightarrow> (Panic e, out'))
           | (Err e, r2) \<Rightarrow> (Err e, out)
           | (Panic e, r2) \<Rightarrow> (Panic e, out))
      | (Err e, r1) \<Rightarrow> (Err e, out)
      | (Panic e, r1) \<Rightarrow> (Panic e, out))"
  by pat_completeness auto
termination
  by (relation "measure (\<lambda>(K, r, out). bits_left r)") (auto intro: inflate_step_less)

declare inflate_loop.simps [simp del]

definition inflate_to :: "'o inflate_out \<Rightarrow> u8 list \<Rightarrow> 'o \<Rightarrow> unit rr \<times> 'o" where
  "inflate_to K bs out = inflate_loop K (BitReader_new bs) out"

section \<open>The gzip container\<close>

function skip_string :: "u8 list \<Rightarrow> nat \<Rightarrow> nat rr" where
  "skip_string bs pos =
     (if length bs \<le> pos then Panic out_of_bounds
      else if bs ! pos \<noteq> 0 then skip_string bs (pos + 1)
      else Ok (pos + 1))"
  by pat_completeness auto
termination by (relation "measure (\<lambda>(bs, pos). length bs - pos)") auto

declare skip_string.simps [simp del]

definition skip_gzip_header :: "u8 list \<Rightarrow> nat rr" where
  "skip_gzip_header bs =
     (if length bs < 18 then Err none
      else if bs ! 0 \<noteq> 0x1f \<or> bs ! 1 \<noteq> 0x8b \<or> bs ! 2 \<noteq> 8 then Err none
      else
        let flg = bs ! 3;
            p1 = (if flg AND 0x04 \<noteq> 0 then 12 + unat (ucast (bs ! 10) OR push_bit 8 (ucast (bs ! 11)) :: u16) else 10);
            p2 = (if flg AND 0x08 \<noteq> 0 then skip_string bs p1 else Ok p1);
            p3 = (case p2 of Ok p \<Rightarrow> if flg AND 0x10 \<noteq> 0 then skip_string bs p else Ok p | e \<Rightarrow> e)
        in case p3 of
             Ok p \<Rightarrow>
               let p4 = (if flg AND 0x02 \<noteq> 0 then p + 2 else p)
               in if length bs < p4 + 8 then Err none else Ok p4
           | e \<Rightarrow> e)"

definition gzip_body :: "u8 list \<Rightarrow> nat \<Rightarrow> u8 list" where
  "gzip_body bs pos = take (length bs - 8 - pos) (drop pos bs)"

definition gunzip :: "u8 list \<Rightarrow> u8 list rr" where
  "gunzip bs =
     (case skip_gzip_header bs of
        Ok pos \<Rightarrow>
          (case inflate_to vec_sink (gzip_body bs pos) [] of
             (Ok u, out) \<Rightarrow> Ok out
           | (Err e, out) \<Rightarrow> Err e
           | (Panic e, out) \<Rightarrow> Panic e)
      | Err e \<Rightarrow> Err e
      | Panic e \<Rightarrow> Panic e)"

text \<open>The number of bytes, and the writer with what has been written to the descriptor.\<close>

definition gunzip_to_fd :: "u8 list \<Rightarrow> (nat \<times> stream_writer) rr" where
  "gunzip_to_fd bs =
     (case skip_gzip_header bs of
        Ok pos \<Rightarrow>
          (case inflate_to stream_sink (gzip_body bs pos) StreamWriter_new of
             (Ok u, w) \<Rightarrow> Ok (StreamWriter_finish w)
           | (Err e, w) \<Rightarrow> Err e
           | (Panic e, w) \<Rightarrow> Panic e)
      | Err e \<Rightarrow> Err e
      | Panic e \<Rightarrow> Panic e)"

section \<open>Sinks that keep the last 32 KB give the same output\<close>

lemma read_bits_loop_high:
  "read_bits_loop i k v r = (Ok w, r') \<Longrightarrow> \<forall>j \<ge> i. \<not> bit v j \<Longrightarrow> \<forall>j \<ge> i + k. \<not> bit w j"
proof (induction k arbitrary: i v r)
  case (Suc k)
  then obtain b r1 where b: "read_bits_loop (i + 1) k (v OR push_bit i (of_bool b)) r1 = (Ok w, r')" by auto
  have "\<forall>j \<ge> i + 1. \<not> bit (v OR push_bit i (of_bool b)) j" using Suc.prems(2) by (auto simp: bit_simps)
  then show ?case using Suc.IH [OF b] by simp
qed simp

lemma unat_less_high: "\<forall>j \<ge> n. \<not> bit w j \<Longrightarrow> unat w < 2 ^ n" for w :: u16
proof -
  assume "\<forall>j \<ge> n. \<not> bit w j"
  then have "take_bit n w = w" by (intro bit_word_eqI) (auto simp: bit_take_bit_iff intro: leI)
  then show ?thesis by (metis take_bit_nat_less_exp unsigned_take_bit_eq)
qed

lemma read_bits_less: "read_bits n r = (Ok w, r') \<Longrightarrow> unat w < 2 ^ n"
  using read_bits_loop_high [of 0 n 0 r w r'] by (simp add: read_bits_def unat_less_high)

lemma dist_table: "d < 30 \<Longrightarrow> 1 \<le> DIST_BASE ! d \<and> DIST_BASE ! d + 2 ^ (DIST_EXTRA ! d) \<le> 32769 \<and> DIST_EXTRA ! d \<le> 13"
proof -
  assume "d < 30"
  then have "d \<in> set [0..<30]" by simp
  moreover have "list_all (\<lambda>d. 1 \<le> DIST_BASE ! d \<and> DIST_BASE ! d + 2 ^ (DIST_EXTRA ! d) \<le> 32769 \<and> DIST_EXTRA ! d \<le> 13) [0..<30]"
    by (simp add: DIST_BASE_def DIST_EXTRA_def upt_rec)
  ultimately show ?thesis by (simp only: list_all_iff)
qed

text \<open>The distance of a back-reference is between 1 and the size of the ring.\<close>

lemma read_ref_dist:
  assumes "read_ref idx t r = (Ok (dist, len), r')"
  shows "1 \<le> dist \<and> dist \<le> RING_SIZE"
proof -
  obtain d de r1 r2 where d: "d < 30" "read_bits (DIST_EXTRA ! d) r1 = (Ok de, r2)" "dist = DIST_BASE ! d + unat de"
    using assms that unfolding read_ref_def by (auto simp: not_le split: if_splits)
  then have "unat de < 2 ^ (DIST_EXTRA ! d)" using read_bits_less [OF d(2)] dist_table [OF d(1)] by simp
  then show ?thesis using dist_table [OF d(1)] d(3) by (simp add: RING_SIZE_def)
qed

lemma vec_sink_ops [simp]: "push_byte vec_sink = vec_push" "copy_backref vec_sink = vec_copy_backref"
  by (simp_all add: vec_sink_def)

text \<open>A sink whose \<open>view\<close> grows as a byte vector does, for distances that DEFLATE can name.\<close>

locale inflate_sink =
  fixes K :: "'o inflate_out" and view :: "'o \<Rightarrow> u8 list" and ok :: "'o \<Rightarrow> bool"
  assumes push_view: "ok out \<Longrightarrow> view (push_byte K b out) = view out @ [b]"
    and push_ok: "ok out \<Longrightarrow> ok (push_byte K b out)"
    and copy_view: "ok out \<Longrightarrow> 1 \<le> dist \<Longrightarrow> dist \<le> RING_SIZE \<Longrightarrow>
      vec_copy_backref dist len (view out) = map_prod id view (copy_backref K dist len out)"
    and copy_ok: "ok out \<Longrightarrow> 1 \<le> dist \<Longrightarrow> dist \<le> RING_SIZE \<Longrightarrow> ok (snd (copy_backref K dist len out))"
begin

lemma decode_block_view:
  assumes "decode_block K l d r out = (a, r', out')" "ok out"
  shows "ok out' \<and> decode_block vec_sink l d r (view out) = (a, r', view out')"
  using assms
proof (induction "bits_left r" arbitrary: r out rule: less_induct)
  case less
  obtain c r1 where r1: "decode l 0 r = (c, r1)" by fastforce
  note K = decode_block.simps [of K l d r] and V = decode_block.simps [of vec_sink l d r]
  show ?case
  proof (cases c)
    case (Ok s)
    have lt: "bits_left r1 < bits_left r" using decode_less [OF r1] Ok by simp
    show ?thesis
    proof (cases "257 \<le> s \<and> s \<le> 285")
      case True
      obtain e r2 where r2: "read_ref (s - 257) d r1 = (e, r2)" by fastforce
      have lt2: "bits_left r2 < bits_left r" using read_ref_le [OF r2] lt by simp
      show ?thesis
      proof (cases e)
        case e: (Ok dl)
        obtain dist len where dl: "dl = (dist, len)" by fastforce
        obtain f out1 where c: "copy_backref K dist len out = (f, out1)" by fastforce
        have dist: "1 \<le> dist" "dist \<le> RING_SIZE" using read_ref_dist r2 e dl by blast+
        have v: "vec_copy_backref dist len (view out) = (f, view out1)" and o: "ok out1"
          using copy_view [OF less.prems(2) dist, of len] copy_ok [OF less.prems(2) dist, of len] c by simp_all
        show ?thesis
        proof (cases f)
          case True': True
          have "decode_block K l d r out = decode_block K l d r2 out1"
            using True Ok r1 r2 e dl c True' by (simp add: K)
          moreover have "decode_block vec_sink l d r (view out) = decode_block vec_sink l d r2 (view out1)"
            using True Ok r1 r2 e dl v True' by (simp add: V)
          ultimately show ?thesis using less.hyps [OF lt2 _ o] less.prems(1) by simp
        next
          case False
          then show ?thesis using less.prems(1) True Ok r1 r2 e dl c v o by (simp add: K V)
        qed
      qed (use less.prems True Ok r1 r2 in \<open>simp_all add: K V\<close>)
    next
      case False
      show ?thesis
      proof (cases "s < 256")
        case True
        have o: "ok (push_byte K (of_nat s) out)" "view (push_byte K (of_nat s) out) = view out @ [of_nat s]"
          using push_ok push_view less.prems(2) by simp_all
        have "decode_block vec_sink l d r (view out) = decode_block vec_sink l d r1 (view out @ [of_nat s])"
          using True Ok r1 by (simp add: V vec_push_def)
        then show ?thesis
          using less.hyps [OF lt _ o(1)] less.prems(1) True Ok r1 o(2) by (simp add: K)
      next
        case False': False
        then show ?thesis using less.hyps [OF lt _ less.prems(2)] less.prems False Ok r1
          by (cases "s = 256") (simp_all add: K V)
      qed
    qed
  qed (use less.prems r1 in \<open>simp_all add: K V\<close>)
qed

lemma push_stored_view:
  "push_stored K n r out = (a, r', out') \<Longrightarrow> ok out \<Longrightarrow>
     ok out' \<and> push_stored vec_sink n r (view out) = (a, r', view out')"
proof (induction n arbitrary: r out)
  case (Suc n)
  obtain c r1 where r1: "read_byte r = (c, r1)" by fastforce
  show ?case
  proof (cases c)
    case (Ok b)
    then show ?thesis
      using Suc.IH [of r1 "push_byte K b out"] Suc.prems push_ok push_view r1 by (simp add: vec_push_def)
  qed (use Suc.prems r1 in auto)
qed simp

lemma inflate_block_view:
  assumes "inflate_block K t r out = (a, r', out')" "ok out"
  shows "ok out' \<and> inflate_block vec_sink t r (view out) = (a, r', view out')"
proof -
  have c: "ok o2 \<and> coded_block vec_sink ll dl r (view out) = (x, r2, view o2)"
    if "coded_block K ll dl r out = (x, r2, o2)" for ll dl r x r2 o2
    using that decode_block_view [OF _ assms(2)] assms(2) by (auto simp: coded_block_def split: rr.splits)
  have s: "ok o2 \<and> stored_block vec_sink r (view out) = (x, r2, view o2)"
    if "stored_block K r out = (x, r2, o2)" for r x r2 o2
    using that push_stored_view [OF _ assms(2)] assms(2) by (auto simp: stored_block_def split: rr.splits prod.splits)
  show ?thesis
    using assms c s unfolding inflate_block_def by (auto split: if_splits rr.splits prod.splits)
qed

lemma inflate_loop_view:
  assumes "inflate_loop K r out = (a, out')" "ok out"
  shows "ok out' \<and> inflate_loop vec_sink r (view out) = (a, view out')"
  using assms
proof (induction "bits_left r" arbitrary: r out rule: less_induct)
  case less
  note K = inflate_loop.simps [of K r] and V = inflate_loop.simps [of vec_sink r]
  obtain c r1 where r1: "read_bit r = (c, r1)" by fastforce
  show ?case
  proof (cases c)
    case b: (Ok b)
    obtain t r2 where r2: "read_bits 2 r1 = (t, r2)" by fastforce
    show ?thesis
    proof (cases t)
      case t: (Ok v)
      obtain e r3 out3 where e: "inflate_block K v r2 out = (e, r3, out3)" using prod_cases3 by blast
      note v = inflate_block_view [OF e less.prems(2)]
      have lt: "bits_left r3 < bits_left r"
        using inflate_step_less e r1 r2 b t by metis
      show ?thesis
      proof (cases "e = Ok () \<and> \<not> b")
        case True
        then show ?thesis using less.hyps [OF lt] less.prems(1) v e r1 r2 b t by (simp add: K V)
      next
        case False
        then show ?thesis using less.prems(1) v e r1 r2 b t by (cases e) (auto simp: K V)
      qed
    qed (use less.prems r1 r2 b in \<open>simp_all add: K V\<close>)
  qed (use less.prems r1 in \<open>simp_all add: K V\<close>)
qed

end

interpretation vec: inflate_sink vec_sink id "\<lambda>_. True"
  by unfold_locales (simp_all add: vec_push_def prod.map_id0)

section \<open>The streaming writer\<close>

definition sw_view :: "stream_writer \<Rightarrow> u8 list" where
  "sw_view w = written w @ take (out_pos w) (out_buf w)"

text \<open>The ring holds the last \<open>RING_SIZE\<close> bytes of the output.\<close>

definition sw_ok :: "stream_writer \<Rightarrow> bool" where
  "sw_ok w \<longleftrightarrow> length (ring w) = RING_SIZE \<and> length (out_buf w) = OUT_BUF_SIZE \<and> out_pos w < OUT_BUF_SIZE
     \<and> total w = length (sw_view w)
     \<and> (\<forall>i < total w. total w \<le> i + RING_SIZE \<longrightarrow> ring w ! (i mod RING_SIZE) = sw_view w ! i)"

lemma ring_index: "n AND (RING_SIZE - Suc 0) = n mod RING_SIZE"
proof -
  have "RING_SIZE - Suc 0 = mask 15" "RING_SIZE = 2 ^ 15" by (simp_all add: RING_SIZE_def mask_eq_exp_minus_1)
  then show ?thesis by (metis take_bit_eq_mask take_bit_eq_mod)
qed

lemma flush_view [simp]: "sw_view (flush w) = sw_view w"
  by (simp add: flush_def sw_view_def)

lemma flush_fields [simp]: "ring (flush w) = ring w" "total (flush w) = total w" "out_buf (flush w) = out_buf w"
  by (simp_all add: flush_def)

lemma take_Suc_update: "n < length xs \<Longrightarrow> take (Suc n) (xs[n := b]) = take n xs @ [b]"
  by (simp add: take_Suc_conv_app_nth)

lemma flush_pos: "out_pos (flush w) = 0"
  by (simp add: flush_def)

lemma stream_push_fields:
  assumes "sw_ok w"
  shows "sw_view (stream_push b w) = sw_view w @ [b]" "total (stream_push b w) = total w + 1"
    "ring (stream_push b w) = (ring w)[total w mod RING_SIZE := b]" "length (out_buf (stream_push b w)) = OUT_BUF_SIZE"
    "out_pos (stream_push b w) < OUT_BUF_SIZE"
proof -
  have w: "out_pos w < length (out_buf w)" "length (out_buf w) = OUT_BUF_SIZE" "0 < OUT_BUF_SIZE"
    using assms by (auto simp: sw_ok_def OUT_BUF_SIZE_def)
  show "total (stream_push b w) = total w + 1" "ring (stream_push b w) = (ring w)[total w mod RING_SIZE := b]"
    "length (out_buf (stream_push b w)) = OUT_BUF_SIZE"
    using w by (simp_all add: stream_push_def Let_def ring_index)
  show "sw_view (stream_push b w) = sw_view w @ [b]"
  proof -
    define w1 where "w1 = w\<lparr>ring := (ring w)[total w AND (RING_SIZE - 1) := b], total := total w + 1,
      out_buf := (out_buf w)[out_pos w := b], out_pos := out_pos w + 1\<rparr>"
    have "sw_view w1 = sw_view w @ [b]" using w by (simp add: w1_def sw_view_def take_Suc_update)
    moreover have "stream_push b w = (if out_pos w1 = OUT_BUF_SIZE then flush w1 else w1)"
      by (simp add: stream_push_def w1_def)
    ultimately show ?thesis by simp
  qed
  show "out_pos (stream_push b w) < OUT_BUF_SIZE"
    using w by (simp add: stream_push_def Let_def flush_pos)
qed

lemma mod_recent:
  assumes "i < n" "n < i + (m :: nat)"
  shows "i mod m \<noteq> n mod m"
proof
  assume "i mod m = n mod m"
  then have "m dvd n - i" using assms(1) by (metis mod_eq_dvd_iff_nat less_imp_le)
  then show False using assms by (auto dest: dvd_imp_le)
qed

lemma stream_push_ok:
  assumes "sw_ok w"
  shows "sw_ok (stream_push b w)"
proof -
  note f = stream_push_fields [OF assms]
  have w: "length (ring w) = RING_SIZE" "total w = length (sw_view w)"
    "\<And>i. i < total w \<Longrightarrow> total w \<le> i + RING_SIZE \<Longrightarrow> ring w ! (i mod RING_SIZE) = sw_view w ! i"
    using assms by (auto simp: sw_ok_def)
  have p: "0 < RING_SIZE" by (simp add: RING_SIZE_def)
  have "ring (stream_push b w) ! (i mod RING_SIZE) = sw_view (stream_push b w) ! i"
    if "i < total w + 1" "total w + 1 \<le> i + RING_SIZE" for i
  proof (cases "i = total w")
    case True
    then show ?thesis using w p by (simp add: f nth_append)
  next
    case False
    then have "i mod RING_SIZE \<noteq> total w mod RING_SIZE" using that by (intro mod_recent) auto
    then show ?thesis using w(2) w(3) [of i] that False by (simp add: f nth_append)
  qed
  then show ?thesis using w(1,2) f(4,5) unfolding sw_ok_def by (simp add: f)
qed

lemma stream_copy_loop_view:
  "sw_ok w \<Longrightarrow> 1 \<le> dist \<Longrightarrow> dist \<le> RING_SIZE \<Longrightarrow> dist \<le> total w \<Longrightarrow>
     sw_ok (stream_copy_loop dist n w) \<and>
     sw_view (stream_copy_loop dist n w) = vec_copy_loop (total w - dist) n (sw_view w)"
proof (induction n arbitrary: w)
  case (Suc n)
  have r: "ring w ! ((total w - dist) mod RING_SIZE) = sw_view w ! (total w - dist)"
    using Suc.prems unfolding sw_ok_def by auto
  define w1 where "w1 = stream_push (sw_view w ! (total w - dist)) w"
  have w1: "sw_ok w1" "total w1 = total w + 1" "sw_view w1 = sw_view w @ [sw_view w ! (total w - dist)]"
    using stream_push_ok [OF Suc.prems(1)] stream_push_fields [OF Suc.prems(1)] by (simp_all add: w1_def)
  have "stream_copy_loop dist (Suc n) w = stream_copy_loop dist n w1" by (simp add: ring_index r w1_def)
  then show ?case using Suc.IH [OF w1(1)] Suc.prems w1 by (simp add: Suc_diff_le)
qed simp

interpretation stream: inflate_sink stream_sink sw_view sw_ok
proof
  fix out dist len
  assume o: "sw_ok out" "1 \<le> dist" "dist \<le> RING_SIZE"
  have t: "total out = length (sw_view out)" using o(1) by (simp add: sw_ok_def)
  show "vec_copy_backref dist len (sw_view out) = map_prod id sw_view (copy_backref stream_sink dist len out)"
    "sw_ok (snd (copy_backref stream_sink dist len out))"
    using stream_copy_loop_view [OF o, of len] o t
    by (auto simp: stream_sink_def stream_copy_backref_def vec_copy_backref_def)
qed (simp_all add: stream_sink_def stream_push_fields stream_push_ok)

lemma StreamWriter_new_ok: "sw_ok StreamWriter_new" "sw_view StreamWriter_new = []"
  by (simp_all add: sw_ok_def sw_view_def StreamWriter_new_def OUT_BUF_SIZE_def)

section \<open>Stored blocks\<close>

text \<open>The encoding of a byte string as stored blocks (RFC 1951, section 3.2.4), one for each chunk.\<close>

definition stored_chunk :: "bool \<Rightarrow> u8 list \<Rightarrow> u8 list" where
  "stored_chunk final bs =
     (let n = of_nat (length bs) :: u16
      in [of_bool final, ucast n, ucast (drop_bit 8 n), ucast (NOT n), ucast (drop_bit 8 (NOT n))] @ bs)"

fun stored_stream :: "u8 list list \<Rightarrow> u8 list" where
  "stored_stream [] = []"
| "stored_stream [c] = stored_chunk True c"
| "stored_stream (c # cs) = stored_chunk False c @ stored_stream cs"

definition reader_at :: "u8 list \<Rightarrow> nat \<Rightarrow> bit_reader" where
  "reader_at bs p = \<lparr>br_data = bs, br_pos = p, br_bit = 0\<rparr>"

lemma drop_Cons: "drop p bs = b # rest \<Longrightarrow> p < length bs \<and> bs ! p = b \<and> drop (Suc p) bs = rest"
  by (metis drop_all leI list.distinct(1) list.sel(1,3) hd_drop_conv_nth tl_drop drop_Suc)

lemma drop_append_at: "drop p bs = xs @ ys \<Longrightarrow> drop (p + length xs) bs = ys"
  by (metis add.commute append_eq_conv_conj drop_drop)

lemma read_byte_at: "drop p bs = b # rest \<Longrightarrow> read_byte (reader_at bs p) = (Ok b, reader_at bs (Suc p))"
  by (drule drop_Cons) (simp add: read_byte_def reader_at_def)

lemma u16_halves: "ucast (ucast n :: u8) OR push_bit 8 (ucast (ucast (drop_bit 8 n) :: u8)) = n" for n :: u16
proof (rule bit_word_eqI)
  fix i assume "i < LENGTH(16)"
  then show "bit (ucast (ucast n :: u8) OR push_bit 8 (ucast (ucast (drop_bit 8 n) :: u8)) :: u16) i = bit n i"
    by (cases "i < 8") (auto simp: bit_simps)
qed

lemma read_u16_at:
  "drop p bs = ucast n # ucast (drop_bit 8 n) # rest \<Longrightarrow> read_u16_le (reader_at bs p) = (Ok n, reader_at bs (p + 2))"
proof -
  assume d: "drop p bs = ucast n # ucast (drop_bit 8 n) # rest"
  then have d2: "drop (Suc p) bs = ucast (drop_bit 8 n) # rest" by (simp add: drop_Cons)
  show ?thesis
    unfolding read_u16_le_def by (simp add: read_byte_at [OF d] read_byte_at [OF d2] u16_halves)
qed

lemma push_stored_at:
  "drop p bs = c @ rest \<Longrightarrow> push_stored vec_sink (length c) (reader_at bs p) out = (Ok (), reader_at bs (p + length c), out @ c)"
proof (induction c arbitrary: p out)
  case (Cons b c)
  then have "drop (Suc p) bs = c @ rest" by (simp add: drop_Cons)
  then show ?case using Cons.IH read_byte_at [of p bs b "c @ rest"] Cons.prems by (simp add: vec_push_def)
qed simp

lemma block_header_at:
  assumes "drop p bs = of_bool f # rest"
  shows "\<exists>r. read_bit (reader_at bs p) = (Ok f, r) \<and>
    (\<exists>r2. read_bits 2 r = (Ok 0, r2) \<and> byte_align r2 = reader_at bs (Suc p))"
proof -
  have "p < length bs" "bs ! p = of_bool f" using drop_Cons [OF assms] by simp_all
  then show ?thesis
    by (simp add: read_bit_def reader_at_def read_bits_def numeral_2_eq_2 bindK_def byte_align_def Let_def bit_simps)
qed

lemma stored_chunk_at:
  assumes "drop p bs = stored_chunk f c @ rest" "length c < 65536"
  shows "inflate_loop vec_sink (reader_at bs p) out =
    (if f then (Ok (), out @ c) else inflate_loop vec_sink (reader_at bs (p + length (stored_chunk f c))) (out @ c))"
proof -
  define n where "n = (of_nat (length c) :: u16)"
  have n: "unat n = length c" using assms(2) by (simp add: n_def unat_of_nat)
  have d: "drop p bs = of_bool f # ucast n # ucast (drop_bit 8 n) # ucast (NOT n) # ucast (drop_bit 8 (NOT n)) # c @ rest"
    using assms(1) by (simp add: stored_chunk_def n_def Let_def)
  have d1: "drop (Suc p) bs = ucast n # ucast (drop_bit 8 n) # ucast (NOT n) # ucast (drop_bit 8 (NOT n)) # c @ rest"
    using drop_Cons [OF d] by simp
  have d3: "drop (p + 3) bs = ucast (NOT n) # ucast (drop_bit 8 (NOT n)) # c @ rest"
    using arg_cong [OF d1, of "drop 2"] by (simp add: numeral_eq_Suc)
  have d5: "drop (p + 5) bs = c @ rest"
    using arg_cong [OF d1, of "drop 4"] by (simp add: numeral_eq_Suc)
  obtain r r2 where h: "read_bit (reader_at bs p) = (Ok f, r)" "read_bits 2 r = (Ok 0, r2)" "byte_align r2 = reader_at bs (Suc p)"
    using block_header_at [OF d] by blast
  have "stored_length (reader_at bs (Suc p)) = (Ok (length c), reader_at bs (p + 5))"
    unfolding stored_length_def using read_u16_at [OF d1] read_u16_at [OF d3] by (simp add: n numeral_eq_Suc)
  then have "inflate_block vec_sink 0 r2 out = (Ok (), reader_at bs (p + 5 + length c), out @ c)"
    using push_stored_at [OF d5] h(3) by (simp add: inflate_block_def stored_block_def)
  moreover have "length (stored_chunk g c) = 5 + length c" for g by (simp add: stored_chunk_def Let_def)
  ultimately show ?thesis
    by (subst inflate_loop.simps) (simp add: h add.assoc)
qed

lemma stored_stream_at:
  "drop p bs = stored_stream cs @ rest \<Longrightarrow> cs \<noteq> [] \<Longrightarrow> \<forall>c \<in> set cs. length c < 65536 \<Longrightarrow>
     inflate_loop vec_sink (reader_at bs p) out = (Ok (), out @ concat cs)"
proof (induction cs arbitrary: p out rule: stored_stream.induct)
  case (2 c)
  then show ?case using stored_chunk_at [of p bs True c rest out] by simp
next
  case (3 c c' cs)
  have d: "drop p bs = stored_chunk False c @ stored_stream (c' # cs) @ rest" using "3.prems"(1) by simp
  then have "drop (p + length (stored_chunk False c)) bs = stored_stream (c' # cs) @ rest"
    by (rule drop_append_at)
  then show ?case using stored_chunk_at [OF d] "3.IH" "3.prems" by simp
qed simp

section \<open>Codes\<close>

text \<open>Node indices grow along every edge.\<close>

definition tree_ok :: "nodes \<Rightarrow> bool" where
  "tree_ok ns \<longleftrightarrow> ns \<noteq> [] \<and> (\<forall>i < length ns. \<forall>b. 0 \<le> child ns i b \<longrightarrow> int i < child ns i b \<and> child ns i b < int (length ns))"

fun follow :: "nodes \<Rightarrow> u16 \<Rightarrow> nat \<Rightarrow> nat \<Rightarrow> nat option" where
  "follow ns c 0 i = Some i"
| "follow ns c (Suc b) i =
     (if child ns i (bit c b) < 0 then None else follow ns c b (nat (child ns i (bit c b))))"

lemma child_set_child:
  "i < length ns \<Longrightarrow> child (set_child i b v ns) j b' = (if j = i \<and> b' = b then v else child ns j b')"
  by (auto simp: child_def set_child_def nth_list_update)

lemma child_append: "i < length ns \<Longrightarrow> child (ns @ ms) i b = child ns i b"
  by (simp add: child_def nth_append)

lemma tree_okD: "tree_ok ns \<Longrightarrow> i < length ns \<Longrightarrow> 0 \<le> child ns i b \<Longrightarrow> i < nat (child ns i b) \<and> nat (child ns i b) < length ns"
  by (force simp: tree_ok_def)

lemma length_set_child [simp]: "length (set_child i b v ns) = length ns"
  by (simp add: set_child_def)

lemma tree_ok_grow:
  assumes "tree_ok ns" "i < length ns"
  shows "tree_ok (set_child i b (int (length ns)) (ns @ [(- 1, - 1)]))"
proof -
  define ms where "ms = set_child i b (int (length ns)) (ns @ [(- 1, - 1)])"
  have l: "length ms = length ns + 1" by (simp add: ms_def)
  have c: "child ms k d = (if k = i \<and> d = b then int (length ns) else child (ns @ [(- 1, - 1)]) k d)" for k d
    using assms(2) by (simp add: ms_def child_set_child)
  have "int k < child ms k d \<and> child ms k d < int (length ms)" if "k < length ms" "0 \<le> child ms k d" for k d
  proof (cases "k < length ns")
    case True
    show ?thesis
    proof (cases "k = i \<and> d = b")
      case False
      then have "child ms k d = child ns k d" unfolding c by (simp only: if_False child_append [OF True])
      then show ?thesis using assms(1) True that(2) l by (force simp: tree_ok_def)
    qed (use assms(2) l in \<open>simp add: c\<close>)
  next
    case False
    then have "k = length ns" using that(1) l by simp
    moreover have "child (ns @ [(- 1, - 1)]) (length ns) d = - 1" by (simp add: child_def)
    ultimately have "child ms k d = - 1" using assms(2) unfolding c by simp
    then show ?thesis using that(2) by simp
  qed
  then have "tree_ok ms" using l by (auto simp: tree_ok_def)
  then show ?thesis by (simp add: ms_def)
qed

lemma walk_code_props:
  "walk_code c b i ns = (j, ns') \<Longrightarrow> tree_ok ns \<Longrightarrow> i < length ns \<Longrightarrow>
     tree_ok ns' \<and> j < length ns' \<and> length ns \<le> length ns' \<and> follow ns' c b i = Some j
     \<and> (\<forall>k < length ns. \<forall>d. 0 \<le> child ns k d \<longrightarrow> child ns' k d = child ns k d)"
proof (induction b arbitrary: i ns)
  case (Suc b)
  show ?case
  proof (cases "child ns i (bit c b) < 0")
    case True
    define ns1 where "ns1 = set_child i (bit c b) (int (length ns)) (ns @ [(- 1, - 1)])"
    have l: "length ns1 = length ns + 1" by (simp add: ns1_def set_child_def)
    have t: "tree_ok ns1" unfolding ns1_def by (rule tree_ok_grow [OF Suc.prems(2,3)])
    have w: "walk_code c b (length ns) ns1 = (j, ns')" using Suc.prems(1) True by (simp add: ns1_def)
    note IH = Suc.IH [OF w t]
    have "child ns1 i (bit c b) = int (length ns)"
      using Suc.prems(3) by (simp add: ns1_def child_set_child)
    then have "child ns' i (bit c b) = int (length ns)" using IH l Suc.prems(3) by auto
    moreover have "child ns1 k d = child ns k d" if "k < length ns" "0 \<le> child ns k d" for k d
    proof -
      have "\<not> (k = i \<and> d = bit c b)"
      proof
        assume "k = i \<and> d = bit c b"
        then have "child ns k d = child ns i (bit c b)" by (simp only:)
        then show False using that(2) True by simp
      qed
      moreover have "i < length (ns @ [(- 1, - 1)])" using Suc.prems(3) by simp
      ultimately show ?thesis
        unfolding ns1_def by (simp only: child_set_child if_False child_append [OF that(1)])
    qed
    ultimately show ?thesis using IH l by auto
  next
    case False
    then have n: "nat (child ns i (bit c b)) < length ns" using tree_okD [OF Suc.prems(2,3)] by simp
    have "walk_code c b (nat (child ns i (bit c b))) ns = (j, ns')" using Suc.prems(1) False by simp
    note IH = Suc.IH [OF this Suc.prems(2) n]
    then have "child ns' i (bit c b) = child ns i (bit c b)" using Suc.prems(3) False by auto
    then show ?thesis using IH False by simp
  qed
qed simp

lemma child_update_other: "i \<noteq> j \<Longrightarrow> child (ns[j := x]) i b = child ns i b"
  by (simp add: child_def)

lemma follow_update:
  "follow ns c b i = Some j \<Longrightarrow> tree_ok ns \<Longrightarrow> i < length ns \<Longrightarrow>
     follow (ns[j := x]) c b i = Some j \<and> i \<le> j"
proof (induction b arbitrary: i)
  case (Suc b)
  then have n: "\<not> child ns i (bit c b) < 0" "follow ns c b (nat (child ns i (bit c b))) = Some j"
    by (auto split: if_splits)
  have k: "i < nat (child ns i (bit c b))" "nat (child ns i (bit c b)) < length ns"
    using tree_okD [OF Suc.prems(2,3)] n(1) by simp_all
  note IH = Suc.IH [OF n(2) Suc.prems(2) k(2)]
  then have "i < j" using k by simp
  then show ?case using IH n(1) by (simp add: child_update_other)
qed simp

fun take_bits :: "nat \<Rightarrow> (bit_reader, bool list) kmon" where
  "take_bits 0 = retK []"
| "take_bits (Suc n) = bindK read_bit (\<lambda>b. bindK (take_bits n) (\<lambda>bs. retK (b # bs)))"

text \<open>The bits of a code in the order in which the stream has them.\<close>

definition code_bits :: "u16 \<Rightarrow> nat \<Rightarrow> bool list" where
  "code_bits c len = map (bit c) (rev [0..<len])"

lemma code_bits_Suc: "code_bits c (Suc b) = bit c b # code_bits c b"
  by (simp add: code_bits_def)

lemma decode_follow:
  "follow ns c b i = Some j \<Longrightarrow> tree_ok ns \<Longrightarrow> i < length ns \<Longrightarrow> \<forall>d. child ns j d = - (int symbol + 1) \<Longrightarrow>
     take_bits (b + 1) r = (Ok (code_bits c b @ [e]), r') \<Longrightarrow> decode ns i r = (Ok symbol, r')"
proof (induction b arbitrary: i r)
  case 0
  then show ?case by (subst decode.simps) (auto simp: code_bits_def)
next
  case (Suc b)
  have n: "\<not> child ns i (bit c b) < 0" "follow ns c b (nat (child ns i (bit c b))) = Some j"
    using Suc.prems(1) by (auto split: if_splits)
  have k: "nat (child ns i (bit c b)) < length ns" using tree_okD [OF Suc.prems(2,3)] n(1) by simp
  obtain r1 where r1: "read_bit r = (Ok (bit c b), r1)" "take_bits (b + 1) r1 = (Ok (code_bits c b @ [e]), r')"
    using Suc.prems(5) by (auto simp: code_bits_Suc)
  show ?case using Suc.IH [OF n(2) Suc.prems(2) k Suc.prems(4) r1(2)] r1(1) n(1) Suc.prems(3)
    by (subst decode.simps) simp
qed

section \<open>Properties\<close>

text \<open>C11: Decompressing to a descriptor writes exactly the bytes that decompressing to memory returns, and
  reports their number; it fails and panics on the same inputs.  The 32 KB ring and the 4 KB output
  buffer stand for the whole output.\<close>

theorem gunzip_to_fd_equiv:
  "map_rr (\<lambda>(n, w). (n, written w)) (gunzip_to_fd bs) = map_rr (\<lambda>out. (length out, out)) (gunzip bs)"
proof (cases "skip_gzip_header bs")
  case (Ok pos)
  obtain a w where w: "inflate_to stream_sink (gzip_body bs pos) StreamWriter_new = (a, w)" by fastforce
  then have v: "sw_ok w" "inflate_to vec_sink (gzip_body bs pos) [] = (a, sw_view w)"
    using stream.inflate_loop_view [of "BitReader_new (gzip_body bs pos)" StreamWriter_new a w] StreamWriter_new_ok
    by (simp_all add: inflate_to_def)
  have "written (flush w) = sw_view w" by (simp add: flush_def sw_view_def)
  then show ?thesis using Ok w v by (cases a) (simp_all add: gunzip_def gunzip_to_fd_def StreamWriter_finish_def sw_ok_def)
qed (simp_all add: gunzip_def gunzip_to_fd_def)

text \<open>C33: What is stored comes back: a stream of stored blocks of at most 65535 bytes inflates to the
  concatenation of the blocks, whatever follows the last one.\<close>

theorem stored_round_trip:
  assumes "cs \<noteq> []" "\<forall>c \<in> set cs. length c < 65536"
  shows "inflate_to vec_sink (stored_stream cs @ rest) [] = (Ok (), concat cs)"
  using stored_stream_at [of 0 "stored_stream cs @ rest" cs rest "[]"] assms
  by (simp add: inflate_to_def BitReader_new_def reader_at_def)

theorem stored_round_trip_witness:
  "inflate_to vec_sink (stored_stream [[1, 2], [3]] @ [9]) [] = (Ok (), [1, 2, 3])"
  using stored_round_trip [of "[[1, 2], [3]]" "[9]"] by simp

text \<open>The decoder takes one bit too many: a leaf of the tree holds its symbol in both of its children, so
  that decoding a code word of \<open>len\<close> bits reads a further bit, which belongs to the next code word.\<close>

theorem decode_takes_extra_bit:
  assumes "tree_ok ns" "take_bits (len + 1) r = (Ok (code_bits c len @ [e]), r')"
  shows "decode (add_symbol symbol len c ns) 0 r = (Ok symbol, r')"
proof -
  obtain j ns' where w: "walk_code c len 0 ns = (j, ns')" by fastforce
  have z: "0 < length ns" using assms(1) by (simp add: tree_ok_def)
  note p = walk_code_props [OF w assms(1) z]
  let ?leaf = "(- (int symbol + 1), - (int symbol + 1))"
  have t: "tree_ok (ns'[j := ?leaf])"
    using p unfolding tree_ok_def by (auto simp: child_def nth_list_update split: if_splits)
  have f: "follow (ns'[j := ?leaf]) c len 0 = Some j" using follow_update p z by fastforce
  have d: "\<forall>d. child (ns'[j := ?leaf]) j d = - (int symbol + 1)" using p by (simp add: child_def)
  have l: "0 < length (ns'[j := ?leaf])" using p z by (metis length_list_update less_le_trans)
  have "decode (ns'[j := ?leaf]) 0 r = (Ok symbol, r')"
    by (rule decode_follow [OF f t l d assms(2)])
  then show ?thesis by (simp add: add_symbol_def w)
qed

theorem decode_takes_extra_bit_witness:
  "decode (add_symbol 7 2 2 [(- 1, - 1)]) 0 (BitReader_new [5])
     = (Ok 7, \<lparr>br_data = [5], br_pos = 0, br_bit = 3\<rparr>)"
proof -
  have t: "tree_ok [(- 1, - 1)]" by (simp add: tree_ok_def child_def)
  have r: "take_bits (2 + 1) (BitReader_new [5]) = (Ok (code_bits 2 2 @ [True]), \<lparr>br_data = [5], br_pos = 0, br_bit = 3\<rparr>)"
  proof -
    have b: "bit (5 :: u8) 0" "\<not> bit (5 :: u8) 1" "bit (5 :: u8) 2" "bit (2 :: u16) 1" "\<not> bit (2 :: u16) 0"
      by (simp_all add: bit_iff_odd)
    have n: "(2 :: nat) + 1 = Suc (Suc (Suc 0))" "code_bits 2 2 = [True, False]"
      using b by (simp_all add: code_bits_def upt_rec)
    show ?thesis unfolding n using b by (simp add: BitReader_new_def read_bit_def bindK_def)
  qed
  show ?thesis by (rule decode_takes_extra_bit [OF t r])
qed

end
