(* ===== verification/Dns.thy ===== *)
theory Dns
  imports Bytes
begin

text \<open>Name resolution in the package manager, \<open>user/pkg/src/dns.rs\<close>: the query packet, names with compression
  pointers, and the search of a response for an address.  \<open>parse_dns_name\<close> follows pointers by recursion
  without a bound; it is a \<open>partial_function\<close>, whose value \<open>None\<close> is a call that does not return.  Sockets are
  not modelled: a response is the list of bytes received.\<close>

section \<open>Encoding\<close>

definition sockaddr_in :: "u8 list \<Rightarrow> u16 \<Rightarrow> u8 list" where
  "sockaddr_in ip port = [2, 0, ucast (drop_bit 8 port), ucast (port AND 0xff), ip ! 0, ip ! 1, ip ! 2, ip ! 3] @ replicate 8 0"

definition DOT :: u8 where "DOT = 46"

definition encode_labels :: "u8 list list \<Rightarrow> u8 list" where
  "encode_labels ls = concat (map (\<lambda>l. of_nat (length l) # l) ls) @ [0]"

definition encode_dns_name :: "u8 list \<Rightarrow> u8 list" where
  "encode_dns_name name = encode_labels (split_on DOT name)"

definition build_dns_query :: "u8 list \<Rightarrow> u8 list" where
  "build_dns_query name =
     [0x00, 0x01, 0x01, 0x00, 0x00, 0x01, 0x00, 0x00, 0x00, 0x00, 0x00, 0x00] @ encode_dns_name name
       @ [0x00, 0x01, 0x00, 0x01]"

section \<open>Decoding\<close>

definition push_dot :: "u8 list \<Rightarrow> u8 list" where
  "push_dot name = (if name \<noteq> [] then name @ [DOT] else name)"

text \<open>The loop, with the name read so far.  The inner value is the \<open>Option\<close> of the source, with the final
  position.\<close>

partial_function (option) parse_labels :: "u8 list \<Rightarrow> nat \<Rightarrow> u8 list \<Rightarrow> (u8 list \<times> nat) option option" where
  "parse_labels pkt pos name =
     (if length pkt \<le> pos then Some None
      else if pkt ! pos = 0 then Some (Some (name, pos + 1))
      else if pkt ! pos AND 0xc0 = 0xc0 then
        if length pkt \<le> pos + 1 then Some None
        else
          Option.bind (parse_labels pkt (256 * unat (pkt ! pos AND 0x3f) + unat (pkt ! (pos + 1))) [])
            (\<lambda>r. Some (map_option (\<lambda>(suffix, _). (push_dot name @ suffix, pos + 2)) r))
      else if length pkt < pos + 1 + unat (pkt ! pos) then Some None
      else parse_labels pkt (pos + 1 + unat (pkt ! pos)) (push_dot name @ take (unat (pkt ! pos)) (drop (pos + 1) pkt)))"

definition parse_dns_name :: "u8 list \<Rightarrow> nat \<Rightarrow> (u8 list \<times> nat) option option" where
  "parse_dns_name pkt pos = parse_labels pkt pos []"

definition parse_ip :: "u8 list \<Rightarrow> nat \<Rightarrow> nat \<Rightarrow> (u8 list \<times> nat) option" where
  "parse_ip pkt pos rdlength =
     (if rdlength \<noteq> 4 \<or> length pkt < pos + 4 then None
      else Some ([pkt ! pos, pkt ! (pos + 1), pkt ! (pos + 2), pkt ! (pos + 3)], pos + rdlength))"

definition be16 :: "u8 list \<Rightarrow> nat \<Rightarrow> nat" where
  "be16 pkt i = 256 * unat (pkt ! i) + unat (pkt ! (i + 1))"

fun skip_questions :: "u8 list \<Rightarrow> nat \<Rightarrow> nat \<Rightarrow> nat option option" where
  "skip_questions pkt 0 pos = Some (Some pos)"
| "skip_questions pkt (Suc n) pos =
     (case parse_dns_name pkt pos of
        None \<Rightarrow> None
      | Some None \<Rightarrow> Some None
      | Some (Some (_, p)) \<Rightarrow> skip_questions pkt n (p + 4))"

fun find_answer :: "u8 list \<Rightarrow> nat \<Rightarrow> nat \<Rightarrow> u8 list option option" where
  "find_answer pkt 0 pos = Some None"
| "find_answer pkt (Suc n) pos =
     (case parse_dns_name pkt pos of
        None \<Rightarrow> None
      | Some None \<Rightarrow> Some None
      | Some (Some (_, p)) \<Rightarrow>
          if length pkt < p + 10 then Some None
          else if be16 pkt p = 1 then
            (case parse_ip pkt (p + 10) (be16 pkt (p + 8)) of
               Some (ip, _) \<Rightarrow> Some (Some ip)
             | None \<Rightarrow> find_answer pkt n (p + 10))
          else find_answer pkt n (p + 10 + be16 pkt (p + 8)))"

text \<open>What \<open>resolve_hostname\<close> does with the bytes it received.\<close>

definition parse_response :: "u8 list \<Rightarrow> u8 list option option" where
  "parse_response response =
     (if length response < 2 then Some None
      else if length response < be16 response 0 + 2 then Some None
      else
        let pkt = take (be16 response 0) (drop 2 response) in
        if length pkt < 12 then Some None
        else if pkt ! 3 AND 0x0f \<noteq> 0 then Some None
        else if be16 pkt 6 = 0 then Some None
        else
          case skip_questions pkt (be16 pkt 4) 12 of
            None \<Rightarrow> None
          | Some None \<Rightarrow> Some None
          | Some (Some pos) \<Rightarrow> find_answer pkt (be16 pkt 6) pos)"

section \<open>Names come back\<close>

fun join :: "u8 list list \<Rightarrow> u8 list" where
  "join [] = []"
| "join [l] = l"
| "join (l # ls) = l @ [DOT] @ join ls"

lemma join_split: "join (split_on DOT name) = name"
proof (induction name)
  case (Cons x xs)
  obtain h t where h: "split_on DOT xs = h # t" using split_on_ne by (metis list.exhaust)
  then show ?case using Cons by (cases t) auto
qed simp

definition plain_label :: "u8 list \<Rightarrow> bool" where
  "plain_label l \<longleftrightarrow> 0 < length l \<and> length l < 64"

lemma label_length:
  assumes "plain_label l"
  shows "of_nat (length l) \<noteq> (0 :: u8)" "(of_nat (length l) :: u8) AND 0xc0 \<noteq> 0xc0" "unat (of_nat (length l) :: u8) = length l"
proof -
  show u: "unat (of_nat (length l) :: u8) = length l" using assms by (simp add: plain_label_def unat_of_nat)
  then show "of_nat (length l) \<noteq> (0 :: u8)" using assms by (metis plain_label_def less_irrefl unat_0)
  have "bit (unat (of_nat (length l) :: u8)) 7 = bit (of_nat (length l) :: u8) 7" by (simp add: bit_unsigned_iff)
  moreover have "\<not> bit (length l) 7" using assms by (simp add: plain_label_def bit_iff_odd)
  ultimately have "\<not> bit (of_nat (length l) :: u8) 7" using u by metis
  moreover have "bit (0xc0 :: u8) 7" by (simp add: bit_iff_odd)
  ultimately show "(of_nat (length l) :: u8) AND 0xc0 \<noteq> 0xc0" by (metis bit_and_iff)
qed

lemma parse_labels_step:
  assumes "drop pos pkt = of_nat (length l) # l @ rest" "plain_label l"
  shows "parse_labels pkt pos name = parse_labels pkt (pos + 1 + length l) (push_dot name @ l)"
    "drop (pos + 1 + length l) pkt = rest"
proof -
  have p: "pos < length pkt" using assms(1) by (metis drop_all leI list.distinct(1))
  then have n: "pkt ! pos = of_nat (length l)" "drop (pos + 1) pkt = l @ rest"
    using assms(1) by (simp_all add: Cons_nth_drop_Suc [symmetric])
  then have t: "take (length l) (drop (pos + 1) pkt) = l" by simp
  have len: "pos + 1 + length l \<le> length pkt"
    using arg_cong [OF n(2), of length] p by simp
  note ll = label_length [OF assms(2)]
  show "parse_labels pkt pos name = parse_labels pkt (pos + 1 + length l) (push_dot name @ l)"
    using p n ll len t by (subst parse_labels.simps) (simp del: drop_append take_append)
  show "drop (pos + 1 + length l) pkt = rest"
    using n(2) by (metis add.commute append_eq_conv_conj drop_drop)
qed

lemma parse_labels_end:
  "drop pos pkt = 0 # rest \<Longrightarrow> parse_labels pkt pos name = Some (Some (name, pos + 1))"
proof -
  assume d: "drop pos pkt = 0 # rest"
  then have p: "pos < length pkt" by (metis drop_all leI list.distinct(1))
  then have "pkt ! pos = 0" using d by (simp add: Cons_nth_drop_Suc [symmetric])
  then show ?thesis using p by (subst parse_labels.simps) simp
qed

lemma push_dot_join: "l \<noteq> [] \<Longrightarrow> push_dot (push_dot name @ l) @ join (l' # ls) = push_dot name @ join (l # l' # ls)"
  by (simp add: push_dot_def)

lemma parse_labels_encoded:
  "drop pos pkt = encode_labels ls @ rest \<Longrightarrow> \<forall>l \<in> set ls. plain_label l \<Longrightarrow> ls \<noteq> [] \<Longrightarrow>
     parse_labels pkt pos name = Some (Some (push_dot name @ join ls, pos + length (encode_labels ls)))"
proof (induction ls arbitrary: pos name)
  case (Cons l ls)
  have d: "drop pos pkt = of_nat (length l) # l @ encode_labels ls @ rest"
    using Cons.prems(1) by (simp add: encode_labels_def)
  have pl: "plain_label l" "l \<noteq> []" using Cons.prems(2) by (auto simp: plain_label_def)
  note st = parse_labels_step [OF d pl(1)]
  have len: "length (encode_labels (l # ls)) = 1 + length l + length (encode_labels ls)" by (simp add: encode_labels_def)
  show ?case
  proof (cases ls)
    case Nil
    have "drop (pos + 1 + length l) pkt = 0 # rest" using st(2) Nil by (simp add: encode_labels_def)
    then show ?thesis using st(1) parse_labels_end Nil len by (simp add: encode_labels_def)
  next
    case (Cons l' ls')
    then have "parse_labels pkt (pos + 1 + length l) (push_dot name @ l) =
        Some (Some (push_dot (push_dot name @ l) @ join ls, pos + 1 + length l + length (encode_labels ls)))"
      using Cons.IH [OF st(2)] Cons.prems(2) by simp
    then show ?thesis using st(1) push_dot_join [OF pl(2)] Cons len by (simp add: add.assoc)
  qed
qed simp

lemma parse_encoded_name:
  assumes "list_all plain_label (split_on DOT name)"
  shows "parse_dns_name (pre @ encode_dns_name name @ rest) (length pre)
    = Some (Some (name, length pre + length (encode_dns_name name)))"
proof -
  have "drop (length pre) (pre @ encode_dns_name name @ rest) = encode_labels (split_on DOT name) @ rest"
    by (simp add: encode_dns_name_def)
  from parse_labels_encoded [OF this, of "[]"] show ?thesis
    using assms split_on_ne [of DOT name] by (simp add: parse_dns_name_def push_dot_def join_split encode_dns_name_def list_all_iff)
qed

section \<open>Properties\<close>

text \<open>C34: A name that is written into a packet is read back from it: for labels of 1 to 63 bytes,
  \<open>parse_dns_name\<close> returns the name that \<open>encode_dns_name\<close> encoded, and stops right behind it.\<close>

theorem dns_name_round_trip:
  assumes "list_all plain_label (split_on DOT name)"
  shows "parse_dns_name (pre @ encode_dns_name name @ rest) (length pre)
    = Some (Some (name, length pre + length (encode_dns_name name)))"
  using assms by (rule parse_encoded_name)

text \<open>A compression pointer that points at itself makes the resolver recurse for ever: there is no check
  that pointers go backwards.\<close>

theorem dns_pointer_loop_diverges:
  assumes "pos + 1 < length pkt" "pkt ! pos AND 0xc0 = 0xc0"
    and "256 * unat (pkt ! pos AND 0x3f) + unat (pkt ! (pos + 1)) = pos"
  shows "parse_dns_name pkt pos = None"
proof -
  have "\<not> (pos' = pos \<and> pkt' = pkt)" if "parse_labels pkt' pos' name = Some r" for pkt' pos' name r
    by (rule parse_labels.raw_induct [OF _ that, where P = "\<lambda>pkt' pos' name r. \<not> (pos' = pos \<and> pkt' = pkt)"])
      (use assms in \<open>auto split: if_splits bind_splits\<close>)
  then show ?thesis unfolding parse_dns_name_def by (metis not_None_eq)
qed

text \<open>C35: The answer to a query is found: in a well-formed response with one question, one answer that refers
  back to the question's name, type A and a body of four bytes, the resolver returns these four bytes.\<close>

theorem resolve_finds_address:
  assumes "list_all plain_label (split_on DOT name)"
    and "pkt = [i1, i2, f1, f2, 0, 1, 0, 1, n1, n2, n3, n4] @ encode_dns_name name @ [0, 1, 0, 1]
        @ [0xc0, 12, 0, 1, 0, 1, t1, t2, t3, t4, 0, 4, a, b, c, d]"
    and "f2 AND 0x0f = 0" "length pkt < 65536"
  shows "parse_response ([of_nat (length pkt div 256), of_nat (length pkt mod 256)] @ pkt) = Some (Some [a, b, c, d])"
proof -
  let ?hdr = "[i1, i2, f1, f2, 0, 1, 0, 1, n1, n2, n3, n4]" and ?e = "length (encode_dns_name name)"
  let ?ans = "[0xc0, 12, 0, 1, 0, 1, t1, t2, t3, t4, 0, 4, a, b, c, d]"
  have l12: "length ?hdr = 12" by simp
  have q: "parse_dns_name pkt 12 = Some (Some (name, 12 + ?e))"
    using parse_encoded_name [OF assms(1), of ?hdr "[0, 1, 0, 1] @ ?ans", unfolded l12] assms(2) by (simp only:)
  have at: "pkt ! (12 + ?e + 4 + k) = ?ans ! k" if "k < 16" for k
    using that unfolding assms(2) by (simp add: nth_append)
  have len: "length pkt = 12 + ?e + 4 + 16" unfolding assms(2) by simp
  have p: "pkt ! (16 + ?e) = 0xc0" "pkt ! (17 + ?e) = 12" using at [of 0] at [of 1] by (simp_all add: add_ac)
  have a: "parse_dns_name pkt (16 + ?e) = Some (Some (name, 18 + ?e))"
    unfolding parse_dns_name_def
    by (subst parse_labels.simps) (use p len q in \<open>simp add: parse_dns_name_def push_dot_def\<close>)
  have f: "be16 pkt (18 + ?e) = 1" "be16 pkt (26 + ?e) = 4"
  proof -
    have "pkt ! (18 + ?e) = 0" "pkt ! (18 + ?e + 1) = 1" "pkt ! (26 + ?e) = 0" "pkt ! (26 + ?e + 1) = 4"
      using at [of 2] at [of 3] at [of 10] at [of 11] by (simp_all add: add_ac)
    then show "be16 pkt (18 + ?e) = 1" "be16 pkt (26 + ?e) = 4" unfolding be16_def by simp_all
  qed
  have ip: "parse_ip pkt (28 + ?e) 4 = Some ([a, b, c, d], 32 + ?e)"
    using at [of 12] at [of 13] at [of 14] at [of 15] len by (simp add: parse_ip_def add_ac)
  have h: "be16 pkt 4 = 1" "be16 pkt 6 = 1" "pkt ! 3 = f2" "12 \<le> length pkt"
    unfolding assms(2) by (simp_all add: be16_def)
  define resp where "resp = [of_nat (length pkt div 256), of_nat (length pkt mod 256)] @ pkt"
  have l: "be16 resp 0 = length pkt" "length resp = length pkt + 2" "take (length pkt) (drop 2 resp) = pkt"
    using assms(4) by (simp_all add: resp_def be16_def unat_of_nat)
  have s: "skip_questions pkt (be16 pkt 4) 12 = Some (Some (16 + ?e))" using q by (simp add: h)
  have r: "find_answer pkt (be16 pkt 6) (16 + ?e) = Some (Some [a, b, c, d])"
    using a f ip len by (simp add: h add_ac)
  have "parse_response resp = Some (Some [a, b, c, d])"
    unfolding parse_response_def Let_def l using h(2,3,4) assms(3) s r by simp
  then show ?thesis by (simp only: resp_def)
qed

section \<open>Witnesses\<close>

theorem dns_name_round_trip_witness:
  "parse_dns_name ([7] @ encode_dns_name [97, 46, 98, 99] @ [9]) 1 = Some (Some ([97, 46, 98, 99], 7))"
  using dns_name_round_trip [of "[97, 46, 98, 99]" "[7]" "[9]"]
  by (simp add: DOT_def plain_label_def encode_dns_name_def encode_labels_def)

theorem dns_pointer_loop_diverges_witness: "parse_dns_name [0xc0, 0] 0 = None"
  by (rule dns_pointer_loop_diverges) simp_all

theorem resolve_finds_address_witness:
  "parse_response ([0, 37] @ [0, 1, 0x81, 0x80, 0, 1, 0, 1, 0, 0, 0, 0] @ encode_dns_name [97, 46, 98] @ [0, 1, 0, 1]
     @ [0xc0, 12, 0, 1, 0, 1, 0, 0, 0, 60, 0, 4, 10, 0, 2, 2]) = Some (Some [10, 0, 2, 2])"
proof -
  have e: "encode_dns_name [97, 46, 98] = [1, 97, 1, 98, 0]" by (simp add: encode_dns_name_def encode_labels_def DOT_def)
  show ?thesis
    using resolve_finds_address [OF _ refl, of "[97, 46, 98]" "0x80" 0 1 "0x81" 0 0 0 0 0 0 0 60 10 0 2 2]
    by (simp add: DOT_def plain_label_def e)
qed

end
