(* ===== verification/Trace.thy ===== *)
theory Trace
  imports Bytes Errno
begin

text \<open>Trace points (\<open>trace.rs\<close>): programs that users load into the kernel, the virtual machine that runs
  them, and the ring buffer of records.  The virtual machine reads its context through the memory \<open>m\<close>
  of the kernel, so that what a program can learn is a statement about \<open>m\<close>; the cycle counter is a
  function of the number of instructions executed.\<close>

section \<open>The virtual machine\<close>

definition NUM_TP :: nat where "NUM_TP = 5"
definition MAX_INSNS :: nat where "MAX_INSNS = 512"
definition MAX_PROG_ID :: nat where "MAX_PROG_ID = 16"
definition RING_SIZE :: nat where "RING_SIZE = 8192"

definition BPF_ALU64_IMM_MOV :: u8 where "BPF_ALU64_IMM_MOV = 0xb7"
definition BPF_ALU64_IMM_ADD :: u8 where "BPF_ALU64_IMM_ADD = 0x07"
definition BPF_ALU64_IMM_OR :: u8 where "BPF_ALU64_IMM_OR = 0x47"
definition BPF_ALU64_IMM_AND :: u8 where "BPF_ALU64_IMM_AND = 0x57"
definition BPF_ALU64_IMM_XOR :: u8 where "BPF_ALU64_IMM_XOR = 0xa7"
definition BPF_ALU64_IMM_LSH :: u8 where "BPF_ALU64_IMM_LSH = 0x67"
definition BPF_ALU64_IMM_RSH :: u8 where "BPF_ALU64_IMM_RSH = 0x77"
definition BPF_ALU64_REG_MOV :: u8 where "BPF_ALU64_REG_MOV = 0xbf"
definition BPF_ALU64_REG_ADD :: u8 where "BPF_ALU64_REG_ADD = 0x0f"
definition BPF_ALU64_REG_SUB :: u8 where "BPF_ALU64_REG_SUB = 0x1f"
definition BPF_ALU64_REG_AND :: u8 where "BPF_ALU64_REG_AND = 0x5f"
definition BPF_ALU64_REG_OR :: u8 where "BPF_ALU64_REG_OR = 0x4f"
definition BPF_ALU64_REG_XOR :: u8 where "BPF_ALU64_REG_XOR = 0xaf"
definition BPF_LDX_DW :: u8 where "BPF_LDX_DW = 0x79"
definition BPF_JA :: u8 where "BPF_JA = 0x05"
definition BPF_JEQ_IMM :: u8 where "BPF_JEQ_IMM = 0x15"
definition BPF_JNE_IMM :: u8 where "BPF_JNE_IMM = 0x55"
definition BPF_JGT_IMM :: u8 where "BPF_JGT_IMM = 0x25"
definition BPF_JGE_IMM :: u8 where "BPF_JGE_IMM = 0x35"
definition BPF_JLT_IMM :: u8 where "BPF_JLT_IMM = 0xa5"
definition BPF_JLE_IMM :: u8 where "BPF_JLE_IMM = 0xb5"
definition BPF_JEQ_REG :: u8 where "BPF_JEQ_REG = 0x1d"
definition BPF_JNE_REG :: u8 where "BPF_JNE_REG = 0x5d"
definition BPF_JGT_REG :: u8 where "BPF_JGT_REG = 0x2d"
definition BPF_JGE_REG :: u8 where "BPF_JGE_REG = 0x3d"
definition BPF_CALL :: u8 where "BPF_CALL = 0x85"
definition BPF_EXIT :: u8 where "BPF_EXIT = 0x95"

lemmas opcode_defs =
  BPF_ALU64_IMM_MOV_def BPF_ALU64_IMM_ADD_def BPF_ALU64_IMM_OR_def BPF_ALU64_IMM_AND_def
  BPF_ALU64_IMM_XOR_def BPF_ALU64_IMM_LSH_def BPF_ALU64_IMM_RSH_def BPF_ALU64_REG_MOV_def
  BPF_ALU64_REG_ADD_def BPF_ALU64_REG_SUB_def BPF_ALU64_REG_AND_def BPF_ALU64_REG_OR_def
  BPF_ALU64_REG_XOR_def BPF_LDX_DW_def BPF_JA_def BPF_JEQ_IMM_def BPF_JNE_IMM_def BPF_JGT_IMM_def
  BPF_JGE_IMM_def BPF_JLT_IMM_def BPF_JLE_IMM_def BPF_JEQ_REG_def BPF_JNE_REG_def BPF_JGT_REG_def
  BPF_JGE_REG_def BPF_CALL_def BPF_EXIT_def

text \<open>The context of an event: eight words, 64 bytes in memory.\<close>

record trace_ctx =
  tp_id :: u64
  ctx_pid :: u64
  ts :: u64
  arg0 :: u64
  arg1 :: u64
  arg2 :: u64
  arg3 :: u64
  retval :: u64

definition CTX_SIZE :: nat where "CTX_SIZE = 64"

text \<open>What the machine runs in: the address of the context, the memory, the running process and the
  cycle counter.\<close>

record vm_env =
  ctx_ptr :: usize
  kmem :: "usize \<Rightarrow> u8"
  running :: pid
  clock :: "nat \<Rightarrow> u64"

record vm =
  regs :: "u64 list"
  pc :: int
  executed :: nat

datatype vm_next = Next vm | Return u64 | Abort string

definition read_u64 :: "(usize \<Rightarrow> u8) \<Rightarrow> usize \<Rightarrow> u64" where
  "read_u64 m a =
     ucast (le32 (m a) (m (a + 1)) (m (a + 2)) (m (a + 3))) OR
     push_bit 32 (ucast (le32 (m (a + 4)) (m (a + 5)) (m (a + 6)) (m (a + 7))))"

text \<open>The fields of an instruction.\<close>

definition insn_op :: "u64 \<Rightarrow> u8" where "insn_op insn = ucast insn"
definition insn_dst :: "u64 \<Rightarrow> nat" where "insn_dst insn = min (unat (drop_bit 8 insn AND 0xF)) 9"
definition insn_src :: "u64 \<Rightarrow> nat" where "insn_src insn = min (unat (drop_bit 12 insn AND 0xF)) 9"
definition insn_off :: "u64 \<Rightarrow> int" where "insn_off insn = sint (ucast (drop_bit 16 insn) :: u16)"
definition insn_imm :: "u64 \<Rightarrow> u32" where "insn_imm insn = ucast (drop_bit 32 insn)"
definition imm64 :: "u64 \<Rightarrow> u64" where "imm64 insn = word_of_int (sint (insn_imm insn))"

lemmas insn_defs = insn_op_def insn_dst_def insn_src_def insn_off_def insn_imm_def imm64_def

text \<open>The instructions that compute: the new value of the destination register from its old one, the
  source register and the instruction.\<close>

definition alu :: "u64 \<Rightarrow> u64 \<Rightarrow> u64 \<Rightarrow> u64 option" where
  "alu insn d s =
     (let op = insn_op insn in
      if op = BPF_ALU64_IMM_MOV then Some (imm64 insn)
      else if op = BPF_ALU64_IMM_ADD then Some (d + imm64 insn)
      else if op = BPF_ALU64_IMM_OR then Some (d OR imm64 insn)
      else if op = BPF_ALU64_IMM_AND then Some (d AND imm64 insn)
      else if op = BPF_ALU64_IMM_XOR then Some (d XOR imm64 insn)
      else if op = BPF_ALU64_IMM_LSH then Some (push_bit (unat (insn_imm insn) mod 64) d)
      else if op = BPF_ALU64_IMM_RSH then Some (drop_bit (unat (insn_imm insn) mod 64) d)
      else if op = BPF_ALU64_REG_MOV then Some s
      else if op = BPF_ALU64_REG_ADD then Some (d + s)
      else if op = BPF_ALU64_REG_SUB then Some (d - s)
      else if op = BPF_ALU64_REG_AND then Some (d AND s)
      else if op = BPF_ALU64_REG_OR then Some (d OR s)
      else if op = BPF_ALU64_REG_XOR then Some (d XOR s)
      else None)"

text \<open>The jumps: whether the jump is taken.\<close>

definition jmp_if :: "u64 \<Rightarrow> u64 \<Rightarrow> u64 \<Rightarrow> bool option" where
  "jmp_if insn d s =
     (let op = insn_op insn in
      if op = BPF_JA then Some True
      else if op = BPF_JEQ_IMM then Some (d = imm64 insn)
      else if op = BPF_JNE_IMM then Some (d \<noteq> imm64 insn)
      else if op = BPF_JGT_IMM then Some (imm64 insn < d)
      else if op = BPF_JGE_IMM then Some (imm64 insn \<le> d)
      else if op = BPF_JLT_IMM then Some (d < imm64 insn)
      else if op = BPF_JLE_IMM then Some (d \<le> imm64 insn)
      else if op = BPF_JEQ_REG then Some (d = s)
      else if op = BPF_JNE_REG then Some (d \<noteq> s)
      else if op = BPF_JGT_REG then Some (s < d)
      else if op = BPF_JGE_REG then Some (s \<le> d)
      else None)"

text \<open>The load: the value, nothing if the address is outside the context, or the panic of \<open>addr + 8\<close>.\<close>

definition load :: "vm_env \<Rightarrow> u64 \<Rightarrow> u64 \<Rightarrow> u64 option rr" where
  "load env insn s =
     (let addr = s + word_of_int (insn_off insn); base = ctx_ptr env in
      if \<not> base \<le> addr then Ok None
      else if 2 ^ 64 \<le> unat addr + 8 \<or> 2 ^ 64 \<le> unat base + CTX_SIZE then Panic overflow
      else if addr + 8 \<le> base + of_nat CTX_SIZE then Ok (Some (read_u64 (kmem env) addr))
      else Ok None)"

definition helper_call :: "vm_env \<Rightarrow> nat \<Rightarrow> u32 \<Rightarrow> u64" where
  "helper_call env n imm = (if imm = 1 then word_of_int (running env) else if imm = 2 then clock env n else 0)"

text \<open>One instruction, on the values of its two registers.\<close>

definition vm_step_insn :: "vm_env \<Rightarrow> u64 \<Rightarrow> u64 \<Rightarrow> u64 \<Rightarrow> vm \<Rightarrow> vm_next" where
  "vm_step_insn env insn d s v =
     (let v1 = v\<lparr>executed := Suc (executed v)\<rparr>; next = v1\<lparr>pc := pc v + 1\<rparr>; op = insn_op insn in
      case alu insn d s of
        Some x \<Rightarrow> Next (next\<lparr>regs := (regs v)[insn_dst insn := x]\<rparr>)
      | None \<Rightarrow>
          (case jmp_if insn d s of
             Some taken \<Rightarrow> Next (if taken then v1\<lparr>pc := pc v + (insn_off insn + 1)\<rparr> else next)
           | None \<Rightarrow>
               if op = BPF_LDX_DW then
                 (case load env insn s of
                    Ok (Some x) \<Rightarrow> Next (next\<lparr>regs := (regs v)[insn_dst insn := x]\<rparr>)
                  | Ok None \<Rightarrow> Next next
                  | Err e \<Rightarrow> Abort e
                  | Panic e \<Rightarrow> Abort e)
               else if op = BPF_CALL then
                 Next (next\<lparr>regs := (regs v)[0 := helper_call env (executed v) (insn_imm insn)]\<rparr>)
               else if op = BPF_EXIT then Return (regs v ! 0)
               else Next next))"

text \<open>One turn of the loop.\<close>

definition vm_step :: "vm_env \<Rightarrow> u64 list \<Rightarrow> vm \<Rightarrow> vm_next" where
  "vm_step env prog v =
     (if \<not> (0 \<le> pc v \<and> pc v < int (min (length prog) MAX_INSNS)) then Return (regs v ! 0)
      else let insn = prog ! nat (pc v)
           in vm_step_insn env insn (regs v ! insn_dst insn) (regs v ! insn_src insn) v)"

text \<open>The loop ends when a turn returns or panics; \<open>None\<close> is a loop that never does.\<close>

partial_function (option) vm_loop :: "(vm \<Rightarrow> vm_next) \<Rightarrow> vm \<Rightarrow> u64 rr option" where
  "vm_loop step v =
     (case step v of Next v1 \<Rightarrow> vm_loop step v1 | Return r \<Rightarrow> Some (Ok r) | Abort e \<Rightarrow> Some (Panic e))"

definition vm_init :: "vm_env \<Rightarrow> vm" where
  "vm_init env = \<lparr>regs = (replicate 11 0)[1 := ctx_ptr env], pc = 0, executed = 0\<rparr>"

definition vm_run :: "vm_env \<Rightarrow> u64 list \<Rightarrow> u64 rr option" where
  "vm_run env prog = vm_loop (vm_step env prog) (vm_init env)"

declare vm_loop.simps [simp del]

section \<open>Programs, trace points and the ring\<close>

record trace_state =
  programs :: "u64 list option list"
  attachments :: "nat list list"
  ring_buf :: "u8 list"
  ring_pos :: usize
  ring_written :: usize

definition TRACE :: trace_state where
  "TRACE = \<lparr>programs = replicate MAX_PROG_ID None, attachments = replicate NUM_TP [],
            ring_buf = replicate RING_SIZE 0, ring_pos = 0, ring_written = 0\<rparr>"

definition le64_bytes :: "u64 \<Rightarrow> u8 list" where
  "le64_bytes w = le32_bytes (ucast w) @ le32_bytes (ucast (drop_bit 32 w))"

definition ctx_bytes :: "trace_ctx \<Rightarrow> u8 list" where
  "ctx_bytes c = concat (map le64_bytes [tp_id c, ctx_pid c, ts c, arg0 c, arg1 c, arg2 c, arg3 c, retval c])"

definition ring_put :: "u8 \<Rightarrow> trace_state \<Rightarrow> trace_state" where
  "ring_put b st =
     st\<lparr>ring_buf := (ring_buf st)[unat (ring_pos st) mod RING_SIZE := b], ring_pos := ring_pos st + 1\<rparr>"

definition ring_push :: "trace_ctx \<Rightarrow> trace_state \<Rightarrow> trace_state" where
  "ring_push c st =
     (let rec = ctx_bytes c; st1 = fold ring_put (le32_bytes (of_nat (length rec)) @ rec) st
      in st1\<lparr>ring_written := ring_written st1 + of_nat (4 + length rec)\<rparr>)"

text \<open>The programs of a trace point run one after the other, each in an environment of its own.\<close>

fun run_programs :: "(nat \<Rightarrow> vm_env) \<Rightarrow> trace_ctx \<Rightarrow> nat \<Rightarrow> u64 list list \<Rightarrow> trace_state \<Rightarrow> (unit rr \<times> trace_state) option" where
  "run_programs env c n [] st = Some (Ok (), st)"
| "run_programs env c n (p # ps) st =
     (case vm_run (env n) p of
        None \<Rightarrow> None
      | Some (Ok r) \<Rightarrow> run_programs env c (Suc n) ps (if r = 1 then ring_push c st else st)
      | Some (Err e) \<Rightarrow> Some (Err e, st)
      | Some (Panic e) \<Rightarrow> Some (Panic e, st))"

definition attached :: "nat \<Rightarrow> trace_state \<Rightarrow> u64 list list" where
  "attached tp st =
     List.map_filter (\<lambda>id. if id < length (programs st) then programs st ! id else None) (attachments st ! tp)"

definition fire :: "(nat \<Rightarrow> vm_env) \<Rightarrow> u32 \<Rightarrow> trace_ctx \<Rightarrow> trace_state \<Rightarrow> (unit rr \<times> trace_state) option" where
  "fire env tp c st =
     (if NUM_TP \<le> unat tp then Some (Ok (), st) else run_programs env c 0 (attached (unat tp) st) st)"

section \<open>System calls\<close>

text \<open>The calls access the buffers of the caller through its address space \<open>m\<close>, without a check.\<close>

definition first_free :: "trace_state \<Rightarrow> nat option" where
  "first_free st = List.find (\<lambda>id. programs st ! id = None) [0..<MAX_PROG_ID]"

definition sys_trace_load :: "(usize \<Rightarrow> u8) \<Rightarrow> usize \<Rightarrow> usize \<Rightarrow> trace_state \<Rightarrow> usize \<times> trace_state" where
  "sys_trace_load m prog_ptr n st =
     (if n = 0 \<or> of_nat MAX_INSNS < n then (EINVAL, st)
      else
        let prog = map (\<lambda>i. read_u64 m (prog_ptr + of_nat (8 * i))) [0..<unat n] in
        case first_free st of
          Some i \<Rightarrow> (of_nat i, st\<lparr>programs := (programs st)[i := Some prog]\<rparr>)
        | None \<Rightarrow> (ENOMEM, st))"

definition sys_trace_attach :: "usize \<Rightarrow> usize \<Rightarrow> trace_state \<Rightarrow> usize \<times> trace_state" where
  "sys_trace_attach tp prog_id st =
     (if of_nat NUM_TP \<le> tp \<or> of_nat MAX_PROG_ID \<le> prog_id then (EINVAL, st)
      else if programs st ! unat prog_id = None then (ENOENT, st)
      else
        let att = attachments st ! unat tp in
        (0, if unat prog_id \<in> set att then st
            else st\<lparr>attachments := (attachments st)[unat tp := att @ [unat prog_id]]\<rparr>))"

definition store_bytes :: "usize \<Rightarrow> u8 list \<Rightarrow> (usize \<Rightarrow> u8) \<Rightarrow> usize \<Rightarrow> u8" where
  "store_bytes a bs m = (\<lambda>x. if unat (x - a) < length bs then bs ! unat (x - a) else m x)"

definition ring_tail :: "nat \<Rightarrow> trace_state \<Rightarrow> u8 list" where
  "ring_tail avail st =
     (let src_start = unat (ring_pos st - of_nat avail) mod RING_SIZE in
      if src_start + avail \<le> RING_SIZE then slice src_start avail (ring_buf st)
      else let first = RING_SIZE - src_start
           in drop src_start (ring_buf st) @ take (avail - first) (ring_buf st))"

definition sys_trace_read :: "usize \<Rightarrow> usize \<Rightarrow> trace_state \<Rightarrow> (usize \<Rightarrow> u8) \<Rightarrow> usize \<times> (usize \<Rightarrow> u8)" where
  "sys_trace_read buf_ptr buf_len st m =
     (if buf_len = 0 then (0, m)
      else let avail = min (unat buf_len) RING_SIZE
           in (of_nat avail, store_bytes buf_ptr (ring_tail avail st) m))"

section \<open>The ring holds the last bytes written\<close>

text \<open>The bytes ever written, after a ring of zeros: position \<open>j\<close> of this sequence is in slot \<open>j mod RING_SIZE\<close>
  until the ring comes round to it.\<close>

definition padded :: "u8 list \<Rightarrow> u8 list" where
  "padded log = replicate RING_SIZE 0 @ log"

definition ring_log :: "u8 list \<Rightarrow> trace_state \<Rightarrow> bool" where
  "ring_log log st \<longleftrightarrow>
     length (ring_buf st) = RING_SIZE \<and> ring_pos st = of_nat (length log) \<and>
     (\<forall>j. length log \<le> j \<longrightarrow> j < length log + RING_SIZE \<longrightarrow> ring_buf st ! (j mod RING_SIZE) = padded log ! j)"

definition trace_record :: "trace_ctx \<Rightarrow> u8 list" where
  "trace_record c = le32_bytes 64 @ ctx_bytes c"

lemma length_padded [simp]: "length (padded log) = RING_SIZE + length log"
  by (simp add: padded_def)

lemma padded_snoc: "padded (log @ [b]) = padded log @ [b]"
  by (simp add: padded_def)

lemma RING_SIZE_pos [simp]: "0 < RING_SIZE"
  by (simp add: RING_SIZE_def)

lemma unat_mod_ring: "unat (of_nat n :: usize) mod RING_SIZE = n mod RING_SIZE"
  by (simp add: unat_of_nat RING_SIZE_def mod_mod_cancel)

lemma unat_add_ring: "unat (x + of_nat RING_SIZE :: usize) mod RING_SIZE = unat x mod RING_SIZE"
  by (simp add: unat_word_ariths RING_SIZE_def mod_mod_cancel)

lemma ring_log_TRACE: "ring_log [] TRACE"
  by (simp add: ring_log_def TRACE_def padded_def)

lemma slots_apart: "a < j \<Longrightarrow> j < a + n \<Longrightarrow> j mod n \<noteq> a mod (n::nat)"
  by (auto simp: mod_eq_dvd_iff_nat dest: dvd_imp_le)

lemma ring_log_put:
  assumes "ring_log log st"
  shows "ring_log (log @ [b]) (ring_put b st)"
proof -
  let ?slot = "length log mod RING_SIZE"
  have slot: "unat (ring_pos st) mod RING_SIZE = ?slot" and len: "length (ring_buf st) = RING_SIZE"
    using assms by (simp_all add: ring_log_def unat_mod_ring)
  have "(ring_buf st)[?slot := b] ! (j mod RING_SIZE) = padded (log @ [b]) ! j"
    if "Suc (length log) \<le> j" "j < Suc (length log) + RING_SIZE" for j
  proof (cases "j = length log + RING_SIZE")
    case True
    then show ?thesis using len by (simp add: padded_snoc nth_append)
  next
    case False
    then have "ring_buf st ! (j mod RING_SIZE) = padded log ! j" "j mod RING_SIZE \<noteq> ?slot"
      using that assms slots_apart [of "length log" j RING_SIZE] by (auto simp: ring_log_def)
    then show ?thesis using that False by (simp add: padded_snoc nth_append)
  qed
  then show ?thesis using assms slot len by (simp add: ring_log_def ring_put_def)
qed

lemma ring_log_puts: "ring_log log st \<Longrightarrow> ring_log (log @ bs) (fold ring_put bs st)"
proof (induction bs arbitrary: log st)
  case (Cons b bs)
  show ?case using Cons.IH [OF ring_log_put [OF Cons.prems]] by simp
qed simp

lemma length_ctx_bytes [simp]: "length (ctx_bytes c) = 64"
  by (simp add: ctx_bytes_def le64_bytes_def)

lemma ring_log_push:
  assumes "ring_log log st"
  shows "ring_log (log @ trace_record c) (ring_push c st)"
  using ring_log_puts [OF assms, of "trace_record c"]
  by (simp add: ring_push_def trace_record_def ring_log_def Let_def)

lemma ring_log_pushes: "ring_log log st \<Longrightarrow> ring_log (log @ concat (map trace_record cs)) (fold ring_push cs st)"
proof (induction cs arbitrary: log st)
  case (Cons c cs)
  show ?case using Cons.IH [OF ring_log_push [OF Cons.prems]] by simp
qed simp

lemma ring_tail_log:
  assumes log: "ring_log log st" and n: "n \<le> RING_SIZE"
  shows "ring_tail n st = drop (length log + RING_SIZE - n) (padded log)"
proof -
  let ?k = "length log + RING_SIZE - n"
  define a where "a = ?k mod RING_SIZE"
  have small: "a < RING_SIZE" by (simp add: a_def)
  have "of_nat (length log) - of_nat n + of_nat RING_SIZE = (of_nat ?k :: usize)"
    using n by (simp add: of_nat_diff)
  then have start: "unat (ring_pos st - of_nat n) mod RING_SIZE = a"
    using log unat_add_ring [of "of_nat (length log) - of_nat n"] by (simp add: ring_log_def unat_mod_ring a_def)
  have buf: "ring_buf st ! ((a + i) mod RING_SIZE) = padded log ! (?k + i)" if "i < n" for i
    using log n that by (simp add: ring_log_def a_def mod_add_left_eq)
  have len: "length (ring_buf st) = RING_SIZE" using log by (simp add: ring_log_def)
  have tail: "length (ring_tail n st) = n"
    using n len small by (simp add: ring_tail_def start Let_def slice_def)
  show ?thesis
  proof (rule nth_equalityI)
    show "length (ring_tail n st) = length (drop ?k (padded log))" using n by (simp add: tail)
  next
    fix i assume "i < length (ring_tail n st)"
    then have i: "i < n" by (simp add: tail)
    have "ring_tail n st ! i = ring_buf st ! ((a + i) mod RING_SIZE)"
      using i len small n by (auto simp: ring_tail_def start Let_def slice_def nth_append mod_if [of "a + i"] add.commute)
    then show "ring_tail n st ! i = drop ?k (padded log) ! i" using buf [OF i] i n by simp
  qed
qed

text \<open>C19: \<open>trace_read_refines\<close>.  Whatever records were pushed, a read returns the last bytes of their
  sequence, each record after its length, with zeros before the first one; a read does not consume.\<close>

theorem trace_read_refines:
  "sys_trace_read p n (fold ring_push cs TRACE) m =
     (let k = min (unat n) RING_SIZE; log = concat (map trace_record cs)
      in (of_nat k, store_bytes p (drop (length log + RING_SIZE - k) (replicate RING_SIZE 0 @ log)) m))"
proof -
  have "ring_log (concat (map trace_record cs)) (fold ring_push cs TRACE)"
    using ring_log_pushes [OF ring_log_TRACE] by simp
  from ring_tail_log [OF this, of "min (unat n) RING_SIZE"] show ?thesis
    by (auto simp: sys_trace_read_def Let_def padded_def store_bytes_def)
qed

section \<open>Programs see only their context\<close>

lemma load_confined:
  assumes "\<forall>i < CTX_SIZE. kmem env (ctx_ptr env + of_nat i) = m (ctx_ptr env + of_nat i)"
  shows "load (env\<lparr>kmem := m\<rparr>) insn s = load env insn s"
proof -
  let ?a = "s + word_of_int (insn_off insn)"
  have "read_u64 m ?a = read_u64 (kmem env) ?a"
    if base: "ctx_ptr env \<le> ?a" and over: "unat ?a + 8 < 2 ^ 64" "unat (ctx_ptr env) + CTX_SIZE < 2 ^ 64"
      and top: "?a + 8 \<le> ctx_ptr env + of_nat CTX_SIZE"
  proof -
    let ?d = "unat ?a - unat (ctx_ptr env)"
    have a: "?a = ctx_ptr env + of_nat ?d"
      using base by (simp add: word_le_nat_alt word_unat_eq_iff)
    have "unat (?a + 8) = unat ?a + 8"
      using over(1) by (simp add: unat_word_ariths)
    moreover have "unat (ctx_ptr env + of_nat CTX_SIZE) = unat (ctx_ptr env) + CTX_SIZE"
      using over(2) by (simp add: unat_word_ariths CTX_SIZE_def)
    ultimately have d: "?d + 8 \<le> CTX_SIZE" using top base by (simp add: word_le_nat_alt)
    have same: "m (?a + of_nat k) = kmem env (?a + of_nat k)" if "k < 8" for k
      using assms d that by (subst (1 2) a) (simp flip: of_nat_add add: add.assoc)
    from same [of 0] same [of 1] same [of 2] same [of 3] same [of 4] same [of 5] same [of 6] same [of 7]
    show ?thesis by (simp add: read_u64_def)
  qed
  then show ?thesis by (auto simp: load_def Let_def not_le)
qed

text \<open>C10: \<open>programs_see_only_context\<close>.  What a program does, whether it ends included, depends on no byte of the
  kernel's memory but the 64 of its context.\<close>

theorem programs_see_only_context:
  assumes "\<forall>i < CTX_SIZE. m (ctx_ptr env + of_nat i) = kmem env (ctx_ptr env + of_nat i)"
  shows "vm_run (env\<lparr>kmem := m\<rparr>) prog = vm_run env prog"
proof -
  have load: "load (env\<lparr>kmem := m\<rparr>) = load env"
    using assms by (intro ext load_confined) simp
  have call: "helper_call (env\<lparr>kmem := m\<rparr>) = helper_call env"
    by (simp add: helper_call_def fun_eq_iff)
  have "vm_step (env\<lparr>kmem := m\<rparr>) prog = vm_step env prog"
    unfolding vm_step_def vm_step_insn_def load call by (rule refl)
  then show ?thesis by (simp add: vm_run_def vm_init_def)
qed

text \<open>A secret outside the context makes no difference.\<close>

theorem programs_see_only_context_witness:
  "vm_run (\<lparr>ctx_ptr = 0x80000000, kmem = (\<lambda>_. 0), running = 1, clock = (\<lambda>_. 0)\<rparr>\<lparr>kmem := (\<lambda>a. if a = 0x90000000 then 42 else 0)\<rparr>)
     [0x90000000000002b7, 0x2079, 0x95] =
   vm_run \<lparr>ctx_ptr = 0x80000000, kmem = (\<lambda>_. 0), running = 1, clock = (\<lambda>_. 0)\<rparr> [0x90000000000002b7, 0x2079, 0x95]"
proof (rule programs_see_only_context)
  have "unat (0x80000000 + of_nat i :: usize) = 0x80000000 + i" if "i < CTX_SIZE" for i
    using that by (simp add: CTX_SIZE_def unat_word_ariths unat_of_nat)
  then show "\<forall>i < CTX_SIZE. (\<lambda>a. if a = 0x90000000 then 42 else 0) (ctx_ptr \<lparr>ctx_ptr = 0x80000000, kmem = (\<lambda>_. 0), running = 1, clock = (\<lambda>_. 0)\<rparr> + of_nat i) =
      kmem \<lparr>ctx_ptr = 0x80000000, kmem = (\<lambda>_. 0), running = 1, clock = (\<lambda>_. 0)\<rparr> (ctx_ptr \<lparr>ctx_ptr = 0x80000000, kmem = (\<lambda>_. 0), running = 1, clock = (\<lambda>_. 0)\<rparr> + of_nat i)"
    by (auto simp: word_unat_eq_iff CTX_SIZE_def)
qed

section \<open>Programs that return\<close>

text \<open>A check that would make every loaded program return a value: jumps go forward, register 1 keeps the
  address of the context and loads go through it.  The code has no such check.\<close>

definition is_alu :: "u64 \<Rightarrow> bool" where "is_alu insn \<longleftrightarrow> alu insn 0 0 \<noteq> None"
definition is_jump :: "u64 \<Rightarrow> bool" where "is_jump insn \<longleftrightarrow> jmp_if insn 0 0 \<noteq> None"

definition safe_insn :: "u64 \<Rightarrow> bool" where
  "safe_insn insn \<longleftrightarrow>
     (is_alu insn \<longrightarrow> insn_dst insn \<noteq> 1) \<and> (is_jump insn \<longrightarrow> 0 \<le> insn_off insn) \<and>
     (insn_op insn = BPF_LDX_DW \<longrightarrow> insn_dst insn \<noteq> 1 \<and> insn_src insn = 1 \<and> 0 \<le> insn_off insn)"

definition vm_ok :: "vm_env \<Rightarrow> vm \<Rightarrow> bool" where
  "vm_ok env v \<longleftrightarrow> length (regs v) = 11 \<and> regs v ! 1 = ctx_ptr env \<and> 0 \<le> pc v"

lemma alu_None: "alu insn d s = None \<longleftrightarrow> \<not> is_alu insn"
  by (simp add: alu_def is_alu_def Let_def)

lemma jmp_if_None: "jmp_if insn d s = None \<longleftrightarrow> \<not> is_jump insn"
  by (simp add: jmp_if_def is_jump_def Let_def)

lemma alu_Some: "alu insn d s = Some x \<Longrightarrow> is_alu insn"
  using alu_None [of insn d s] by simp

lemma jmp_if_Some: "jmp_if insn d s = Some x \<Longrightarrow> is_jump insn"
  using jmp_if_None [of insn d s] by simp

lemma insn_dst_bound: "insn_dst insn < 11"
  by (simp add: insn_dst_def)

lemma load_ok:
  assumes "0 \<le> insn_off insn" "unat (ctx_ptr env) + 65536 \<le> 2 ^ 64"
  shows "\<exists>r. load env insn (ctx_ptr env) = Ok r"
proof -
  let ?a = "ctx_ptr env + word_of_int (insn_off insn)"
  have "insn_off insn < 2 ^ 15"
    using sint_lt [of "ucast (drop_bit 16 insn) :: u16"] by (simp add: insn_off_def)
  then obtain n where n: "insn_off insn = int n" "n < 2 ^ 15"
    using assms(1) by (metis nonneg_int_cases of_nat_less_numeral_power_cancel_iff)
  have "unat ?a \<le> unat (ctx_ptr env) + n"
    by (simp add: n unat_word_ariths unat_of_nat)
  then have "unat ?a + 8 < 2 ^ 64" "unat (ctx_ptr env) + CTX_SIZE < 2 ^ 64"
    using assms(2) n(2) by (simp_all add: CTX_SIZE_def)
  then show ?thesis by (simp add: load_def Let_def)
qed

lemma vm_step_ok:
  assumes ok: "vm_ok env v" and safe: "list_all safe_insn prog" and base: "unat (ctx_ptr env) + 65536 \<le> 2 ^ 64"
  shows "(\<exists>r. vm_step env prog v = Return r) \<or>
         (\<exists>v1. vm_step env prog v = Next v1 \<and> vm_ok env v1 \<and> pc v < pc v1 \<and>
               pc v < int (min (length prog) MAX_INSNS))"
proof (cases "pc v < int (min (length prog) MAX_INSNS)")
  case True
  define insn where "insn = prog ! nat (pc v)"
  have "0 \<le> pc v" using ok by (simp add: vm_ok_def)
  then have "nat (pc v) < length prog" using True by simp
  then have safe: "safe_insn insn" using safe by (simp add: list_all_length insn_def)
  let ?d = "regs v ! insn_dst insn" and ?s = "regs v ! insn_src insn"
  have step: "vm_step env prog v = vm_step_insn env insn ?d ?s v"
    using True \<open>0 \<le> pc v\<close> by (simp add: vm_step_def insn_def Let_def)
  show ?thesis
  proof (cases "alu insn ?d ?s")
    case (Some x)
    then show ?thesis using True ok safe alu_Some [OF Some] insn_dst_bound [of insn]
      by (simp add: step vm_step_insn_def Let_def vm_ok_def safe_insn_def nth_list_update)
  next
    case no_alu: None
    show ?thesis
    proof (cases "jmp_if insn ?d ?s")
      case (Some t)
      then show ?thesis using no_alu True ok safe jmp_if_Some [OF Some]
        by (simp add: step vm_step_insn_def Let_def vm_ok_def safe_insn_def)
    next
      case no_jump: None
      show ?thesis
      proof (cases "insn_op insn = BPF_LDX_DW")
        case ld: True
        then obtain r where "load env insn ?s = Ok r"
          using load_ok [OF _ base] safe ok by (auto simp: safe_insn_def vm_ok_def)
        then show ?thesis using no_alu no_jump ld True ok safe insn_dst_bound [of insn]
          by (cases r) (simp_all add: step vm_step_insn_def Let_def vm_ok_def safe_insn_def nth_list_update)
      next
        case False
        then show ?thesis using no_alu no_jump True ok
          by (simp add: step vm_step_insn_def Let_def vm_ok_def)
      qed
    qed
  qed
qed (simp add: vm_step_def)

lemma vm_loop_returns:
  assumes "vm_ok env v" "list_all safe_insn prog" "unat (ctx_ptr env) + 65536 \<le> 2 ^ 64"
  shows "\<exists>r. vm_loop (vm_step env prog) v = Some (Ok r)"
  using assms(1)
proof (induction "nat (int (min (length prog) MAX_INSNS) - pc v)" arbitrary: v rule: less_induct)
  case less
  from vm_step_ok [OF less.prems assms(2,3)] show ?case
  proof
    assume "\<exists>r. vm_step env prog v = Return r"
    then show ?thesis by (subst vm_loop.simps) auto
  next
    assume "\<exists>v1. vm_step env prog v = Next v1 \<and> vm_ok env v1 \<and> pc v < pc v1 \<and>
               pc v < int (min (length prog) MAX_INSNS)"
    then obtain v1 where v1: "vm_step env prog v = Next v1" "vm_ok env v1" "pc v < pc v1"
      "pc v < int (min (length prog) MAX_INSNS)" by blast
    have "\<exists>r. vm_loop (vm_step env prog) v1 = Some (Ok r)"
      by (rule less.hyps) (use v1 in auto)
    then show ?thesis using v1(1) by (subst vm_loop.simps) simp
  qed
qed

text \<open>C38: \<open>safe_programs_return\<close>.  A program whose jumps go forward and whose loads go through register 1, which
  nothing overwrites, returns a value: it neither runs forever nor panics.\<close>

theorem safe_programs_return:
  assumes "list_all safe_insn prog" "unat (ctx_ptr env) + 65536 \<le> 2 ^ 64"
  shows "\<exists>r. vm_run env prog = Some (Ok r)"
  unfolding vm_run_def using assms by (intro vm_loop_returns) (simp_all add: vm_ok_def vm_init_def)

text \<open>The program returns the identifier of its event.\<close>

theorem safe_programs_return_witness:
  "\<exists>r. vm_run \<lparr>ctx_ptr = 0x80000000, kmem = (\<lambda>_. 7), running = 1, clock = (\<lambda>_. 0)\<rparr> [0x1079, 0x95] = Some (Ok r)"
  by (rule safe_programs_return)
     (simp_all add: safe_insn_def is_alu_def is_jump_def alu_def jmp_if_def insn_defs opcode_defs)

section \<open>Programs that stop the kernel\<close>

text \<open>The load of a word from the address \<open>-1\<close>, and a jump to itself.\<close>

definition bad_load :: "u64 list" where "bad_load = [0xFFFFFFFF000002b7, 0x2079]"
definition self_jump :: "u64 list" where "self_jump = [0xFFFF0005]"

lemma vm_run_bad_load: "vm_run env bad_load = Some (Panic overflow)"
proof -
  have "vm_step env bad_load (vm_init env) =
      Next \<lparr>regs = (replicate 11 0)[1 := ctx_ptr env, 2 := - 1], pc = 1, executed = 1\<rparr>"
    by (simp add: vm_step_def vm_step_insn_def bad_load_def vm_init_def alu_def insn_defs opcode_defs MAX_INSNS_def Let_def)
  moreover have "vm_step env bad_load \<lparr>regs = (replicate 11 0)[1 := ctx_ptr env, 2 := - 1], pc = 1, executed = 1\<rparr> =
      Abort overflow"
    by (simp add: vm_step_def vm_step_insn_def bad_load_def alu_def jmp_if_def load_def insn_defs opcode_defs MAX_INSNS_def Let_def
        unsigned_minus_1_eq_mask mask_eq_exp_minus_1)
  ultimately show ?thesis
    by (simp add: vm_run_def vm_loop.simps)
qed

lemma vm_loop_stuck:
  assumes step: "\<forall>v. keep v \<longrightarrow> (\<exists>v1. step v = Next v1 \<and> keep v1)" and "keep v"
  shows "vm_loop step v = None"
proof (rule ccontr)
  assume "vm_loop step v \<noteq> None"
  then obtain r where r: "vm_loop step v = Some r" by blast
  have "step' = step \<longrightarrow> \<not> keep v" if "vm_loop step' v = Some r" for step' v r
    by (rule vm_loop.raw_induct [OF _ that, where P = "\<lambda>step' v r. step' = step \<longrightarrow> \<not> keep v"])
       (use step in \<open>auto split: vm_next.splits\<close>)
  from this [OF r] \<open>keep v\<close> show False by simp
qed

lemma vm_run_self_jump: "vm_run env self_jump = None"
  unfolding vm_run_def
  by (rule vm_loop_stuck [where keep = "\<lambda>v. pc v = 0"])
     (simp_all add: vm_step_def vm_step_insn_def self_jump_def vm_init_def alu_def jmp_if_def insn_defs opcode_defs
        MAX_INSNS_def Let_def)

text \<open>A program in the memory of the caller, and the system calls that load it and attach it to a trace point.\<close>

definition prog_bytes :: "u64 list \<Rightarrow> u8 list" where
  "prog_bytes prog = concat (map le64_bytes prog)"

definition load_and_attach :: "(usize \<Rightarrow> u8) \<Rightarrow> usize \<Rightarrow> usize \<Rightarrow> usize \<Rightarrow> trace_state \<Rightarrow> trace_state" where
  "load_and_attach m prog_ptr n tp st =
     (let (r, st1) = sys_trace_load m prog_ptr n st in snd (sys_trace_attach tp r st1))"

lemma length_prog_bytes [simp]: "length (prog_bytes prog) = 8 * length prog"
  by (induction prog) (auto simp: prog_bytes_def le64_bytes_def)

lemma prog_bytes_nth: "i < length prog \<Longrightarrow> k < 8 \<Longrightarrow> prog_bytes prog ! (8 * i + k) = le64_bytes (prog ! i) ! k"
proof (induction prog arbitrary: i)
  case (Cons x prog)
  have [simp]: "length (le64_bytes x) = 8" by (simp add: le64_bytes_def)
  have "prog_bytes (x # prog) = le64_bytes x @ prog_bytes prog" by (simp add: prog_bytes_def)
  with Cons show ?case by (cases i) (auto simp: nth_append)
qed simp

lemma le64_round_trip: "ucast (ucast w :: u32) OR push_bit 32 (ucast (ucast (drop_bit 32 w) :: u32)) = (w :: u64)"
proof (rule bit_word_eqI)
  fix n assume "n < LENGTH(64)"
  then show "bit (ucast (ucast w :: u32) OR push_bit 32 (ucast (ucast (drop_bit 32 w) :: u32)) :: u64) n = bit w n"
    by (cases "n < 32") (auto simp: bit_simps)
qed

lemma read_stored:
  assumes i: "i < length prog" and n: "8 * length prog < 2 ^ 64"
  shows "read_u64 (store_bytes p (prog_bytes prog) m) (p + of_nat (8 * i)) = prog ! i"
proof -
  have byte: "store_bytes p (prog_bytes prog) m (p + of_nat (8 * i) + of_nat k) = le64_bytes (prog ! i) ! k"
    if k: "k < 8" for k
  proof -
    have "p + of_nat (8 * i) + of_nat k - p = of_nat (8 * i + k)" by simp
    moreover have "8 * i + k < 2 ^ 64" using i n k by linarith
    ultimately have "unat (p + of_nat (8 * i) + of_nat k - p) = 8 * i + k"
      by (simp only: unat_of_nat) simp
    then show ?thesis using i k by (simp add: store_bytes_def prog_bytes_nth)
  qed
  show ?thesis
    using byte [of 0] byte [of 1] byte [of 2] byte [of 3] byte [of 4] byte [of 5] byte [of 6] byte [of 7]
    by (simp add: read_u64_def) (simp add: le64_bytes_def le32_bytes_def le64_round_trip)
qed

lemma load_attach:
  assumes "0 < length prog" "length prog \<le> MAX_INSNS" "tp < NUM_TP"
  shows "attached tp (load_and_attach (store_bytes p (prog_bytes prog) m) p (of_nat (length prog)) (of_nat tp) TRACE) = [prog]"
proof -
  have free: "first_free TRACE = Some 0"
    by (simp add: first_free_def TRACE_def MAX_PROG_ID_def upt_rec)
  have len: "unat (of_nat (length prog) :: usize) = length prog"
    using assms(2) by (simp add: unat_of_nat MAX_INSNS_def)
  have read: "map (\<lambda>i. read_u64 (store_bytes p (prog_bytes prog) m) (p + of_nat (8 * i))) [0..<length prog] = prog"
    using assms(2) by (intro nth_equalityI) (simp_all add: read_stored MAX_INSNS_def del: of_nat_mult)
  have "sys_trace_load (store_bytes p (prog_bytes prog) m) p (of_nat (length prog)) TRACE =
      (0, TRACE\<lparr>programs := (programs TRACE)[0 := Some prog]\<rparr>)"
    using assms(1,2) unfolding sys_trace_load_def Let_def len read
    by (auto simp: free word_less_nat_alt len MAX_INSNS_def word_unat_eq_iff)
  then show ?thesis
    using assms(3)
    by (simp add: load_and_attach_def sys_trace_attach_def attached_def TRACE_def MAX_PROG_ID_def NUM_TP_def
        word_le_nat_alt unat_of_nat map_filter_simps)
qed

text \<open>C39: \<open>programs_stop_kernel\<close>.  The calls accept the two programs above, and when the trace point fires the kernel
  panics with the one and never returns with the other.\<close>

theorem programs_stop_kernel:
  assumes "unat tp < NUM_TP"
  shows "(let st = load_and_attach (store_bytes p (prog_bytes bad_load) m) p 2 (ucast tp) TRACE
          in fire env tp c st = Some (Panic overflow, st)) \<and>
         fire env tp c (load_and_attach (store_bytes p (prog_bytes self_jump) m) p 1 (ucast tp) TRACE) = None"
proof -
  have len: "length bad_load = 2" "length self_jump = 1" by (simp_all add: bad_load_def self_jump_def)
  have attach: "attached (unat tp) (load_and_attach (store_bytes p (prog_bytes prog) m) p (of_nat (length prog)) (ucast tp) TRACE) = [prog]"
    if "length prog = 1 \<or> length prog = 2" for prog
    using load_attach [of prog "unat tp" p m] assms that
    by (cases "prog = []") (auto simp: MAX_INSNS_def)
  have fires: "fire env tp c st = run_programs env c 0 [prog] st" if "attached (unat tp) st = [prog]" for st prog
    using assms that by (simp add: fire_def)
  show ?thesis
    using fires [OF attach [of bad_load]] fires [OF attach [of self_jump]]
    unfolding len Let_def run_programs.simps vm_run_bad_load vm_run_self_jump by simp
qed

theorem programs_stop_kernel_witness:
  "(let st = load_and_attach (store_bytes 0x1000 (prog_bytes bad_load) (\<lambda>_. 0)) 0x1000 2 (ucast (4 :: u32)) TRACE
    in fire (\<lambda>_. \<lparr>ctx_ptr = 0x80000000, kmem = (\<lambda>_. 0), running = 1, clock = (\<lambda>_. 0)\<rparr>) 4
         \<lparr>tp_id = 4, ctx_pid = 1, ts = 0, arg0 = 0, arg1 = 0, arg2 = 0, arg3 = 0, retval = 0\<rparr> st = Some (Panic overflow, st)) \<and>
   fire (\<lambda>_. \<lparr>ctx_ptr = 0x80000000, kmem = (\<lambda>_. 0), running = 1, clock = (\<lambda>_. 0)\<rparr>) 4
     \<lparr>tp_id = 4, ctx_pid = 1, ts = 0, arg0 = 0, arg1 = 0, arg2 = 0, arg3 = 0, retval = 0\<rparr>
     (load_and_attach (store_bytes 0x1000 (prog_bytes self_jump) (\<lambda>_. 0)) 0x1000 1 (ucast (4 :: u32)) TRACE) = None"
  by (rule programs_stop_kernel) (simp add: NUM_TP_def)

end
