(* ===== verification/Crypto.thy ===== *)
theory Crypto
  imports Prelude
begin

text \<open>The padding and the message schedule of SHA-256 (\<open>crypto.rs\<close>), and the tables of users and groups
  (\<open>posix/user.rs\<close>).  The compression rounds and their table of constants are not modelled, and so neither
  are the digest and the check of a password.\<close>

section \<open>SHA-256\<close>

definition rotate_right :: "nat \<Rightarrow> u32 \<Rightarrow> u32" where
  "rotate_right n x = drop_bit n x OR push_bit (32 - n) x"

definition gamma0 :: "u32 \<Rightarrow> u32" where "gamma0 x = rotate_right 7 x XOR rotate_right 18 x XOR drop_bit 3 x"
definition gamma1 :: "u32 \<Rightarrow> u32" where "gamma1 x = rotate_right 17 x XOR rotate_right 19 x XOR drop_bit 10 x"

definition be_bytes :: "nat \<Rightarrow> 'a::len word \<Rightarrow> u8 list" where
  "be_bytes n w = map (\<lambda>i. ucast (drop_bit (8 * (n - 1 - i)) w)) [0..<n]"

definition be32 :: "u8 list \<Rightarrow> nat \<Rightarrow> u32" where
  "be32 bs i = push_bit 24 (ucast (bs ! i)) OR push_bit 16 (ucast (bs ! (i + 1))) OR
               push_bit 8 (ucast (bs ! (i + 2))) OR ucast (bs ! (i + 3))"

text \<open>The message of whole blocks: the data, a one bit, zeros, and the length in bits.\<close>

definition pad :: "u8 list \<Rightarrow> u8 list" where
  "pad data =
     (let bit_len = of_nat (length data) * 8 :: u64; pad_len = (64 - (length data + 9) mod 64) mod 64
      in data @ [0x80] @ replicate pad_len 0 @ be_bytes 8 bit_len)"

text \<open>The message schedule of a block, extended one word at a time.\<close>

definition extend :: "nat \<Rightarrow> u32 list \<Rightarrow> u32 list" where
  "extend t w = w @ [gamma1 (w ! (t - 2)) + w ! (t - 7) + gamma0 (w ! (t - 15)) + w ! (t - 16)]"

definition schedule_words :: "u8 list \<Rightarrow> u32 list" where
  "schedule_words chunk = fold extend [16..<64] (map (\<lambda>t. be32 chunk (t * 4)) [0..<16])"

section \<open>The padding and the schedule\<close>

lemma length_be_bytes [simp]: "length (be_bytes n w) = n"
  by (simp add: be_bytes_def)

lemma length_pad: "length (pad data) = length data + 9 + (64 - (length data + 9) mod 64) mod 64"
  by (simp add: pad_def Let_def)

lemma next_block: "n = 64 * q + r \<Longrightarrow> r < 64 \<Longrightarrow> 64 dvd n + (64 - r) mod (64::nat)"
proof (cases "r = 0")
  case False
  assume "n = 64 * q + r" "r < 64"
  then have "n + (64 - r) = 64 * (q + 1)" "(64 - r) mod 64 = 64 - r" using False by simp_all
  then show ?thesis by (metis dvd_triv_left)
qed simp

lemma pad_blocks: "64 dvd length (pad data)"
  unfolding length_pad by (rule next_block [of _ "(length data + 9) div 64"]) simp_all

lemma be_bytes_inj:
  fixes v w :: u64
  assumes "be_bytes 8 v = be_bytes 8 w"
  shows "v = w"
proof (rule bit_word_eqI)
  fix n assume n: "n < LENGTH(64)"
  let ?i = "7 - n div 8"
  have "?i < 8" by simp
  then have "be_bytes 8 v ! ?i = ucast (drop_bit (8 * (n div 8)) v)"
    and "be_bytes 8 w ! ?i = ucast (drop_bit (8 * (n div 8)) w)"
    using n by (simp_all add: be_bytes_def)
  then have "bit (ucast (drop_bit (8 * (n div 8)) v) :: u8) (n mod 8) = bit (ucast (drop_bit (8 * (n div 8)) w) :: u8) (n mod 8)"
    using assms by simp
  then show "bit v n = bit w n" by (simp add: bit_simps)
qed

text \<open>\<open>pad_injective\<close>.  Messages shorter than \<open>2 ^ 61\<close> bytes with the same padding are the same.\<close>

theorem pad_injective:
  assumes "pad a = pad b" "length a < 2 ^ 61" "length b < 2 ^ 61"
  shows "a = b"
proof -
  let ?fill = "\<lambda>x :: u8 list. [0x80] @ replicate ((64 - (length x + 9) mod 64) mod 64) 0"
  have pad: "pad x = (x @ ?fill x) @ be_bytes 8 (of_nat (length x * 8) :: u64)" for x
    unfolding pad_def Let_def by (simp only: append_assoc of_nat_mult of_nat_numeral)
  have "be_bytes 8 (of_nat (length a * 8) :: u64) = be_bytes 8 (of_nat (length b * 8) :: u64)"
    using assms(1) unfolding pad [of a] pad [of b] by (subst (asm) append_eq_append_conv) simp_all
  then have "unat (of_nat (length a * 8) :: u64) = unat (of_nat (length b * 8) :: u64)"
    by (metis be_bytes_inj)
  moreover have "unat (of_nat (length x * 8) :: u64) = length x * 8" if "length x < 2 ^ 61" for x :: "u8 list"
  proof -
    have "length x * 8 < 2 ^ LENGTH(64)" using that by simp
    then show ?thesis unfolding unat_of_nat by (rule mod_less)
  qed
  ultimately have len: "length a = length b" using assms(2,3) by (metis mult_right_cancel zero_neq_numeral)
  have "take (length x) (pad x) = x" for x unfolding pad by simp
  then show ?thesis using len assms(1) by metis
qed

text \<open>The standard defines the words of the schedule by recursion.\<close>

fun W :: "u8 list \<Rightarrow> nat \<Rightarrow> u32" where
  "W chunk t =
     (if t < 16 then be32 chunk (t * 4)
      else gamma1 (W chunk (t - 2)) + W chunk (t - 7) + gamma0 (W chunk (t - 15)) + W chunk (t - 16))"

declare W.simps [simp del]

lemma extend_W: "16 \<le> t \<Longrightarrow> extend t (map (W chunk) [0..<t]) = map (W chunk) [0..<Suc t]"
  by (simp add: extend_def W.simps [of chunk t])

lemma extends_W: "16 \<le> t \<Longrightarrow> fold extend [t..<t + n] (map (W chunk) [0..<t]) = map (W chunk) [0..<t + n]"
  by (induction n) (simp_all add: extend_W)


section \<open>Users\<close>

record user_entry =
  user_uid :: u32
  user_gid :: u32
  user_name :: string
  password_hash :: "u8 list"
  home :: string
  shell :: string

record group_entry =
  group_gid :: u32
  group_name :: string
  members :: "u32 list"

definition ROOT_UID :: u32 where "ROOT_UID = 0"
definition ROOT_GID :: u32 where "ROOT_GID = 0"
definition GUEST_UID :: u32 where "GUEST_UID = 1000"
definition GUEST_GID :: u32 where "GUEST_GID = 1000"
definition SUDO_GID :: u32 where "SUDO_GID = 27"

definition ROOT_HASH :: "u8 list" where
  "ROOT_HASH = [
    0x48, 0x13, 0x49, 0x4d, 0x13, 0x7e, 0x16, 0x31, 0xbb, 0xa3, 0x01, 0xd5, 0xac, 0xab, 0x6e, 0x7b,
    0xb7, 0xaa, 0x74, 0xce, 0x11, 0x85, 0xd4, 0x56, 0x56, 0x5e, 0xf5, 0x1d, 0x73, 0x76, 0x77, 0xb2]"

definition GUEST_HASH :: "u8 list" where
  "GUEST_HASH = [
    0x84, 0x98, 0x3c, 0x60, 0xf7, 0xda, 0xad, 0xc1, 0xcb, 0x86, 0x98, 0x62, 0x1f, 0x80, 0x2c, 0x0d,
    0x9f, 0x9a, 0x3c, 0x3c, 0x29, 0x5c, 0x81, 0x07, 0x48, 0xfb, 0x04, 0x81, 0x15, 0xc1, 0x86, 0xec]"

definition USERS :: "user_entry list" where
  "USERS =
     [\<lparr>user_uid = ROOT_UID, user_gid = ROOT_GID, user_name = ''root'', password_hash = ROOT_HASH,
       home = ''/root'', shell = ''/sh''\<rparr>,
      \<lparr>user_uid = GUEST_UID, user_gid = GUEST_GID, user_name = ''guest'', password_hash = GUEST_HASH,
       home = ''/home/guest'', shell = ''/sh''\<rparr>]"

definition GROUPS :: "group_entry list" where
  "GROUPS =
     [\<lparr>group_gid = ROOT_GID, group_name = ''root'', members = [ROOT_UID]\<rparr>,
      \<lparr>group_gid = GUEST_GID, group_name = ''guest'', members = [GUEST_UID]\<rparr>,
      \<lparr>group_gid = SUDO_GID, group_name = ''sudo'', members = [ROOT_UID, GUEST_UID]\<rparr>]"

definition find_by_name :: "string \<Rightarrow> user_entry option" where
  "find_by_name name = List.find (\<lambda>u. user_name u = name) USERS"

definition find_by_uid :: "u32 \<Rightarrow> user_entry option" where
  "find_by_uid uid = List.find (\<lambda>u. user_uid u = uid) USERS"

definition find_group_by_name :: "string \<Rightarrow> group_entry option" where
  "find_group_by_name name = List.find (\<lambda>g. group_name g = name) GROUPS"

definition find_group_by_gid :: "u32 \<Rightarrow> group_entry option" where
  "find_group_by_gid gid = List.find (\<lambda>g. group_gid g = gid) GROUPS"

definition groups_of :: "u32 \<Rightarrow> u32 list" where
  "groups_of uid = map group_gid (filter (\<lambda>g. uid \<in> set (members g)) GROUPS)"

definition in_group :: "u32 \<Rightarrow> u32 \<Rightarrow> bool" where
  "in_group uid gid = (case find_group_by_gid gid of None \<Rightarrow> False | Some g \<Rightarrow> uid \<in> set (members g))"

definition can_sudo :: "u32 \<Rightarrow> bool" where "can_sudo uid \<longleftrightarrow> uid = ROOT_UID \<or> in_group uid SUDO_GID"
definition is_root :: "u32 \<Rightarrow> bool" where "is_root euid \<longleftrightarrow> euid = ROOT_UID"

lemma in_group_groups_of: "in_group uid gid \<longleftrightarrow> gid \<in> set (groups_of uid)"
  by (auto simp: in_group_def groups_of_def find_group_by_gid_def GROUPS_def ROOT_GID_def GUEST_GID_def SUDO_GID_def)

end
