(* ===== verification/Elf.thy ===== *)
theory Elf
  imports Memory Bytes
begin

text \<open>The ELF loader (\<open>posix/elf.rs\<close>): it maps the loadable segments of a file into a page table.  The file is a
  byte list; the page table and the frames are those of \<open>Vmm\<close> and \<open>Pmm\<close>.\<close>

section \<open>Headers\<close>

definition u16_at :: "u8 list \<Rightarrow> nat \<Rightarrow> u16" where
  "u16_at data off = ucast (data ! off) OR push_bit 8 (ucast (data ! (off + 1)))"

definition u64_at :: "u8 list \<Rightarrow> nat \<Rightarrow> u64" where
  "u64_at data off = ucast (u32_le data off) OR push_bit 32 (ucast (u32_le data (off + 4)))"

text \<open>The fields of the two headers that the loader reads, at their offsets in the \<open>repr(C)\<close> structs of 64
  and 56 bytes.\<close>

record elf_header =
  ident :: "u8 list"
  e_entry :: u64
  e_phoff :: u64
  e_phentsize :: u16
  e_phnum :: u16

definition elf_header_at :: "u8 list \<Rightarrow> elf_header" where
  "elf_header_at data =
     \<lparr>ident = take 16 data, e_entry = u64_at data 24, e_phoff = u64_at data 32,
      e_phentsize = u16_at data 54, e_phnum = u16_at data 56\<rparr>"

record program_header =
  p_type :: u32
  p_flags :: u32
  p_offset :: u64
  p_vaddr :: u64
  p_filesz :: u64
  p_memsz :: u64

definition program_header_at :: "u8 list \<Rightarrow> nat \<Rightarrow> program_header" where
  "program_header_at data off =
     \<lparr>p_type = u32_le data off, p_flags = u32_le data (off + 4), p_offset = u64_at data (off + 8),
      p_vaddr = u64_at data (off + 16), p_filesz = u64_at data (off + 32), p_memsz = u64_at data (off + 40)\<rparr>"

definition ELF_HEADER_SIZE :: nat where "ELF_HEADER_SIZE = 64"
definition PROGRAM_HEADER_SIZE :: nat where "PROGRAM_HEADER_SIZE = 56"

definition PT_LOAD :: u32 where "PT_LOAD = 1"
definition PF_X :: u32 where "PF_X = 1"
definition PF_W :: u32 where "PF_W = 2"
definition PF_R :: u32 where "PF_R = 4"

record elf_load_info =
  entry :: usize
  phdr_va :: usize
  phnum :: usize
  phentsize :: usize

section \<open>Segments\<close>

definition pte_flags :: "u32 \<Rightarrow> usize" where
  "pte_flags fl =
     PTE_U OR (if fl AND PF_R \<noteq> 0 then PTE_R else 0) OR (if fl AND PF_W \<noteq> 0 then PTE_W else 0)
           OR (if fl AND PF_X \<noteq> 0 then PTE_X else 0)"

text \<open>The 4096 bytes of the page at \<open>va\<close>: zeros, and the part of the file that belongs there.  The subtractions
  saturate, as those of natural numbers do.\<close>

definition page_image :: "u8 list \<Rightarrow> program_header \<Rightarrow> usize \<Rightarrow> u8 list" where
  "page_image data ph va =
     (let va_offset = unat va - unat (p_vaddr ph); page_offset = unat (p_vaddr ph) - unat va;
          page = replicate 4096 0; file_size = unat (p_filesz ph) in
      if va_offset < file_size then
        let copy_len = min (4096 - page_offset) (file_size - va_offset);
            file_start = unat (p_offset ph) + va_offset
        in if file_start + copy_len \<le> length data then splice page_offset (slice file_start copy_len data) page
           else page
      else page)"

definition load_page :: "u8 list \<Rightarrow> program_header \<Rightarrow> usize \<Rightarrow> usize \<Rightarrow> (pmm, unit) kmon" where
  "load_page data ph root va =
     bindK alloc_frame (\<lambda>r. case r of
         None \<Rightarrow> errK ''Failed to alloc page for ELF''
       | Some pa \<Rightarrow> (\<lambda>s.
           case map_page root va pa (pte_flags (p_flags ph)) (set_frame pa (bytes_frame (page_image data ph va)) s) of
             (Ok _, s1) \<Rightarrow> (Ok (), s1)
           | (Err e, s1) \<Rightarrow> (Err e, PhysFrame_drop pa s1)
           | (Panic e, s1) \<Rightarrow> (Panic e, s1)))"

function load_pages :: "u8 list \<Rightarrow> program_header \<Rightarrow> usize \<Rightarrow> usize \<Rightarrow> usize \<Rightarrow> (pmm, unit) kmon" where
  "load_pages data ph root end_va va =
     (if va < end_va then
        bindK (load_page data ph root va) (\<lambda>_.
          if 2 ^ 64 \<le> unat va + 4096 then panicK overflow else load_pages data ph root end_va (va + PAGE_SIZE))
      else retK ())"
  by pat_completeness auto
termination
  by (relation "measure (\<lambda>(_, _, _, _, va). 2 ^ 64 - unat va)")
     (auto simp: PAGE_SIZE_def unat_word_ariths not_le)

declare load_pages.simps [simp del]

definition load_segment :: "u8 list \<Rightarrow> usize \<Rightarrow> program_header \<Rightarrow> (pmm, unit) kmon" where
  "load_segment data root ph =
     (let start_va = p_vaddr ph; memsz = p_memsz ph; file_size = unat (p_filesz ph) in
      if 2 ^ 64 \<le> unat start_va + unat memsz then errK ''integer overflow''
      else if 0 < file_size \<and> 2 ^ 64 \<le> unat (p_offset ph) + file_size then errK ''integer overflow''
      else if 0 < file_size \<and> length data < unat (p_offset ph) + file_size
           then errK ''segment data extends past end of file''
      else if memsz = 0 then retK ()
      else load_pages data ph root (start_va + memsz) (page_mask start_va))"

text \<open>The loop over the program headers; \<open>first\<close> is the address and file offset of the lowest segment so far.\<close>

fun load_headers ::
  "u8 list \<Rightarrow> usize \<Rightarrow> program_header list \<Rightarrow> (usize \<times> usize) option \<Rightarrow> (pmm, (usize \<times> usize) option) kmon" where
  "load_headers data root [] first = retK first"
| "load_headers data root (ph # phs) first =
     (if p_type ph = PT_LOAD then
        let first1 = (case first of
            None \<Rightarrow> Some (p_vaddr ph, p_offset ph)
          | Some (va, off) \<Rightarrow> if p_vaddr ph < va then Some (p_vaddr ph, p_offset ph) else Some (va, off))
        in bindK (load_segment data root ph) (\<lambda>_. load_headers data root phs first1)
      else load_headers data root phs first)"

definition program_headers :: "u8 list \<Rightarrow> program_header list" where
  "program_headers data =
     (let h = elf_header_at data
      in map (\<lambda>i. program_header_at data (unat (e_phoff h) + i * unat (e_phentsize h))) [0..<unat (e_phnum h)])"

definition load_elf :: "u8 list \<Rightarrow> usize \<Rightarrow> (pmm, elf_load_info) kmon" where
  "load_elf data root =
     (let h = elf_header_at data; phoff = unat (e_phoff h); n = unat (e_phnum h); size = unat (e_phentsize h) in
      if length data < ELF_HEADER_SIZE then errK ''File too small''
      else if take 4 (ident h) \<noteq> [0x7f, 0x45, 0x4c, 0x46] then errK ''Not an ELF file''
      else if size < PROGRAM_HEADER_SIZE then errK ''invalid program header entry size''
      else if 2 ^ 64 \<le> phoff + n * size then errK ''integer overflow''
      else if length data < phoff + n * size then errK ''program headers extend past end of file''
      else
        bindK (load_headers data root (program_headers data) None) (\<lambda>first. case first of
            None \<Rightarrow> errK ''no PT_LOAD segment found''
          | Some (lva, loff) \<Rightarrow>
              if 2 ^ 64 \<le> unat lva + phoff \<or> unat lva + phoff < unat loff then panicK overflow
              else retK \<lparr>entry = e_entry h, phdr_va = of_nat (unat lva + phoff - unat loff),
                         phnum = of_nat n, phentsize = of_nat size\<rparr>))"

section \<open>Pages\<close>

lemma frame_byte_bytes_frame:
  assumes "length bs = 4096" "i < 4096"
  shows "frame_byte (bytes_frame bs) i = bs ! i"
proof (rule bit_word_eqI)
  fix n assume n: "n < LENGTH(8)"
  let ?ws = "take 8 (drop (8 * (i div 8)) bs)"
  have idx: "i div 8 < 512" using assms by simp
  then have "8 * (i div 8) + 8 \<le> length bs" using assms by linarith
  then have len: "length ?ws = 8" by simp
  have pos: "(8 * (i mod 8) + n) div 8 = i mod 8" "(8 * (i mod 8) + n) mod 8 = n" using n by simp_all
  have byte: "?ws ! (i mod 8) = bs ! i" using assms by simp
  have "8 * (i mod 8) + n < 64" using n by (simp add: less_mult_imp_div_less)
  then have "bit (le_word ?ws) (8 * (i mod 8) + n) \<longleftrightarrow> bit (bs ! i) n"
    unfolding bit_le_word pos byte len by simp
  then show "bit (frame_byte (bytes_frame bs) i) n \<longleftrightarrow> bit (bs ! i) n"
    using n idx by (simp add: frame_byte_def bytes_frame_def bit_simps)
qed

lemma room: "a \<le> n \<Longrightarrow> a + min (n - a) b \<le> (n :: nat)"
  by simp

lemma length_page_image:
  assumes "unat (p_vaddr ph) - unat va \<le> 4096"
  shows "length (page_image data ph va) = 4096"
  using assms by (auto simp: page_image_def Let_def room length_slice)

text \<open>The byte of the image at the address \<open>a\<close>.\<close>

definition segment_byte :: "u8 list \<Rightarrow> program_header \<Rightarrow> nat \<Rightarrow> u8" where
  "segment_byte data ph a =
     (if unat (p_vaddr ph) \<le> a \<and> a < unat (p_vaddr ph) + unat (p_filesz ph)
      then data ! (unat (p_offset ph) + (a - unat (p_vaddr ph))) else 0)"

definition in_file :: "u8 list \<Rightarrow> program_header \<Rightarrow> bool" where
  "in_file data ph \<longleftrightarrow> p_filesz ph = 0 \<or> unat (p_offset ph) + unat (p_filesz ph) \<le> length data"

lemma nth_page_image:
  assumes infile: "in_file data ph" and va: "unat (p_vaddr ph) - unat va \<le> 4096" and k: "k < 4096"
  shows "page_image data ph va ! k = segment_byte data ph (unat va + k)"
proof -
  let ?vo = "unat va - unat (p_vaddr ph)" and ?po = "unat (p_vaddr ph) - unat va" and ?fs = "unat (p_filesz ph)"
  define len where "len = min (4096 - ?po) (?fs - ?vo)"
  show ?thesis
  proof (cases "?vo < ?fs")
    case False
    then have "\<not> (unat (p_vaddr ph) \<le> unat va + k \<and> unat va + k < unat (p_vaddr ph) + ?fs)" by linarith
    then show ?thesis using k False by (auto simp: page_image_def segment_byte_def Let_def)
  next
    case True
    then have fit: "unat (p_offset ph) + ?vo + len \<le> length data"
      using infile by (auto simp: in_file_def len_def)
    then have img: "page_image data ph va = splice ?po (slice (unat (p_offset ph) + ?vo) len data) (replicate 4096 0)"
      using True by (simp add: page_image_def Let_def len_def)
    have "length (slice (unat (p_offset ph) + ?vo) len data) = len" "?po + len \<le> 4096"
      using fit room [OF va] by (simp_all only: length_slice len_def)
    then have "page_image data ph va ! k =
        (if ?po \<le> k \<and> k < ?po + len then data ! (unat (p_offset ph) + ?vo + (k - ?po)) else 0)"
      using k fit unfolding img by (auto simp: nth_splice nth_slice less_diff_conv2)
    moreover have "?po \<le> k \<and> k < ?po + len \<longleftrightarrow> unat (p_vaddr ph) \<le> unat va + k \<and> unat va + k < unat (p_vaddr ph) + ?fs"
      using True k by (auto simp: len_def)
    moreover have "?vo + (k - ?po) = unat va + k - unat (p_vaddr ph)" if "?po \<le> k" using that by linarith
    ultimately show ?thesis by (auto simp: segment_byte_def add.assoc)
  qed
qed

section \<open>What a user address reads\<close>

definition user_byte :: "memory \<Rightarrow> usize \<Rightarrow> usize \<Rightarrow> (u8 \<times> usize) option" where
  "user_byte m r va =
     (case walk_page_table m r va of
        Ok (pa, flags) \<Rightarrow> Some (frame_byte (m (page_mask pa)) (unat (pa AND 0xFFF)), flags)
      | _ \<Rightarrow> None)"

text \<open>An address that is mapped to a frame that is neither free nor a page table.\<close>

definition data_page :: "pmm \<Rightarrow> usize list \<Rightarrow> usize \<Rightarrow> usize \<Rightarrow> bool" where
  "data_page s ps r va \<longleftrightarrow>
     (\<exists>pa flags. walk_page_table (mem s) r va = Ok (pa, flags) \<and> page_mask pa \<notin> set ps \<and>
        (\<forall>p. \<not> table_at (mem s) r p (page_mask pa)))"

lemma mask12: "(0xFFF :: usize) = mask 12"
  by (simp add: mask_eq_exp_minus_1)

lemma aligned_bit:
  assumes "pa mod 4096 = (0 :: usize)" "n < 12"
  shows "\<not> bit pa n"
proof -
  have "take_bit 12 pa = 0" using assms(1) by (simp add: take_bit_eq_mod)
  then have "\<not> bit (take_bit 12 pa) n" by simp
  then show ?thesis using assms(2) by (simp add: bit_simps)
qed

lemma page_mask_or:
  assumes "pa mod 4096 = 0"
  shows "page_mask (pa OR (va AND 0xFFF)) = pa"
  unfolding page_mask_def PAGE_SIZE_def
  by (rule bit_word_eqI) (use aligned_bit [OF assms] in \<open>auto simp: bit_simps mask12\<close>)

lemma offset_or:
  assumes "pa mod 4096 = (0 :: usize)"
  shows "(pa OR (va AND 0xFFF)) AND 0xFFF = va AND 0xFFF"
  by (rule bit_word_eqI) (use aligned_bit [OF assms] in \<open>auto simp: bit_simps mask12\<close>)

lemma unat_offset: "unat (va AND 0xFFF) = unat (va :: usize) mod 4096"
  unfolding mask12 by (simp add: take_bit_eq_mask [symmetric] take_bit_eq_mod unat_mod)

lemma pte_flags_less: "pte_flags fl < 1024"
  by (simp add: pte_flags_def pte_defs)

lemma same_page_sym: "same_page va va' \<longleftrightarrow> same_page va' va"
  by (auto simp: same_page_def)

text \<open>Loading a page adds its bytes and leaves what the other addresses read.\<close>

lemma load_page_ok:
  assumes inv: "pmm_inv s ps" and wf: "pt_wf (mem s) r (set ps)"
    and ok: "load_page data ph r va s = (Ok (), s')"
    and va: "unat (p_vaddr ph) - unat va \<le> 4096"
  obtains ps' where "pmm_inv s' ps'" "pt_wf (mem s') r (set ps')"
    "\<forall>va'. same_page va va' \<longrightarrow> data_page s' ps' r va' \<and>
       user_byte (mem s') r va' = Some (page_image data ph va ! unat (va' AND 0xFFF), PTE_V OR pte_flags (p_flags ph))"
    "\<forall>va'. data_page s ps r va' \<longrightarrow> data_page s' ps' r va' \<and> user_byte (mem s') r va' = user_byte (mem s) r va'"
proof (cases ps)
  case Nil
  then show ?thesis using ok inv by (simp add: load_page_def bindK_def alloc_frame_empty)
next
  case (Cons n ps1)
  let ?img = "bytes_frame (page_image data ph va)" and ?fl = "pte_flags (p_flags ph)"
  let ?s1 = "set_frame n ?img (allocated n s)"
  note al = allocated_tables [OF inv [unfolded Cons] wf [unfolded Cons]]
  have m1: "mem ?s1 = (mem (allocated n s))(n := ?img)" by simp
  have nt: "\<And>q. \<not> table_at (mem (allocated n s)) r q n" using al(3,8) by simp
  have tab1: "table_at (mem ?s1) r = table_at (mem s) r"
    unfolding m1 table_at_set_other [OF nt] by (rule al(3))
  have walk1: "walk_page_table (mem ?s1) r va' = walk_page_table (mem s) r va'" for va'
    unfolding m1 walk_set_other [OF nt] by (rule al(4))
  have inv1: "pmm_inv ?s1 ps1" by (rule pmm_inv_set_frame [OF al(1,7)])
  have wf1: "pt_wf (mem ?s1) r (set ps1)" using wf Cons unfolding pt_wf_def tab1 by simp
  obtain res s2 ps2 where mp: "map_page r va n ?fl ?s1 = (res, s2)" "vm_step r ?s1 ps1 s2 ps2"
    "\<forall>va'. walk_page_table (mem s2) r va' =
         (if res = Ok () \<and> same_page va va' then Ok (n OR (va' AND 0xFFF), PTE_V OR ?fl)
          else walk_page_table (mem ?s1) r va')"
    "res = Ok () \<longrightarrow> walk_page_table (mem ?s1) r va = Err ''unmapped''"
    using map_page_spec [OF inv1 wf1 al(6) pte_flags_less, of va "p_flags ph"] by blast
  have res: "res = Ok ()" "s2 = s'"
    using ok mp(1) Cons inv by (auto simp: load_page_def bindK_def alloc_frame_Cons split: rr.splits)
  note st = mp(2) [unfolded vm_step_def res(2)]
  have n2: "n \<notin> set ps2" "\<And>p. \<not> table_at (mem s') r p n"
    using st al(7,8) tab1 by auto
  have keep: "mem s' q = mem ?s1 q" "q \<notin> set ps2" "\<And>p. \<not> table_at (mem s') r p q"
    if "q \<notin> set ps1" "\<And>p. \<not> table_at (mem s) r p q" for q
    using st that tab1 by auto
  show ?thesis
  proof (rule that [of ps2])
    show "pmm_inv s' ps2" "pt_wf (mem s') r (set ps2)" using st by simp_all
    show "\<forall>va'. same_page va va' \<longrightarrow> data_page s' ps2 r va' \<and>
       user_byte (mem s') r va' = Some (page_image data ph va ! unat (va' AND 0xFFF), PTE_V OR ?fl)"
    proof (intro allI impI)
      fix va' assume same: "same_page va va'"
      have w: "walk_page_table (mem s') r va' = Ok (n OR (va' AND 0xFFF), PTE_V OR ?fl)"
        using mp(3) res same by simp
      have "unat (va' AND 0xFFF) < 4096" by (simp add: unat_offset)
      then have "frame_byte (mem s' n) (unat (va' AND 0xFFF)) = page_image data ph va ! unat (va' AND 0xFFF)"
        using keep(1) [OF al(7,8)] by (simp add: frame_byte_bytes_frame length_page_image [OF va])
      then show "data_page s' ps2 r va' \<and>
         user_byte (mem s') r va' = Some (page_image data ph va ! unat (va' AND 0xFFF), PTE_V OR ?fl)"
        using w n2 al(6) by (auto simp: data_page_def user_byte_def page_mask_or offset_or)
    qed
    show "\<forall>va'. data_page s ps r va' \<longrightarrow> data_page s' ps2 r va' \<and> user_byte (mem s') r va' = user_byte (mem s) r va'"
    proof (intro allI impI)
      fix va' assume "data_page s ps r va'"
      then obtain pa fl where d: "walk_page_table (mem s) r va' = Ok (pa, fl)" "page_mask pa \<notin> set ps"
        "\<And>p. \<not> table_at (mem s) r p (page_mask pa)" by (auto simp: data_page_def)
      have "walk_page_table (mem s) r va = Err ''unmapped''" using mp(4) res walk1 by simp
      then have "\<not> same_page va va'" using walk_same_page [of va' va] d(1) by (auto simp: same_page_sym)
      then have w: "walk_page_table (mem s') r va' = Ok (pa, fl)" using mp(3) res d(1) walk1 by simp
      have "mem s' (page_mask pa) = mem s (page_mask pa)" using keep(1) d(2,3) Cons by simp
      then show "data_page s' ps2 r va' \<and> user_byte (mem s') r va' = user_byte (mem s) r va'"
        using w d keep(2,3) [of "page_mask pa"] Cons by (auto simp: data_page_def user_byte_def)
    qed
  qed
qed

section \<open>Segments and files\<close>

lemma same_page_aligned:
  assumes "unat va mod 4096 = 0" "unat va \<le> unat a" "unat a < unat va + 4096"
  shows "same_page va a" "unat (a AND 0xFFF) = unat a - unat va"
proof -
  obtain q where q: "unat va = 4096 * q" using assms(1) by (metis mod_0_imp_dvd dvdE)
  define k where "k = unat a - unat va"
  have a: "unat a = 4096 * q + k" "k < 4096" using assms(2,3) q by (simp_all add: k_def)
  then have d: "unat a div 4096 * 4096 = unat va" "unat a mod 4096 = unat a - unat va"
    by (simp_all add: q)
  then have "page_mask a = va" using unat_page_mask [of a] by (simp add: word_unat_eq_iff)
  then show "same_page va a" using vpn_page_mask [of _ a] by (auto simp: same_page_def)
  show "unat (a AND 0xFFF) = unat a - unat va" using d by (simp add: unat_offset)
qed

text \<open>The part of the image in memory is at its addresses, and the data pages keep what they hold.\<close>

definition image_at :: "u8 list \<Rightarrow> program_header \<Rightarrow> nat \<Rightarrow> nat \<Rightarrow> pmm \<Rightarrow> usize list \<Rightarrow> usize \<Rightarrow> bool" where
  "image_at data ph lo hi s ps r \<longleftrightarrow>
     (\<forall>a. lo \<le> unat a \<longrightarrow> unat a < hi \<longrightarrow> data_page s ps r a \<and>
        user_byte (mem s) r a = Some (segment_byte data ph (unat a), PTE_V OR pte_flags (p_flags ph)))"

definition pages_kept :: "usize \<Rightarrow> pmm \<Rightarrow> usize list \<Rightarrow> pmm \<Rightarrow> usize list \<Rightarrow> bool" where
  "pages_kept r s ps s' ps' \<longleftrightarrow>
     pmm_inv s' ps' \<and> pt_wf (mem s') r (set ps') \<and>
     (\<forall>va. data_page s ps r va \<longrightarrow> data_page s' ps' r va \<and> user_byte (mem s') r va = user_byte (mem s) r va)"

lemma pages_kept_refl: "pmm_inv s ps \<Longrightarrow> pt_wf (mem s) r (set ps) \<Longrightarrow> pages_kept r s ps s ps"
  by (simp add: pages_kept_def)

lemma pages_kept_trans: "pages_kept r s ps s1 ps1 \<Longrightarrow> pages_kept r s1 ps1 s2 ps2 \<Longrightarrow> pages_kept r s ps s2 ps2"
  by (simp add: pages_kept_def)

lemma image_at_kept: "image_at data ph lo hi s ps r \<Longrightarrow> pages_kept r s ps s' ps' \<Longrightarrow> image_at data ph lo hi s' ps' r"
  by (simp add: image_at_def pages_kept_def)

lemma load_pages_ok:
  assumes "pmm_inv s ps" "pt_wf (mem s) r (set ps)" "load_pages data ph r end_va va s = (Ok (), s')"
    and "unat va mod 4096 = 0" "unat (p_vaddr ph) - unat va \<le> 4096" "in_file data ph"
  shows "\<exists>ps'. pages_kept r s ps s' ps' \<and> image_at data ph (unat va) (unat end_va) s' ps' r"
  using assms
proof (induction data ph r end_va va arbitrary: s ps rule: load_pages.induct)
  case (1 data ph r end_va va)
  show ?case
  proof (cases "va < end_va")
    case False
    then have "s' = s" using "1.prems"(3) by (simp add: load_pages.simps)
    then show ?thesis using "1.prems" False
      by (intro exI [of _ ps]) (auto simp: image_at_def pages_kept_refl word_less_nat_alt)
  next
    case True
    then obtain s1 where page: "load_page data ph r va s = (Ok (), s1)"
      and small: "unat va + 4096 < 2 ^ 64"
      and rest: "load_pages data ph r end_va (va + PAGE_SIZE) s1 = (Ok (), s')"
      using "1.prems"(3) by (subst (asm) load_pages.simps) (auto split: if_splits)
    have next_va: "unat (va + PAGE_SIZE) = unat va + 4096"
      using small by (simp add: PAGE_SIZE_def unat_word_ariths)
    obtain ps1 where ps1: "pmm_inv s1 ps1" "pt_wf (mem s1) r (set ps1)"
      and img: "\<forall>va'. same_page va va' \<longrightarrow> data_page s1 ps1 r va' \<and>
       user_byte (mem s1) r va' = Some (page_image data ph va ! unat (va' AND 0xFFF), PTE_V OR pte_flags (p_flags ph))"
      and kept: "\<forall>va'. data_page s ps r va' \<longrightarrow> data_page s1 ps1 r va' \<and> user_byte (mem s1) r va' = user_byte (mem s) r va'"
      using load_page_ok [OF "1.prems"(1,2) page "1.prems"(5)] by blast
    have first: "image_at data ph (unat va) (unat va + 4096) s1 ps1 r"
      unfolding image_at_def
    proof (intro allI impI)
      fix a :: usize assume a: "unat va \<le> unat a" "unat a < unat va + 4096"
      note same_page_aligned [OF "1.prems"(4) a]
      moreover have "page_image data ph va ! (unat a - unat va) = segment_byte data ph (unat a)"
        using nth_page_image [OF "1.prems"(6,5), of "unat a - unat va"] a by simp
      ultimately show "data_page s1 ps1 r a \<and>
          user_byte (mem s1) r a = Some (segment_byte data ph (unat a), PTE_V OR pte_flags (p_flags ph))"
        using img by simp
    qed
    have "pages_kept r s ps s1 ps1" using ps1 kept by (simp add: pages_kept_def)
    moreover obtain ps2 where kept2: "pages_kept r s1 ps1 s' ps2"
      and more: "image_at data ph (unat va + 4096) (unat end_va) s' ps2 r"
      using "1.IH" [OF True _ ps1 rest] small "1.prems"(4,5,6) by (auto simp: next_va)
    ultimately have "pages_kept r s ps s' ps2" using pages_kept_trans by blast
    moreover have "image_at data ph (unat va) (unat end_va) s' ps2 r"
      using image_at_kept [OF first kept2] more unfolding image_at_def by (meson not_less)
    ultimately show ?thesis by blast
  qed
qed

text \<open>A loaded segment: each of its bytes, from the file or zero, with the permissions of the header.\<close>

definition segment_loaded :: "u8 list \<Rightarrow> program_header \<Rightarrow> pmm \<Rightarrow> usize list \<Rightarrow> usize \<Rightarrow> bool" where
  "segment_loaded data ph s ps r \<longleftrightarrow>
     unat (p_vaddr ph) + unat (p_memsz ph) < 2 ^ 64 \<and>
     image_at data ph (unat (p_vaddr ph)) (unat (p_vaddr ph) + unat (p_memsz ph)) s ps r"

lemma load_segment_ok:
  assumes "pmm_inv s ps" "pt_wf (mem s) r (set ps)" "load_segment data r ph s = (Ok (), s')"
  shows "\<exists>ps'. pages_kept r s ps s' ps' \<and> segment_loaded data ph s' ps' r"
proof (cases "p_memsz ph = 0")
  case True
  then have "s' = s" "unat (p_vaddr ph) < 2 ^ 64"
    using assms(3) by (auto simp: load_segment_def Let_def split: if_splits)
  then show ?thesis using assms True
    by (intro exI [of _ ps]) (simp add: pages_kept_refl segment_loaded_def image_at_def)
next
  case False
  let ?start = "p_vaddr ph"
  have top: "unat ?start + unat (p_memsz ph) < 2 ^ 64" and infile: "in_file data ph"
    and pages: "load_pages data ph r (?start + p_memsz ph) (page_mask ?start) s = (Ok (), s')"
    using assms(3) False by (auto simp: load_segment_def in_file_def Let_def unat_gt_0 split: if_splits)
  have mask: "unat (page_mask ?start) mod 4096 = 0" "unat (page_mask ?start) \<le> unat ?start"
    "unat ?start - unat (page_mask ?start) \<le> 4096"
    by (simp_all add: unat_page_mask minus_div_mult_eq_mod less_imp_le)
  have "unat (?start + p_memsz ph) = unat ?start + unat (p_memsz ph)"
    using top by (simp add: unat_word_ariths)
  with load_pages_ok [OF assms(1,2) pages mask(1,3) infile] mask(2) show ?thesis
    using top by (auto simp: segment_loaded_def image_at_def)
qed

lemma segment_loaded_kept:
  "segment_loaded data ph s ps r \<Longrightarrow> pages_kept r s ps s' ps' \<Longrightarrow> segment_loaded data ph s' ps' r"
  using image_at_kept by (auto simp: segment_loaded_def)

lemma load_headers_ok:
  assumes "pmm_inv s ps" "pt_wf (mem s) r (set ps)" "load_headers data r phs first s = (Ok res, s')"
  shows "\<exists>ps'. pages_kept r s ps s' ps' \<and>
    (\<forall>ph \<in> set phs. p_type ph = PT_LOAD \<longrightarrow> segment_loaded data ph s' ps' r)"
  using assms
proof (induction phs arbitrary: first s ps)
  case Nil
  then show ?case by (auto intro: pages_kept_refl)
next
  case (Cons ph phs)
  show ?case
  proof (cases "p_type ph = PT_LOAD")
    case False
    then show ?thesis using Cons.IH [OF Cons.prems(1,2)] Cons.prems(3) by auto
  next
    case True
    then obtain s1 first1 where seg: "load_segment data r ph s = (Ok (), s1)"
      and rest: "load_headers data r phs first1 s1 = (Ok res, s')"
      using Cons.prems(3) by (auto simp: Let_def)
    obtain ps1 where ps1: "pages_kept r s ps s1 ps1" "segment_loaded data ph s1 ps1 r"
      using load_segment_ok [OF Cons.prems(1,2) seg] by blast
    then have "pmm_inv s1 ps1" "pt_wf (mem s1) r (set ps1)" by (simp_all add: pages_kept_def)
    from Cons.IH [OF this rest] obtain ps2 where ps2: "pages_kept r s1 ps1 s' ps2"
      "\<forall>ph \<in> set phs. p_type ph = PT_LOAD \<longrightarrow> segment_loaded data ph s' ps2 r" by blast
    with ps1 show ?thesis
      by (intro exI [of _ ps2]) (auto intro: pages_kept_trans segment_loaded_kept)
  qed
qed

text \<open>C3: \<open>load_elf_image\<close>.  When the loader succeeds, a program that reads an address of a loadable segment gets the
  byte of the file, or zero beyond the part that is in the file, with the permissions of the segment; and
  every data page that was mapped before reads as before.\<close>

theorem load_elf_image:
  assumes "pmm_inv s ps" "pt_wf (mem s) r (set ps)" "load_elf data r s = (Ok info, s')"
    and "ph \<in> set (program_headers data)" "p_type ph = PT_LOAD" "i < unat (p_memsz ph)"
  shows "user_byte (mem s') r (p_vaddr ph + of_nat i) =
           Some (if i < unat (p_filesz ph) then data ! (unat (p_offset ph) + i) else 0, PTE_V OR pte_flags (p_flags ph)) \<and>
         (\<forall>va. data_page s ps r va \<longrightarrow> user_byte (mem s') r va = user_byte (mem s) r va)"
proof -
  obtain first where "load_headers data r (program_headers data) None s = (Ok first, s')"
    using assms(3) by (auto simp: load_elf_def Let_def split: if_splits option.splits prod.splits)
  from load_headers_ok [OF assms(1,2) this] obtain ps' where kept: "pages_kept r s ps s' ps'"
    and seg: "segment_loaded data ph s' ps' r" using assms(4,5) by blast
  have "unat (p_vaddr ph + of_nat i) = unat (p_vaddr ph) + i"
    using seg assms(6) by (simp add: segment_loaded_def unat_word_ariths unat_of_nat)
  then have "user_byte (mem s') r (p_vaddr ph + of_nat i) =
      Some (segment_byte data ph (unat (p_vaddr ph) + i), PTE_V OR pte_flags (p_flags ph))"
    using seg assms(6) by (simp add: segment_loaded_def image_at_def)
  then show ?thesis using kept by (simp add: segment_byte_def pages_kept_def)
qed

section \<open>A program of one page\<close>

text \<open>Four bytes of file data, eight in memory, readable and executable at \<open>2 ^ 32\<close>.\<close>

definition demo_elf :: "u8 list" where
  "demo_elf = [
    127, 69, 76, 70, 0, 0, 0, 0, 0, 0, 0, 0, 0, 0, 0, 0, 0, 0, 0, 0, 0, 0, 0, 0, 0, 0, 0, 0,
    1, 0, 0, 0, 64, 0, 0, 0, 0, 0, 0, 0, 0, 0, 0, 0, 0, 0, 0, 0, 0, 0, 0, 0, 0, 0, 56, 0, 1,
    0, 0, 0, 0, 0, 0, 0, 1, 0, 0, 0, 5, 0, 0, 0, 120, 0, 0, 0, 0, 0, 0, 0, 0, 0, 0, 0, 1, 0,
    0, 0, 0, 0, 0, 0, 0, 0, 0, 0, 4, 0, 0, 0, 0, 0, 0, 0, 8, 0, 0, 0, 0, 0, 0, 0, 0, 0, 0, 0,
    0, 0, 0, 0, 17, 34, 51, 68]"

definition demo_header :: program_header where
  "demo_header = \<lparr>p_type = 1, p_flags = 5, p_offset = 120, p_vaddr = 0x100000000, p_filesz = 4, p_memsz = 8\<rparr>"

lemma demo_elf_headers: "program_headers demo_elf = [demo_header]"
  by (simp add: program_headers_def elf_header_at_def program_header_at_def demo_elf_def demo_header_def u16_at_def
      u64_at_def u32_le_def le32_def)

lemma demo_elf_head:
  "e_phoff (elf_header_at demo_elf) = 64" "e_phentsize (elf_header_at demo_elf) = 56"
  "e_phnum (elf_header_at demo_elf) = 1" "take 4 (ident (elf_header_at demo_elf)) = [0x7f, 0x45, 0x4c, 0x46]"
  "length demo_elf = 124"
  by (simp_all add: elf_header_at_def demo_elf_def u16_at_def u64_at_def u32_le_def le32_def)

lemma load_page_succeeds:
  assumes inv: "pmm_inv s (n # ps)" and wf: "pt_wf (mem s) r (set (n # ps))" and clean: "tables_clean (mem s) r"
    and two: "2 \<le> length ps" and un: "walk_page_table (mem s) r va = Err ''unmapped''"
  shows "\<exists>s'. load_page data ph r va s = (Ok (), s')"
proof -
  note al = allocated_tables [OF inv wf]
  let ?s1 = "set_frame n (bytes_frame (page_image data ph va)) (allocated n s)"
  have nt: "\<And>q. \<not> table_at (mem (allocated n s)) r q n" using al(3,8) by simp
  have m1: "mem ?s1 = (mem (allocated n s))(n := bytes_frame (page_image data ph va))" by simp
  have "pmm_inv ?s1 ps" by (rule pmm_inv_set_frame [OF al(1,7)])
  moreover have "pt_wf (mem ?s1) r (set ps)"
    using al(2) unfolding pt_wf_def m1 table_at_set_other [OF nt] by simp
  moreover have "tables_clean (mem ?s1) r"
    using al(5) [OF clean] nt unfolding tables_clean_def m1 table_at_set_other [OF nt] by (metis fun_upd_other)
  moreover have "walk_page_table (mem ?s1) r va = Err ''unmapped''"
    unfolding m1 walk_set_other [OF nt] al(4) by (rule un)
  ultimately have "fst (map_page r va n (pte_flags (p_flags ph)) ?s1) = Ok ()"
    using two al(6) pte_flags_less by (intro map_page_success)
  then show ?thesis
    by (cases "map_page r va n (pte_flags (p_flags ph)) ?s1")
       (simp add: load_page_def bindK_def alloc_frame_Cons [OF inv])
qed

theorem load_elf_image_witness:
  "\<exists>info s'. load_elf demo_elf 0x80000000 (sample_pmm [0x80001000, 0x80002000, 0x80003000]) = (Ok info, s') \<and>
     user_byte (mem s') 0x80000000 0x100000002 = Some (0x33, PTE_V OR pte_flags 5) \<and>
     user_byte (mem s') 0x80000000 0x100000005 = Some (0, PTE_V OR pte_flags 5)"
proof -
  let ?ps = "[0x80001000, 0x80002000, 0x80003000]"
  let ?s = "sample_pmm ?ps"
  have inv: "pmm_inv ?s ?ps" by (rule sample_pmm_inv) (simp_all add: sample_eval)
  have z: "mem ?s 0x80000000 = zero_frame" by (rule sample_pmm_mem) simp
  have "(0x80000000 :: usize) \<notin> set ?ps" by simp
  note e = empty_table_wf [where m = "mem ?s" and r = "0x80000000", OF z this]
  obtain s' where page: "load_page demo_elf demo_header 0x80000000 0x100000000 ?s = (Ok (), s')"
    using load_page_succeeds [OF inv e(1,2) _ e(3)] by fastforce
  have "load_pages demo_elf demo_header 0x80000000 0x100000008 0x100000000 ?s = (Ok (), s')"
    using page by (simp add: load_pages.simps [of _ _ _ _ "0x100000000"] load_pages.simps [of _ _ _ _ "0x100001000"]
        PAGE_SIZE_def)
  then have "load_headers demo_elf 0x80000000 [demo_header] None ?s = (Ok (Some (0x100000000, 120)), s')"
    by (simp add: load_segment_def demo_header_def PT_LOAD_def page_mask_def PAGE_SIZE_def demo_elf_def)
  then obtain info where ok: "load_elf demo_elf 0x80000000 ?s = (Ok info, s')"
    by (simp add: load_elf_def Let_def demo_elf_head demo_elf_headers ELF_HEADER_SIZE_def PROGRAM_HEADER_SIZE_def)
  have mem: "demo_header \<in> set (program_headers demo_elf)" "p_type demo_header = PT_LOAD"
    by (simp_all add: demo_elf_headers demo_header_def PT_LOAD_def)
  show ?thesis
    using ok load_elf_image [OF inv e(1) ok mem, of 2] load_elf_image [OF inv e(1) ok mem, of 5]
    by (simp add: demo_header_def demo_elf_def)
qed

end
