(* ===== verification/Initrd.thy ===== *)
theory Initrd
  imports Bytes
begin

text \<open>The initial ram disk (\<open>initrd.rs\<close>): lookup of a file in a tar archive.\<close>

section \<open>Lookup\<close>

text \<open>The archive is set once; later calls of \<open>init\<close> have no effect.\<close>

definition initrd_init :: "u8 list \<Rightarrow> u8 list option \<Rightarrow> u8 list option" where
  "initrd_init data st = (case st of None \<Rightarrow> Some data | Some d \<Rightarrow> Some d)"

definition header_name :: "u8 list \<Rightarrow> u8 list" where
  "header_name header =
     (let name = takeWhile (\<lambda>b. b \<noteq> 0) (take 100 header) in if utf8 name then name else [])"

definition octal_step :: "nat \<Rightarrow> u8 \<Rightarrow> nat" where
  "octal_step sz b = (if 48 \<le> b \<and> b \<le> 55 then sz * 8 + unat (b - 48) else sz)"

definition header_size :: "u8 list \<Rightarrow> nat" where
  "header_size header = foldl octal_step 0 (slice 124 11 header)"

definition clean_name :: "u8 list \<Rightarrow> u8 list" where
  "clean_name name = trim_start [47] (trim_start [46, 47] name)"

text \<open>The name after the last slash begins with \<open>._\<close>.\<close>

definition resource_fork :: "u8 list \<Rightarrow> bool" where
  "resource_fork name \<longleftrightarrow> take 2 (last (split_on 47 name)) = [46, 95]"

definition aligned512 :: "nat \<Rightarrow> nat" where "aligned512 sz = (sz + 511) div 512 * 512"

function scan_tar :: "u8 list \<Rightarrow> u8 list \<Rightarrow> nat \<Rightarrow> u8 list option" where
  "scan_tar data target offset =
     (if \<not> offset + 512 \<le> length data then None
      else
        let header = slice offset 512 data; sz = header_size header; start = offset + 512;
            name = clean_name (header_name header); regular = (header ! 156 = 48 \<or> header ! 156 = 0) in
        if list_all (\<lambda>b. b = 0) header then None
        else if regular \<and> \<not> resource_fork name \<and> name = target
          then (if length data < start + sz then None else Some (slice start sz data))
        else scan_tar data target (start + aligned512 sz))"
  by pat_completeness auto
termination by (relation "measure (\<lambda>(data, _, offset). length data - offset)") auto

declare scan_tar.simps [simp del]

definition kernel_initrd_lookup :: "u8 list option \<Rightarrow> u8 list \<Rightarrow> u8 list option" where
  "kernel_initrd_lookup st path =
     (case st of None \<Rightarrow> None | Some data \<Rightarrow> scan_tar data (trim_start [47] path) 0)"

section \<open>Archives\<close>

text \<open>The archive of a list of files, as \<open>tar\<close> writes it.\<close>

fun octal :: "nat \<Rightarrow> nat \<Rightarrow> u8 list" where
  "octal 0 n = []"
| "octal (Suc k) n = octal k (n div 8) @ [48 + of_nat (n mod 8)]"

definition tar_header :: "u8 list \<Rightarrow> nat \<Rightarrow> u8 list" where
  "tar_header name sz =
     name @ replicate (124 - length name) 0 @ octal 11 sz @ replicate 21 0 @ [48] @ replicate 355 0"

definition tar_entry :: "u8 list \<times> u8 list \<Rightarrow> u8 list" where
  "tar_entry f =
     (case f of (name, d) \<Rightarrow> tar_header name (length d) @ d @ replicate (aligned512 (length d) - length d) 0)"

definition tar :: "(u8 list \<times> u8 list) list \<Rightarrow> u8 list" where
  "tar files = concat (map tar_entry files) @ replicate 1024 0"

definition tar_ok :: "u8 list \<times> u8 list \<Rightarrow> bool" where
  "tar_ok f =
     (case f of (name, d) \<Rightarrow>
        name \<noteq> [] \<and> length name \<le> 100 \<and> 0 \<notin> set name \<and> utf8 name \<and> clean_name name = name \<and>
        \<not> resource_fork name \<and> length d < 8 ^ 11)"

lemma length_octal [simp]: "length (octal k n) = k"
  by (induction k n rule: octal.induct) simp_all

lemma octal_step_digit: "octal_step sz (48 + of_nat (n mod 8)) = sz * 8 + n mod 8"
proof -
  have "unat (of_nat (n mod 8) :: u8) = n mod 8" by (simp add: unat_of_nat)
  moreover have "unat (48 + of_nat (n mod 8) :: u8) = 48 + n mod 8" by (simp add: unat_word_ariths unat_of_nat)
  moreover have "n mod 8 \<le> 7" using mod_less_divisor [of 8 n] by linarith
  ultimately show ?thesis by (simp add: octal_step_def word_le_nat_alt)
qed

lemma parse_octal: "foldl octal_step a (octal k n) = a * 8 ^ k + n mod 8 ^ k"
proof (induction k n rule: octal.induct)
  case (2 k n)
  have "n mod 8 ^ Suc k = n div 8 mod 8 ^ k * 8 + n mod 8"
    by (simp add: mod_mult2_eq mult.commute)
  then show ?case using 2 by (simp add: octal_step_digit algebra_simps)
qed simp

lemma length_tar_header [simp]: "length name \<le> 100 \<Longrightarrow> length (tar_header name sz) = 512"
  by (simp add: tar_header_def)

lemma length_tar_entry: "length (fst f) \<le> 100 \<Longrightarrow> length (tar_entry f) = 512 + aligned512 (length (snd f))"
  by (cases f) (simp add: tar_entry_def aligned512_def)

lemma tar_header_fields:
  assumes "length name \<le> 100" "0 \<notin> set name" "utf8 name" "sz < 8 ^ 11"
  shows "header_name (tar_header name sz) = name" "header_size (tar_header name sz) = sz"
    "tar_header name sz ! 156 = 48"
proof -
  have "takeWhile (\<lambda>b. b \<noteq> 0) (take 100 (tar_header name sz)) = name"
    using assms(1,2) by (auto simp: tar_header_def takeWhile_append)
  then show "header_name (tar_header name sz) = name" using assms(3) by (simp add: header_name_def)
  have "slice 124 11 (tar_header name sz) = octal 11 sz" using assms(1) by (simp add: slice_def tar_header_def)
  then show "header_size (tar_header name sz) = sz" using assms(4) by (simp add: header_size_def parse_octal)
  have "tar_header name sz = (name @ replicate (124 - length name) 0 @ octal 11 sz @ replicate 21 0) @ 48 # replicate 355 0"
    by (simp add: tar_header_def)
  moreover have "length (name @ replicate (124 - length name) 0 @ octal 11 sz @ replicate 21 0) = 156"
    using assms(1) by simp
  ultimately show "tar_header name sz ! 156 = 48" by (metis nth_append_length)
qed

lemma scan_tar_files:
  assumes "list_all tar_ok files"
  shows "scan_tar (pre @ tar files) target (length pre) = map_of files target"
  using assms
proof (induction files arbitrary: pre)
  case Nil
  then show ?case by (subst scan_tar.simps) (simp add: tar_def slice_def Let_def list_all_iff)
next
  case (Cons f files)
  obtain name d where f: "f = (name, d)" by (cases f)
  let ?data = "pre @ tar (f # files)" and ?h = "tar_header name (length d)"
  have ok: "name \<noteq> []" "length name \<le> 100" "0 \<notin> set name" "utf8 name" "clean_name name = name"
    "\<not> resource_fork name" "length d < 8 ^ 11" using Cons.prems f by (simp_all add: tar_ok_def)
  note fields = tar_header_fields [OF ok(2,3,4,7)]
  have data: "?data = (pre @ tar_entry f) @ tar files" by (simp add: tar_def)
  have head: "slice (length pre) 512 ?data = ?h" using ok(2) by (simp add: slice_def tar_def tar_entry_def f)
  have body: "slice (length pre + 512) (length d) ?data = d" using ok(2) by (simp add: slice_def tar_def tar_entry_def f)
  have len: "length pre + 512 + length d \<le> length ?data" using ok(2) by (simp add: tar_def tar_entry_def f)
  have nz: "\<not> list_all (\<lambda>b. b = 0) ?h" by (simp add: tar_header_def)
  have skip: "length pre + 512 + aligned512 (length d) = length (pre @ tar_entry f)"
    using ok(2) by (simp add: length_tar_entry f)
  have rest: "scan_tar ?data target (length pre + 512 + aligned512 (length d)) = map_of files target"
    unfolding data skip by (rule Cons.IH) (use Cons.prems in simp)
  show ?case
    using len fields nz rest ok(5,6) by (subst scan_tar.simps) (simp add: head [unfolded f] body [unfolded f] f Let_def)
qed


lemma trim_start_stop: "take (length pat) s \<noteq> pat \<Longrightarrow> trim_start pat s = s"
  by (subst trim_start.simps) simp

lemma trim_start_step: "pat \<noteq> [] \<Longrightarrow> trim_start pat (pat @ s) = trim_start pat s"
  by (subst trim_start.simps) simp


end
