(* ===== verification/Journal.thy ===== *)
theory Journal
  imports Bytes
begin

text \<open>The block device and the write-ahead journal of the file system, \<open>user/vfs-server/src/blockio.rs\<close> and
  \<open>blockfs.rs\<close>.  The device is behind a driver process: it may refuse blocks, and it remembers the order of the
  writes it has done, from which the states that a crash can leave are defined.\<close>

section \<open>Constants\<close>

definition BLOCK_SIZE :: nat where "BLOCK_SIZE = 4096"
definition JOURNAL_HDR_BLK :: u32 where "JOURNAL_HDR_BLK = 35"
definition JOURNAL_DATA_BLK :: u32 where "JOURNAL_DATA_BLK = 36"
definition JOURNAL_SLOTS :: nat where "JOURNAL_SLOTS = 32"
definition JOURNAL_MAGIC :: u32 where "JOURNAL_MAGIC = 0x4F4A4C47"
definition DATA_START :: u32 where "DATA_START = 68"

definition crc_step :: "u32 \<Rightarrow> u32" where
  "crc_step crc = (if crc AND 1 \<noteq> 0 then drop_bit 1 crc XOR 0xEDB88320 else drop_bit 1 crc)"

definition crc32 :: "u8 list \<Rightarrow> u32" where
  "crc32 buf = NOT (fold (\<lambda>b crc. (crc_step ^^ 8) (crc XOR ucast b)) buf (- 1))"

definition zeros :: "u8 list" where "zeros = replicate BLOCK_SIZE 0"

section \<open>The device\<close>

record disk =
  blocks :: "u32 \<Rightarrow> u8 list"
  refused :: "u32 \<Rightarrow> bool"
  writes :: "(u32 \<times> u8 list) list"

definition read_block :: "u32 \<Rightarrow> disk \<Rightarrow> u8 list option" where
  "read_block blk d = (if refused d blk then None else Some (blocks d blk))"

definition write_block :: "u32 \<Rightarrow> u8 list \<Rightarrow> disk \<Rightarrow> bool \<times> disk" where
  "write_block blk buf d =
     (if refused d blk then (False, d)
      else (True, d\<lparr>blocks := (blocks d)(blk := buf), writes := writes d @ [(blk, buf)]\<rparr>))"

fun write_blocks :: "(u32 \<times> u8 list) list \<Rightarrow> disk \<Rightarrow> bool \<times> disk" where
  "write_blocks [] d = (True, d)"
| "write_blocks ((blk, buf) # es) d =
     (case write_block blk buf d of
        (True, d1) \<Rightarrow> write_blocks es d1
      | (False, d1) \<Rightarrow> (False, d1))"

section \<open>The journal\<close>

text \<open>The CRC that a header with these fields carries.\<close>

definition hdr_crc :: "u32 \<Rightarrow> u32 \<Rightarrow> u32 \<Rightarrow> u32" where
  "hdr_crc magic n committed = crc32 (le32_bytes magic @ le32_bytes n @ le32_bytes committed)"

definition replay_slot :: "u8 list \<Rightarrow> nat \<Rightarrow> disk \<Rightarrow> disk" where
  "replay_slot hdr i d =
     (let target = u32_le hdr (16 + i * 4) in
      if target = 0 then d
      else case read_block (JOURNAL_DATA_BLK + of_nat i) d of
             None \<Rightarrow> d
           | Some data \<Rightarrow> snd (write_block target data d))"

definition clear_header :: "u8 list" where
  "clear_header = splice 0 (le32_bytes JOURNAL_MAGIC) zeros"

definition journal_replay :: "disk \<Rightarrow> disk" where
  "journal_replay d =
     (case read_block JOURNAL_HDR_BLK d of
        None \<Rightarrow> d
      | Some hdr \<Rightarrow>
          let n = unat (u32_le hdr 4) in
          if u32_le hdr 0 \<noteq> JOURNAL_MAGIC \<or> u32_le hdr 8 \<noteq> 1 \<or> n = 0 \<or> JOURNAL_SLOTS < n then d
          else if hdr_crc (u32_le hdr 0) (of_nat n) 1 \<noteq> u32_le hdr 12 then d
          else snd (write_block JOURNAL_HDR_BLK clear_header (fold (replay_slot hdr) [0..<n] d)))"

fun put_targets :: "nat \<Rightarrow> (u32 \<times> u8 list) list \<Rightarrow> u8 list \<Rightarrow> u8 list" where
  "put_targets i [] hdr = hdr"
| "put_targets i ((target, _) # es) hdr = put_targets (i + 1) es (splice (16 + i * 4) (le32_bytes target) hdr)"

definition prepared_header :: "(u32 \<times> u8 list) list \<Rightarrow> u8 list" where
  "prepared_header es =
     (let n = of_nat (length es)
      in put_targets 0 es
           (splice 12 (le32_bytes (hdr_crc JOURNAL_MAGIC n 0))
             (splice 8 (le32_bytes 0) (splice 4 (le32_bytes n) (splice 0 (le32_bytes JOURNAL_MAGIC) zeros)))))"

definition committed_header :: "(u32 \<times> u8 list) list \<Rightarrow> u8 list" where
  "committed_header es =
     splice 12 (le32_bytes (hdr_crc JOURNAL_MAGIC (of_nat (length es)) 1)) (splice 8 (le32_bytes 1) (prepared_header es))"

definition journal_slots :: "(u32 \<times> u8 list) list \<Rightarrow> (u32 \<times> u8 list) list" where
  "journal_slots es = map (\<lambda>(i, _, data). (JOURNAL_DATA_BLK + of_nat i, data)) (enumerate 0 es)"

text \<open>The transaction: the new contents of blocks, in order of their number.\<close>

definition commit_entries :: "(u32 \<times> u8 list) list \<Rightarrow> disk \<Rightarrow> bool \<times> disk" where
  "commit_entries es d =
     (case write_blocks (journal_slots es) d of
        (False, d1) \<Rightarrow> (False, d1)
      | (True, d1) \<Rightarrow>
          (case write_block JOURNAL_HDR_BLK (prepared_header es) d1 of
             (False, d2) \<Rightarrow> (False, d2)
           | (True, d2) \<Rightarrow>
               (case write_block JOURNAL_HDR_BLK (committed_header es) d2 of
                  (False, d3) \<Rightarrow> (False, d3)
                | (True, d3) \<Rightarrow>
                    (case write_blocks es d3 of
                       (False, d4) \<Rightarrow> (False, d4)
                     | (True, d4) \<Rightarrow> (True, snd (write_block JOURNAL_HDR_BLK clear_header d4))))))"

section \<open>Crashes\<close>

definition apply_writes :: "(u32 \<times> u8 list) list \<Rightarrow> disk \<Rightarrow> disk" where
  "apply_writes ws d = fold (\<lambda>(blk, buf) d. snd (write_block blk buf d)) ws d"

text \<open>The disk after the first \<open>k\<close> of the writes that lead from \<open>d\<close> to \<open>d'\<close>.\<close>

definition crash_after :: "nat \<Rightarrow> disk \<Rightarrow> disk \<Rightarrow> disk" where
  "crash_after k d d' = apply_writes (take k (drop (length (writes d)) (writes d'))) d"

definition journal_area :: "u32 \<Rightarrow> bool" where
  "journal_area blk \<longleftrightarrow> JOURNAL_HDR_BLK \<le> blk \<and> blk < DATA_START"

text \<open>A transaction that the journal can hold.\<close>

definition entries_ok :: "(u32 \<times> u8 list) list \<Rightarrow> bool" where
  "entries_ok es \<longleftrightarrow> es \<noteq> [] \<and> length es \<le> JOURNAL_SLOTS \<and> distinct (map fst es)
     \<and> list_all (\<lambda>(t, _). t \<noteq> 0 \<and> \<not> journal_area t) es"

definition idle :: "disk \<Rightarrow> bool" where
  "idle d \<longleftrightarrow> u32_le (blocks d JOURNAL_HDR_BLK) 8 \<noteq> 1"

definition same_outside :: "(u32 \<Rightarrow> u8 list) \<Rightarrow> (u32 \<Rightarrow> u8 list) \<Rightarrow> bool" where
  "same_outside f g \<longleftrightarrow> (\<forall>b. \<not> journal_area b \<longrightarrow> f b = g b)"

section \<open>Headers\<close>

lemma length_zeros [simp]: "length zeros = 4096"
  by (simp add: zeros_def BLOCK_SIZE_def)

lemma length_put_targets: "16 + (i + length es) * 4 \<le> length hdr \<Longrightarrow> length (put_targets i es hdr) = length hdr"
  by (induction i es hdr rule: put_targets.induct) auto

lemma put_targets_low:
  "k + 4 \<le> 16 + i * 4 \<Longrightarrow> 16 + (i + length es) * 4 \<le> length hdr \<Longrightarrow> u32_le (put_targets i es hdr) k = u32_le hdr k"
  by (induction i es hdr rule: put_targets.induct) (auto simp: u32_le_splice_other)

lemma put_targets_at:
  "j < length es \<Longrightarrow> 16 + (i + length es) * 4 \<le> length hdr \<Longrightarrow>
     u32_le (put_targets i es hdr) (16 + (i + j) * 4) = fst (es ! j)"
proof (induction i es hdr arbitrary: j rule: put_targets.induct)
  case (2 i t data es hdr)
  show ?case
  proof (cases j)
    case 0
    then show ?thesis using 2(3) by (simp add: put_targets_low u32_le_splice)
  next
    case (Suc k)
    then show ?thesis using "2.IH" [of k] 2(2,3) by simp
  qed
qed simp

lemma prepared_fields:
  assumes "length es \<le> JOURNAL_SLOTS"
  shows "length (prepared_header es) = 4096" "u32_le (prepared_header es) 0 = JOURNAL_MAGIC"
    "u32_le (prepared_header es) 4 = of_nat (length es)" "u32_le (prepared_header es) 8 = 0"
    "\<And>j. j < length es \<Longrightarrow> u32_le (prepared_header es) (16 + j * 4) = fst (es ! j)"
  using assms put_targets_at [of _ es 0]
  by (simp_all add: prepared_header_def Let_def JOURNAL_SLOTS_def length_put_targets put_targets_low u32_le_splice u32_le_splice_other)

lemma committed_fields:
  assumes "length es \<le> JOURNAL_SLOTS"
  shows "u32_le (committed_header es) 0 = JOURNAL_MAGIC" "u32_le (committed_header es) 4 = of_nat (length es)"
    "u32_le (committed_header es) 8 = 1" "u32_le (committed_header es) 12 = hdr_crc JOURNAL_MAGIC (of_nat (length es)) 1"
    "\<And>j. j < length es \<Longrightarrow> u32_le (committed_header es) (16 + j * 4) = fst (es ! j)"
  using prepared_fields [OF assms] assms
  by (simp_all add: committed_header_def JOURNAL_SLOTS_def u32_le_splice u32_le_splice_other)

lemma u32_le_zeros: "i + 4 \<le> BLOCK_SIZE \<Longrightarrow> u32_le zeros i = 0"
  unfolding u32_le_def zeros_def by (simp add: le32_def)

lemma clear_field: "u32_le clear_header 8 = 0"
  by (simp add: clear_header_def u32_le_splice_other u32_le_zeros BLOCK_SIZE_def)

section \<open>Writes\<close>

text \<open>The contents after the writes \<open>es\<close>, each to another block.\<close>

definition updated :: "(u32 \<times> u8 list) list \<Rightarrow> (u32 \<Rightarrow> u8 list) \<Rightarrow> u32 \<Rightarrow> u8 list" where
  "updated es f b = (case map_of es b of Some x \<Rightarrow> x | None \<Rightarrow> f b)"

definition sound :: "disk \<Rightarrow> bool" where
  "sound d \<longleftrightarrow> (\<forall>b. \<not> refused d b)"

lemma write_block_sound [simp]:
  "sound d \<Longrightarrow> fst (write_block b x d)" "sound d \<Longrightarrow> blocks (snd (write_block b x d)) = (blocks d)(b := x)"
  "sound d \<Longrightarrow> sound (snd (write_block b x d))" "sound d \<Longrightarrow> writes (snd (write_block b x d)) = writes d @ [(b, x)]"
  by (simp_all add: write_block_def sound_def)

lemma apply_writes_simps [simp]:
  "apply_writes [] d = d" "apply_writes ((b, x) # ws) d = apply_writes ws (snd (write_block b x d))"
  "apply_writes (us @ ws) d = apply_writes ws (apply_writes us d)"
  by (simp_all add: apply_writes_def)

lemma apply_writes_sound [simp]: "sound d \<Longrightarrow> sound (apply_writes ws d)"
  by (induction ws arbitrary: d) auto

lemma writes_apply [simp]: "sound d \<Longrightarrow> writes (apply_writes ws d) = writes d @ ws"
  by (induction ws arbitrary: d) auto

lemma blocks_apply_other: "sound d \<Longrightarrow> b \<notin> fst ` set ws \<Longrightarrow> blocks (apply_writes ws d) b = blocks d b"
  by (induction ws arbitrary: d) auto

lemma blocks_apply:
  "sound d \<Longrightarrow> distinct (map fst ws) \<Longrightarrow> blocks (apply_writes ws d) = updated ws (blocks d)"
proof (induction ws arbitrary: d)
  case (Cons w ws)
  obtain b x where w: "w = (b, x)" by fastforce
  then have "b \<notin> fst ` set ws" using Cons.prems(2) by auto
  then have "map_of ws b = None" by (simp add: map_of_eq_None_iff)
  then show ?case using Cons w by (auto simp: updated_def fun_eq_iff split: option.split)
qed (simp add: updated_def fun_eq_iff)

lemma write_block_True: "sound d \<Longrightarrow> write_block b x d = (True, snd (write_block b x d))"
  using write_block_sound(1) [of d b x] by (cases "write_block b x d") simp

lemma write_blocks_sound: "sound d \<Longrightarrow> write_blocks ws d = (True, apply_writes ws d)"
proof (induction ws arbitrary: d)
  case (Cons w ws)
  obtain b x where w: "w = (b, x)" by fastforce
  show ?case unfolding w write_blocks.simps by (subst write_block_True [OF Cons.prems]) (simp add: Cons)
qed simp

definition commit_writes :: "(u32 \<times> u8 list) list \<Rightarrow> (u32 \<times> u8 list) list" where
  "commit_writes es = journal_slots es @ [(JOURNAL_HDR_BLK, prepared_header es), (JOURNAL_HDR_BLK, committed_header es)]
     @ es @ [(JOURNAL_HDR_BLK, clear_header)]"

lemma commit_entries_sound:
  assumes "sound d"
  shows "commit_entries es d = (True, apply_writes (commit_writes es) d)"
proof -
  define d1 where "d1 = apply_writes (journal_slots es) d"
  define d2 where "d2 = snd (write_block JOURNAL_HDR_BLK (prepared_header es) d1)"
  define d3 where "d3 = snd (write_block JOURNAL_HDR_BLK (committed_header es) d2)"
  have s: "sound d1" "sound d2" "sound d3" using assms by (simp_all add: d1_def d2_def d3_def)
  have w: "write_blocks (journal_slots es) d = (True, d1)" "write_block JOURNAL_HDR_BLK (prepared_header es) d1 = (True, d2)"
    "write_block JOURNAL_HDR_BLK (committed_header es) d2 = (True, d3)" "write_blocks es d3 = (True, apply_writes es d3)"
    unfolding d1_def d2_def d3_def
    by (rule write_blocks_sound write_block_True; use s assms in \<open>simp add: d1_def d2_def d3_def\<close>)+
  have "apply_writes (commit_writes es) d = snd (write_block JOURNAL_HDR_BLK clear_header (apply_writes es d3))"
    by (simp add: commit_writes_def d1_def d2_def d3_def)
  then show ?thesis by (simp add: commit_entries_def w)
qed

lemma crash_after_commit:
  "sound d \<Longrightarrow> crash_after k d (snd (commit_entries es d)) = apply_writes (take k (commit_writes es)) d"
  by (simp add: crash_after_def commit_entries_sound)

section \<open>Replay\<close>

lemma replay_idle: "sound d \<Longrightarrow> u32_le (blocks d JOURNAL_HDR_BLK) 8 \<noteq> 1 \<Longrightarrow> journal_replay d = d"
  by (simp add: journal_replay_def read_block_def sound_def Let_def)

lemma slot_in_area: "i < 32 \<Longrightarrow> journal_area (JOURNAL_DATA_BLK + of_nat i)"
  by (simp add: journal_area_def JOURNAL_DATA_BLK_def JOURNAL_HDR_BLK_def DATA_START_def word_le_nat_alt word_less_nat_alt
      unat_word_ariths unat_of_nat)

text \<open>Replaying slots whose targets are \<open>es\<close> writes \<open>es\<close>.\<close>

lemma replay_slots:
  assumes "sound d" "length es \<le> 32"
    and "\<And>j. j < length es \<Longrightarrow> u32_le hdr (16 + j * 4) = fst (es ! j)"
    and "\<And>j. j < length es \<Longrightarrow> blocks d (JOURNAL_DATA_BLK + of_nat j) = snd (es ! j)"
    and "list_all (\<lambda>(t, _). t \<noteq> 0 \<and> \<not> journal_area t) es"
  shows "n \<le> length es \<Longrightarrow> fold (replay_slot hdr) [0..<n] d = apply_writes (take n es) d"
proof (induction n)
  case (Suc n)
  define e where "e = apply_writes (take n es) d"
  obtain t x where tx: "es ! n = (t, x)" by fastforce
  have "(t, x) \<in> set es" using Suc.prems tx by (metis nth_mem Suc_le_eq)
  then have t: "t \<noteq> 0" "\<not> journal_area t" using assms(5) by (auto simp: list_all_iff)
  have "JOURNAL_DATA_BLK + of_nat n \<notin> fst ` set (take n es)"
    using slot_in_area [of n] assms(2,5) Suc.prems by (auto simp: list_all_iff dest!: in_set_takeD)
  then have "blocks e (JOURNAL_DATA_BLK + of_nat n) = x"
    using blocks_apply_other [OF assms(1)] assms(4) [of n] Suc.prems tx by (simp add: e_def)
  moreover have "sound e" using assms(1) by (simp add: e_def)
  ultimately have "replay_slot hdr n e = snd (write_block t x e)"
    using assms(3) [of n] Suc.prems tx t by (simp add: replay_slot_def read_block_def sound_def)
  then show ?case using Suc tx by (simp add: take_Suc_conv_app_nth e_def)
qed simp

lemma replay_committed:
  assumes "sound d" "entries_ok es" "blocks d JOURNAL_HDR_BLK = committed_header es"
    and "\<And>j. j < length es \<Longrightarrow> blocks d (JOURNAL_DATA_BLK + of_nat j) = snd (es ! j)"
  shows "same_outside (blocks (journal_replay d)) (updated es (blocks d))"
proof -
  have n: "length es \<le> JOURNAL_SLOTS" "0 < length es" "distinct (map fst es)"
    "list_all (\<lambda>(t, _). t \<noteq> 0 \<and> \<not> journal_area t) es"
    using assms(2) by (auto simp: entries_ok_def)
  note h = committed_fields [OF n(1)]
  have u: "unat (of_nat (length es) :: u32) = length es" using n(1) by (simp add: JOURNAL_SLOTS_def unat_of_nat)
  have "fold (replay_slot (committed_header es)) [0..<length es] d = apply_writes es d"
    using replay_slots [OF assms(1) _ h(5) assms(4) n(4)] n(1) by (simp add: JOURNAL_SLOTS_def)
  then have "journal_replay d = snd (write_block JOURNAL_HDR_BLK clear_header (apply_writes es d))"
    using assms(1,3) h n u by (simp add: journal_replay_def read_block_def sound_def Let_def)
  then show ?thesis
    using assms(1) n(3) by (auto simp: same_outside_def blocks_apply journal_area_def JOURNAL_HDR_BLK_def DATA_START_def)
qed

section \<open>The writes of a commit\<close>

lemma length_journal_slots [simp]: "length (journal_slots es) = length es"
  by (simp add: journal_slots_def)

lemma nth_journal_slots: "i < length es \<Longrightarrow> journal_slots es ! i = (JOURNAL_DATA_BLK + of_nat i, snd (es ! i))"
  by (simp add: journal_slots_def nth_enumerate_eq case_prod_beta)

lemma slots_in_area:
  assumes "length es \<le> JOURNAL_SLOTS" "w \<in> set (take k (journal_slots es))"
  shows "journal_area (fst w)" "fst w \<noteq> JOURNAL_HDR_BLK"
proof -
  obtain i where i: "i < length es" "w = journal_slots es ! i"
    using assms(2) by (auto simp: in_set_conv_nth dest!: in_set_takeD)
  then have "i < 32" using assms(1) by (simp add: JOURNAL_SLOTS_def)
  then show "journal_area (fst w)" "fst w \<noteq> JOURNAL_HDR_BLK"
    using slot_in_area i
    by (auto simp: nth_journal_slots JOURNAL_DATA_BLK_def JOURNAL_HDR_BLK_def unat_word_ariths unat_of_nat
        dest!: arg_cong [where f = unat])
qed

lemma distinct_slots: "length es \<le> JOURNAL_SLOTS \<Longrightarrow> distinct (map fst (journal_slots es))"
proof -
  assume n: "length es \<le> JOURNAL_SLOTS"
  have "i = j" if "i < length es" "j < length es" "JOURNAL_DATA_BLK + of_nat i = JOURNAL_DATA_BLK + of_nat j" for i j
  proof -
    have "unat (of_nat i :: u32) = unat (of_nat j :: u32)"
      using that(3) by simp
    then show "i = j" using that(1,2) n by (simp add: unat_of_nat JOURNAL_SLOTS_def)
  qed
  then show ?thesis by (auto simp: distinct_conv_nth nth_journal_slots)
qed

lemma slot_written:
  assumes "sound d" "length es \<le> JOURNAL_SLOTS" "j < length es"
  shows "blocks (apply_writes (journal_slots es) d) (JOURNAL_DATA_BLK + of_nat j) = snd (es ! j)"
proof -
  have "(JOURNAL_DATA_BLK + of_nat j, snd (es ! j)) \<in> set (journal_slots es)"
    using assms(3) nth_journal_slots [OF assms(3)] by (metis length_journal_slots nth_mem)
  then have "map_of (journal_slots es) (JOURNAL_DATA_BLK + of_nat j) = Some (snd (es ! j))"
    using distinct_slots [OF assms(2)] by simp
  then show ?thesis using blocks_apply [OF assms(1) distinct_slots [OF assms(2)]] by (simp add: updated_def)
qed

lemma updated_prefix: "distinct (map fst es) \<Longrightarrow> updated es (updated (take m es) f) = updated es f"
proof -
  have "map_of es b = None \<Longrightarrow> map_of (take m es) b = None" for b
    by (auto simp: map_of_eq_None_iff dest!: in_set_takeD)
  then show ?thesis by (auto simp: updated_def fun_eq_iff split: option.split)
qed

lemma crash_early:
  assumes "sound d" "idle d" "length es \<le> JOURNAL_SLOTS" "k \<le> length es"
  shows "same_outside (blocks (journal_replay (apply_writes (take k (journal_slots es)) d))) (blocks d)"
proof -
  let ?e = "apply_writes (take k (journal_slots es)) d"
  have hdr: "JOURNAL_HDR_BLK \<notin> fst ` set (take k (journal_slots es))"
    using slots_in_area(2) [OF assms(3)] by (metis imageE)
  have out: "b \<notin> fst ` set (take k (journal_slots es))" if "\<not> journal_area b" for b
    using slots_in_area(1) [OF assms(3)] that by (metis imageE)
  have "journal_replay ?e = ?e"
    using assms(1,2) blocks_apply_other [OF assms(1) hdr] by (intro replay_idle) (simp_all add: idle_def)
  then show ?thesis using blocks_apply_other [OF assms(1) out] by (simp add: same_outside_def)
qed

text \<open>The disk with the journal written and the commit mark set: the three steps that precede the writes in place.\<close>

definition marked :: "(u32 \<times> u8 list) list \<Rightarrow> disk \<Rightarrow> disk" where
  "marked es d = apply_writes (journal_slots es @ [(JOURNAL_HDR_BLK, prepared_header es), (JOURNAL_HDR_BLK, committed_header es)]) d"

lemma header_in_area [simp]: "journal_area JOURNAL_HDR_BLK"
  by (simp add: journal_area_def JOURNAL_HDR_BLK_def DATA_START_def)

lemma marked_facts:
  assumes "sound d" "length es \<le> JOURNAL_SLOTS"
  shows "sound (marked es d)" "blocks (marked es d) JOURNAL_HDR_BLK = committed_header es"
    "same_outside (blocks (marked es d)) (blocks d)"
    "\<And>j. j < length es \<Longrightarrow> blocks (marked es d) (JOURNAL_DATA_BLK + of_nat j) = snd (es ! j)"
proof -
  show "sound (marked es d)" "blocks (marked es d) JOURNAL_HDR_BLK = committed_header es"
    using assms(1) by (simp_all add: marked_def)
  have out: "b \<notin> fst ` set (journal_slots es)" if "\<not> journal_area b" for b
    using slots_in_area(1) [OF assms(2), of _ "length es"] that by (metis imageE length_journal_slots take_all_iff order_refl)
  show "same_outside (blocks (marked es d)) (blocks d)"
    using assms(1) blocks_apply_other [OF assms(1) out] header_in_area by (auto simp: same_outside_def marked_def)
  show "blocks (marked es d) (JOURNAL_DATA_BLK + of_nat j) = snd (es ! j)" if "j < length es" for j
  proof -
    have "(JOURNAL_DATA_BLK + of_nat j, snd (es ! j)) \<in> set (take (length es) (journal_slots es))"
      using that nth_journal_slots [OF that] by (metis length_journal_slots nth_mem order_refl take_all)
    then have "JOURNAL_DATA_BLK + of_nat j \<noteq> JOURNAL_HDR_BLK" using slots_in_area(2) [OF assms(2)] by fastforce
    then show ?thesis using slot_written [OF assms that] assms(1) by (simp add: marked_def)
  qed
qed

lemma crash_prepared:
  assumes "sound d" "length es \<le> JOURNAL_SLOTS"
  defines "e \<equiv> snd (write_block JOURNAL_HDR_BLK (prepared_header es) (apply_writes (journal_slots es) d))"
  shows "same_outside (blocks (journal_replay e)) (blocks d)"
proof -
  have "journal_replay e = e" using assms prepared_fields(4) [OF assms(2)] by (intro replay_idle) simp_all
  moreover have "same_outside (blocks e) (blocks (marked es d))"
    using assms(1) header_in_area by (auto simp: same_outside_def marked_def e_def)
  ultimately show ?thesis using marked_facts(3) [OF assms(1,2)] by (simp add: same_outside_def)
qed

lemma crash_in_place:
  assumes "sound d" "entries_ok es"
  shows "same_outside (blocks (journal_replay (apply_writes (take m es) (marked es d)))) (updated es (blocks d))"
proof -
  let ?e = "apply_writes (take m es) (marked es d)"
  have n: "length es \<le> JOURNAL_SLOTS" "distinct (map fst es)" "list_all (\<lambda>(t, _). t \<noteq> 0 \<and> \<not> journal_area t) es"
    using assms(2) by (auto simp: entries_ok_def)
  note mk = marked_facts [OF assms(1) n(1)]
  have out: "b \<notin> fst ` set (take m es)" if "journal_area b" for b
    using n(3) that by (auto simp: list_all_iff dest!: in_set_takeD)
  have dist: "distinct (map fst (take m es))" using n(2) by (simp add: distinct_take flip: take_map)
  have slot: "blocks ?e (JOURNAL_DATA_BLK + of_nat j) = snd (es ! j)" if "j < length es" for j
    using blocks_apply_other [OF mk(1) out] slot_in_area [of j] that n(1) mk(4) by (simp add: JOURNAL_SLOTS_def)
  have "same_outside (blocks (journal_replay ?e)) (updated es (blocks ?e))"
    using mk blocks_apply_other [OF mk(1) out] assms(2) slot by (intro replay_committed) simp_all
  then show ?thesis
    using mk(3) updated_prefix [OF n(2), of m] unfolding blocks_apply [OF mk(1) dist]
    by (simp add: same_outside_def updated_def split: option.split)
qed

lemma crash_late:
  assumes "sound d" "entries_ok es"
  defines "e \<equiv> apply_writes (commit_writes es) d"
  shows "journal_replay e = e" "same_outside (blocks e) (updated es (blocks d))" "sound e" "idle e"
proof -
  have n: "length es \<le> JOURNAL_SLOTS" "distinct (map fst es)" using assms(2) by (auto simp: entries_ok_def)
  note mk = marked_facts [OF assms(1) n(1)]
  have e: "e = snd (write_block JOURNAL_HDR_BLK clear_header (apply_writes es (marked es d)))"
    by (simp add: e_def commit_writes_def marked_def)
  show "sound e" "idle e" using mk(1) clear_field by (simp_all add: e idle_def)
  then show "journal_replay e = e" by (intro replay_idle) (simp_all add: idle_def)
  show "same_outside (blocks e) (updated es (blocks d))"
    using mk(3) header_in_area by (auto simp: e mk(1) same_outside_def updated_def blocks_apply [OF mk(1) n(2)]
        split: option.split)
qed

lemma take_commit_writes:
  "k = length es + 1 \<Longrightarrow> apply_writes (take k (commit_writes es)) d =
     snd (write_block JOURNAL_HDR_BLK (prepared_header es) (apply_writes (journal_slots es) d))"
  "k = length es + 2 + m \<Longrightarrow> m \<le> length es \<Longrightarrow>
     apply_writes (take k (commit_writes es)) d = apply_writes (take m es) (marked es d)"
  "2 * length es + 2 < k \<Longrightarrow> take k (commit_writes es) = commit_writes es"
  "k \<le> length es \<Longrightarrow> take k (commit_writes es) = take k (journal_slots es)"
  by (simp_all add: commit_writes_def marked_def)

section \<open>Crash atomicity\<close>

lemma commit_crash:
  fixes k :: nat
  assumes "sound d" "idle d" "entries_ok es"
  shows "fst (commit_entries es d)
    \<and> same_outside (blocks (journal_replay (crash_after k d (snd (commit_entries es d)))))
        (if k < length es + 2 then blocks d else updated es (blocks d))"
proof -
  have n: "length es \<le> JOURNAL_SLOTS" using assms(3) by (simp add: entries_ok_def)
  have "k \<le> length es \<or> k = length es + 1 \<or> (\<exists>m. k = length es + 2 + m \<and> m \<le> length es) \<or> 2 * length es + 2 < k"
    by presburger
  then consider "k \<le> length es" | "k = length es + 1" | m where "k = length es + 2 + m" "m \<le> length es" | "2 * length es + 2 < k"
    by blast
  then have "same_outside (blocks (journal_replay (apply_writes (take k (commit_writes es)) d)))
      (if k < length es + 2 then blocks d else updated es (blocks d))"
  proof cases
    case 1
    then show ?thesis using crash_early [OF assms(1,2) n 1] by (simp add: take_commit_writes(4))
  next
    case 2
    then show ?thesis using crash_prepared [OF assms(1) n] by (simp add: take_commit_writes(1))
  next
    case 3
    then show ?thesis using crash_in_place [OF assms(1,3)] by (simp add: take_commit_writes(2))
  next
    case 4
    then show ?thesis using crash_late [OF assms(1,3)] by (simp add: take_commit_writes(3))
  qed
  then show ?thesis unfolding crash_after_commit [OF assms(1)] by (simp add: commit_entries_sound assms(1))
qed

text \<open>C17: The commit of a transaction that the journal can hold is atomic at the write of the commit mark:
  it succeeds, and a crash after any number \<open>k\<close> of its device writes, followed by the replay at the
  next mount, leaves every block outside the journal as it was before the transaction if the mark was
  not written yet, and as the transaction leaves it from then on.\<close>

theorem crash_atomic:
  fixes k :: nat
  assumes "sound d" "idle d" "entries_ok es"
  shows "fst (commit_entries es d)
    \<and> same_outside (blocks (journal_replay (crash_after k d (snd (commit_entries es d)))))
        (if k < length es + 2 then blocks d else updated es (blocks d))"
  by (rule commit_crash [OF assms])

definition blank_disk :: disk where
  "blank_disk = \<lparr>blocks = (\<lambda>_. zeros), refused = (\<lambda>_. False), writes = []\<rparr>"

lemma blank_disk_ok: "sound blank_disk" "idle blank_disk"
  by (simp_all add: blank_disk_def sound_def idle_def u32_le_zeros BLOCK_SIZE_def)

lemma crash_atomic_witness:
  "sound blank_disk \<and> idle blank_disk \<and> entries_ok [(100, [1, 2]), (2, [3])]
   \<and> same_outside (blocks (journal_replay (crash_after 5 blank_disk (snd (commit_entries [(100, [1, 2]), (2, [3])] blank_disk)))))
       (updated [(100, [1, 2]), (2, [3])] (blocks blank_disk))"
proof -
  have ok: "entries_ok [(100, [1, 2]), (2, [3])]"
    by (simp add: entries_ok_def JOURNAL_SLOTS_def journal_area_def JOURNAL_HDR_BLK_def DATA_START_def)
  show ?thesis using crash_atomic [OF blank_disk_ok ok, of 5] blank_disk_ok ok by simp
qed

end
