(* ===== verification/Blockfs.thy ===== *)
theory Blockfs
  imports Journal
begin

text \<open>The file system of the file server, \<open>user/vfs-server/src/blockfs.rs\<close>: transactions over the journal of
  \<open>Journal\<close>, bitmaps, inodes and their cache, the map from file offsets to blocks, directories and files.  An
  operation is a \<open>kmon\<close> over the state \<open>OfsState\<close>; \<open>None\<close> of the source is \<open>Err none\<close>, an \<open>FsError\<close> is
  \<open>Err\<close> with its name.\<close>

section \<open>Constants and state\<close>

definition OFS_MAGIC :: u32 where "OFS_MAGIC = 0x4F564653"
definition OFS_VERSION :: u32 where "OFS_VERSION = 3"
definition MAX_INODES :: nat where "MAX_INODES = 1024"
definition INODE_SIZE :: nat where "INODE_SIZE = 128"
definition INODES_PER_BLOCK :: nat where "INODES_PER_BLOCK = 32"
definition DIRENTRY_SIZE :: nat where "DIRENTRY_SIZE = 64"
definition DIRENTRIES_PER_BLOCK :: nat where "DIRENTRIES_PER_BLOCK = 64"
definition BLOCK_BITMAP_BLK :: u32 where "BLOCK_BITMAP_BLK = 1"
definition INODE_BITMAP_BLK :: u32 where "INODE_BITMAP_BLK = 2"
definition INODE_TABLE_START :: u32 where "INODE_TABLE_START = 3"
definition INODE_TABLE_BLOCKS :: u32 where "INODE_TABLE_BLOCKS = 32"
definition ITYPE_FILE :: u8 where "ITYPE_FILE = 1"
definition ITYPE_DIR :: u8 where "ITYPE_DIR = 2"
definition ITYPE_SYMLINK :: u8 where "ITYPE_SYMLINK = 3"
definition ITYPE_DIR_ENTRY :: u8 where "ITYPE_DIR_ENTRY = 2"
definition ROOT_INODE :: u32 where "ROOT_INODE = 0"
definition INODE_CACHE_SIZE :: nat where "INODE_CACHE_SIZE = 32"
definition SUPERBLOCK_CRC_OFF :: nat where "SUPERBLOCK_CRC_OFF = 12"

lemmas fs_consts =
  MAX_INODES_def INODE_SIZE_def INODES_PER_BLOCK_def DIRENTRY_SIZE_def DIRENTRIES_PER_BLOCK_def BLOCK_BITMAP_BLK_def
  INODE_BITMAP_BLK_def INODE_TABLE_START_def INODE_TABLE_BLOCKS_def ITYPE_FILE_def ITYPE_DIR_def ITYPE_SYMLINK_def
  ITYPE_DIR_ENTRY_def ROOT_INODE_def INODE_CACHE_SIZE_def BLOCK_SIZE_def DATA_START_def

record raw_inode =
  itype :: u8
  ipad :: "u8 list"
  isize :: u32
  nlink :: u32
  used_blocks :: u32
  direct :: "u32 list"
  indirect :: u32
  double_indirect :: u32
  reserved :: "u32 list"

record inode_cache =
  entries :: "(u32 \<times> raw_inode option) list"
  generation :: u64

record ofs =
  dev :: disk
  total_blocks :: u32
  pending :: "(u32 \<times> u8 list) list"
  cache :: inode_cache

section \<open>Inode cache\<close>

definition InodeCache_new :: inode_cache where
  "InodeCache_new = \<lparr>entries = replicate INODE_CACHE_SIZE (0, None), generation = 1\<rparr>"

definition cache_get :: "u32 \<Rightarrow> inode_cache \<Rightarrow> raw_inode option" where
  "cache_get ino c = (case find (\<lambda>(k, _). k = ino) (entries c) of Some (_, v) \<Rightarrow> v | None \<Rightarrow> None)"

definition cache_insert :: "u32 \<Rightarrow> raw_inode \<Rightarrow> inode_cache \<Rightarrow> inode_cache" where
  "cache_insert ino inode c =
     \<lparr>entries = (entries c)[unat (generation c) mod INODE_CACHE_SIZE := (ino, Some inode)],
      generation = generation c + 1\<rparr>"

fun invalidate_entries :: "u32 \<Rightarrow> (u32 \<times> raw_inode option) list \<Rightarrow> (u32 \<times> raw_inode option) list" where
  "invalidate_entries ino [] = []"
| "invalidate_entries ino ((k, v) # es) =
     (if k = ino then (k, None) # es else (k, v) # invalidate_entries ino es)"

definition invalidate :: "u32 \<Rightarrow> inode_cache \<Rightarrow> inode_cache" where
  "invalidate ino c = c\<lparr>entries := invalidate_entries ino (entries c)\<rparr>"

section \<open>Blocks and transactions\<close>

definition write_blk :: "u32 \<Rightarrow> u8 list \<Rightarrow> (ofs, bool) kmon" where
  "write_blk blk buf s = (Ok True, s\<lparr>pending := bt_insert blk buf (pending s)\<rparr>)"

text \<open>The contents of a block as the file system sees it.\<close>

definition view :: "ofs \<Rightarrow> u32 \<Rightarrow> u8 list option" where
  "view s blk = (case map_of (pending s) blk of Some data \<Rightarrow> Some data | None \<Rightarrow> read_block blk (dev s))"

text \<open>\<open>if !self.read_blk(blk, &mut buf) { return e; }\<close>\<close>

definition read_blk :: "string \<Rightarrow> u32 \<Rightarrow> (ofs, u8 list) kmon" where
  "read_blk e blk s = (case view s blk of Some data \<Rightarrow> (Ok data, s) | None \<Rightarrow> (Err e, s))"

definition commit_txn :: "(ofs, bool) kmon" where
  "commit_txn s =
     (if pending s = [] then (Ok True, s)
      else if JOURNAL_SLOTS < length (pending s) then (Ok False, s)
      else case commit_entries (pending s) (dev s) of
             (True, d) \<Rightarrow> (Ok True, s\<lparr>dev := d, pending := []\<rparr>)
           | (False, d) \<Rightarrow> (Ok False, s\<lparr>dev := d\<rparr>))"

definition fsync :: "(ofs, bool) kmon" where
  "fsync = commit_txn"

section \<open>Bitmaps\<close>

definition bit_at :: "u8 list \<Rightarrow> nat \<Rightarrow> bool" where
  "bit_at buf i = bit (buf ! (i div 8)) (i mod 8)"

definition put_bit :: "nat \<Rightarrow> bool \<Rightarrow> u8 list \<Rightarrow> u8 list" where
  "put_bit i value buf =
     buf[i div 8 := (if value then buf ! (i div 8) OR push_bit (i mod 8) 1
                     else buf ! (i div 8) AND NOT (push_bit (i mod 8) 1))]"

definition bitmap_set :: "u32 \<Rightarrow> nat \<Rightarrow> bool \<Rightarrow> (ofs, unit) kmon" where
  "bitmap_set bitmap_blk i value s =
     (case view s bitmap_blk of
        None \<Rightarrow> (Ok (), s)
      | Some buf \<Rightarrow>
          if BLOCK_SIZE \<le> i div 8 then (Panic out_of_bounds, s)
          else bindK (write_blk bitmap_blk (put_bit i value buf)) (\<lambda>_. retK ()) s)"

fun bitmap_scan :: "u8 list \<Rightarrow> nat list \<Rightarrow> nat rr" where
  "bitmap_scan buf [] = Err none"
| "bitmap_scan buf (i # is) =
     (if BLOCK_SIZE \<le> i div 8 then Panic out_of_bounds
      else if buf ! (i div 8) AND push_bit (i mod 8) 1 = 0 then Ok i
      else bitmap_scan buf is)"

definition bitmap_alloc :: "u32 \<Rightarrow> nat \<Rightarrow> nat \<Rightarrow> (ofs, nat) kmon" where
  "bitmap_alloc bitmap_blk start limit =
     bindK (read_blk none bitmap_blk) (\<lambda>buf s.
       case bitmap_scan buf [start..<limit] of
         Ok i \<Rightarrow> bindK (write_blk bitmap_blk (put_bit i True buf)) (\<lambda>_. retK i) s
       | Err e \<Rightarrow> (Err e, s)
       | Panic e \<Rightarrow> (Panic e, s))"

section \<open>Inodes\<close>

definition raw_inode_read :: "u8 list \<Rightarrow> raw_inode" where
  "raw_inode_read buf =
     \<lparr>itype = buf ! 0, ipad = slice 1 3 buf, isize = u32_le buf 4, nlink = u32_le buf 8, used_blocks = u32_le buf 12,
      direct = map (\<lambda>i. u32_le buf (16 + i * 4)) [0..<12], indirect = u32_le buf 64,
      double_indirect = u32_le buf 68, reserved = map (\<lambda>i. u32_le buf (72 + i * 4)) [0..<14]\<rparr>"

text \<open>\<open>for i in 0..ws.len() { buf[off + i * 4..off + i * 4 + 4].copy_from_slice(&ws[i].to_le_bytes()); }\<close>\<close>

fun put_words :: "nat \<Rightarrow> u32 list \<Rightarrow> u8 list \<Rightarrow> u8 list" where
  "put_words off [] buf = buf"
| "put_words off (w # ws) buf = put_words (off + 4) ws (splice off (le32_bytes w) buf)"

definition raw_inode_write :: "raw_inode \<Rightarrow> u8 list \<Rightarrow> u8 list" where
  "raw_inode_write inode buf =
     put_words 72 (reserved inode)
       (splice 68 (le32_bytes (double_indirect inode))
         (splice 64 (le32_bytes (indirect inode))
           (put_words 16 (direct inode)
             (splice 12 (le32_bytes (used_blocks inode))
               (splice 8 (le32_bytes (nlink inode))
                 (splice 4 (le32_bytes (isize inode))
                   (splice 1 (ipad inode) (buf[0 := itype inode]))))))))"

definition inode_blk :: "u32 \<Rightarrow> u32" where
  "inode_blk ino = INODE_TABLE_START + ino div of_nat INODES_PER_BLOCK"

definition inode_off :: "u32 \<Rightarrow> nat" where
  "inode_off ino = (unat ino mod INODES_PER_BLOCK) * INODE_SIZE"

definition read_inode :: "u32 \<Rightarrow> (ofs, raw_inode) kmon" where
  "read_inode ino s =
     (if MAX_INODES \<le> unat ino then (Err none, s)
      else case cache_get ino (cache s) of
             Some cached \<Rightarrow> (Ok cached, s)
           | None \<Rightarrow>
               bindK (read_blk none (inode_blk ino)) (\<lambda>buf s.
                 let inode = raw_inode_read (slice (inode_off ino) INODE_SIZE buf)
                 in (Ok inode, s\<lparr>cache := cache_insert ino inode (cache s)\<rparr>)) s)"

definition write_inode :: "u32 \<Rightarrow> raw_inode \<Rightarrow> (ofs, bool) kmon" where
  "write_inode ino inode s =
     (if MAX_INODES \<le> unat ino then (Ok False, s)
      else
        let s1 = s\<lparr>cache := invalidate ino (cache s)\<rparr>
        in case view s1 (inode_blk ino) of
             None \<Rightarrow> (Ok False, s1)
           | Some buf \<Rightarrow>
               write_blk (inode_blk ino)
                 (splice (inode_off ino) (raw_inode_write inode (slice (inode_off ino) INODE_SIZE buf)) buf) s1)"

definition alloc_block :: "(ofs, u32) kmon" where
  "alloc_block s =
     bindK (bitmap_alloc BLOCK_BITMAP_BLK (unat DATA_START) (unat (total_blocks s))) (\<lambda>b. retK (of_nat b)) s"

definition free_block :: "u32 \<Rightarrow> (ofs, unit) kmon" where
  "free_block blk = (if DATA_START \<le> blk then bitmap_set BLOCK_BITMAP_BLK (unat blk) False else retK ())"

fun free_indirect_blocks :: "nat \<Rightarrow> u32 \<Rightarrow> (ofs, unit) kmon" where
  "free_indirect_blocks 0 blk = (if blk = 0 then retK () else free_block blk)"
| "free_indirect_blocks (Suc depth) blk =
     (if blk = 0 then retK ()
      else (\<lambda>s. case view s blk of
        None \<Rightarrow> (Ok (), s)
      | Some ib_buf \<Rightarrow>
          bindK
            (forK [0..<BLOCK_SIZE div 4]
              (\<lambda>i. let b = u32_le ib_buf (i * 4) in if b \<noteq> 0 then free_indirect_blocks depth b else retK ()))
            (\<lambda>_. free_block blk) s))"

definition alloc_inode :: "(ofs, u32) kmon" where
  "alloc_inode = bindK (bitmap_alloc INODE_BITMAP_BLK 1 MAX_INODES) (\<lambda>i. retK (of_nat i))"

definition free_inode :: "u32 \<Rightarrow> (ofs, unit) kmon" where
  "free_inode ino s = bitmap_set INODE_BITMAP_BLK (unat ino) False (s\<lparr>cache := invalidate ino (cache s)\<rparr>)"

section \<open>File blocks\<close>

text \<open>A zeroed block; and \<open>inode.used_blocks += 1; self.write_inode(ino, inode)\<close>, whose result is not looked at.\<close>

definition new_block :: "(ofs, u32) kmon" where
  "new_block = bindK alloc_block (\<lambda>b. bindK (write_blk b zeros) (\<lambda>_. retK b))"

definition charge_block :: "u32 \<Rightarrow> raw_inode \<Rightarrow> (ofs, raw_inode) kmon" where
  "charge_block ino inode =
     (if used_blocks inode = - 1 then panicK overflow
      else let inode1 = inode\<lparr>used_blocks := used_blocks inode + 1\<rparr>
           in bindK (write_inode ino inode1) (\<lambda>_. retK inode1))"

text \<open>Entry \<open>i\<close> of the pointer block \<open>ib\<close>, filled in if it is empty and \<open>alloc\<close> is set.\<close>

definition pointer_slot :: "u32 \<Rightarrow> raw_inode \<Rightarrow> u32 \<Rightarrow> nat \<Rightarrow> bool \<Rightarrow> (ofs, u32 \<times> raw_inode) kmon" where
  "pointer_slot ino inode ib i alloc =
     bindK (read_blk none ib) (\<lambda>ib_buf.
       let blk = u32_le ib_buf (i * 4) in
       if blk \<noteq> 0 then retK (blk, inode)
       else if \<not> alloc then errK none
       else bindK new_block (\<lambda>nb.
         bindK (write_blk ib (splice (i * 4) (le32_bytes nb) ib_buf)) (\<lambda>_.
           bindK (charge_block ino inode) (\<lambda>inode1. retK (nb, inode1)))))"

text \<open>The block that a field of the inode points to, filled in likewise.\<close>

definition root_slot ::
  "u32 \<Rightarrow> raw_inode \<Rightarrow> u32 \<Rightarrow> (u32 \<Rightarrow> raw_inode \<Rightarrow> raw_inode) \<Rightarrow> bool \<Rightarrow> (ofs, u32 \<times> raw_inode) kmon" where
  "root_slot ino inode blk set_field alloc =
     (if blk \<noteq> 0 then retK (blk, inode)
      else if \<not> alloc then errK none
      else bindK new_block (\<lambda>nb.
        bindK (charge_block ino (set_field nb inode)) (\<lambda>inode1. retK (nb, inode1))))"

definition set_direct :: "nat \<Rightarrow> u32 \<Rightarrow> raw_inode \<Rightarrow> raw_inode" where
  "set_direct i b inode = inode\<lparr>direct := (direct inode)[i := b]\<rparr>"

definition set_indirect :: "u32 \<Rightarrow> raw_inode \<Rightarrow> raw_inode" where
  "set_indirect b inode = inode\<lparr>indirect := b\<rparr>"

definition set_double_indirect :: "u32 \<Rightarrow> raw_inode \<Rightarrow> raw_inode" where
  "set_double_indirect b inode = inode\<lparr>double_indirect := b\<rparr>"

definition nptrs :: nat where "nptrs = BLOCK_SIZE div 4"

definition get_file_block :: "raw_inode \<Rightarrow> u32 \<Rightarrow> u32 \<Rightarrow> bool \<Rightarrow> (ofs, u32 \<times> raw_inode) kmon" where
  "get_file_block inode ino idx alloc =
     (if idx < 12 then root_slot ino inode (direct inode ! unat idx) (set_direct (unat idx)) alloc
      else
        let i = unat (idx - 12) in
        if i < nptrs then
          bindK (root_slot ino inode (indirect inode) set_indirect alloc) (\<lambda>(ib, inode1).
            pointer_slot ino inode1 ib i alloc)
        else
          let j = i - nptrs; outer = j div nptrs; inner = j mod nptrs in
          if nptrs \<le> outer then errK none
          else
            bindK (root_slot ino inode (double_indirect inode) set_double_indirect alloc) (\<lambda>(dib, inode1).
              bindK (pointer_slot ino inode1 dib outer alloc) (\<lambda>(ib, inode2).
                pointer_slot ino inode2 ib inner alloc)))"

section \<open>Directory entries\<close>

definition dirent_read :: "u8 list \<Rightarrow> nat \<Rightarrow> u32 \<times> u8 \<times> u8 \<times> nat" where
  "dirent_read buf byte_off = (u32_le buf byte_off, buf ! (byte_off + 4), buf ! (byte_off + 5), byte_off + 8)"

definition dirent_write :: "nat \<Rightarrow> u32 \<Rightarrow> u8 list \<Rightarrow> u8 \<Rightarrow> u8 list \<Rightarrow> u8 list" where
  "dirent_write byte_off ino name etype buf =
     splice (byte_off + 8) name
       ((splice byte_off (le32_bytes ino) buf)[byte_off + 4 := of_nat (length name), byte_off + 5 := etype])"

definition dirent_name :: "u8 list \<Rightarrow> nat \<Rightarrow> nat \<Rightarrow> u8 list rr" where
  "dirent_name buf byte_off name_len =
     (if BLOCK_SIZE < byte_off + 8 + name_len then Panic out_of_bounds else Ok (slice (byte_off + 8) name_len buf))"

definition dirent_name_eq :: "u8 list \<Rightarrow> nat \<Rightarrow> nat \<Rightarrow> u8 list \<Rightarrow> bool rr" where
  "dirent_name_eq buf byte_off name_len name =
     (if name_len \<noteq> length name then Ok False
      else if BLOCK_SIZE < byte_off + 8 + name_len then Panic out_of_bounds
      else Ok (slice (byte_off + 8) name_len buf = name))"

definition dirent_clear :: "nat \<Rightarrow> u8 list \<Rightarrow> u8 list" where
  "dirent_clear byte_off buf = splice byte_off (replicate DIRENTRY_SIZE 0) buf"

definition div_ceil :: "nat \<Rightarrow> nat \<Rightarrow> nat" where
  "div_ceil a b = (a + b - 1) div b"

section \<open>Directories\<close>

text \<open>The slots of a block are tried in order until one ends the search (\<open>Ok (Some r)\<close>); \<open>seen\<close> counts the
  entries passed so far.\<close>

fun lookup_slots :: "u8 list \<Rightarrow> nat \<Rightarrow> u8 list \<Rightarrow> nat list \<Rightarrow> nat \<Rightarrow> (u32 \<times> u8) option option rr" where
  "lookup_slots buf n_entries name [] seen = Ok None"
| "lookup_slots buf n_entries name (slot # slots) seen =
     (if n_entries \<le> seen then Ok (Some None)
      else
        let (ino, name_len, etype, _) = dirent_read buf (slot * DIRENTRY_SIZE) in
        if name_len = 0 then lookup_slots buf n_entries name slots (seen + 1)
        else case dirent_name_eq buf (slot * DIRENTRY_SIZE) (unat name_len) name of
               Ok True \<Rightarrow> Ok (Some (Some (ino, etype)))
             | Ok False \<Rightarrow> lookup_slots buf n_entries name slots (seen + 1)
             | Err e \<Rightarrow> Err e
             | Panic e \<Rightarrow> Panic e)"

function lookup_blocks :: "raw_inode \<Rightarrow> u32 \<Rightarrow> u8 list \<Rightarrow> nat \<Rightarrow> nat \<Rightarrow> (ofs, u32 \<times> u8) kmon" where
  "lookup_blocks inode dir_ino name block_idx seen s =
     (if unat (isize inode) \<le> block_idx * BLOCK_SIZE then (Err none, s)
      else
        bindK (get_file_block inode dir_ino (of_nat block_idx) False) (\<lambda>(blk, _).
          bindK (read_blk none blk) (\<lambda>buf s1.
            case lookup_slots buf (div_ceil (unat (isize inode)) DIRENTRY_SIZE) name [0..<DIRENTRIES_PER_BLOCK] seen of
              Ok (Some (Some e)) \<Rightarrow> (Ok e, s1)
            | Ok (Some None) \<Rightarrow> (Err none, s1)
            | Ok None \<Rightarrow> lookup_blocks inode dir_ino name (block_idx + 1) (seen + DIRENTRIES_PER_BLOCK) s1
            | Err e \<Rightarrow> (Err e, s1)
            | Panic e \<Rightarrow> (Panic e, s1))) s)"
  by pat_completeness auto
termination
  by (relation "measure (\<lambda>(inode, _, _, i, _, _). unat (isize inode) - i * BLOCK_SIZE)") (auto simp: BLOCK_SIZE_def)

definition dir_lookup_inode :: "u32 \<Rightarrow> u8 list \<Rightarrow> (ofs, u32 \<times> u8) kmon" where
  "dir_lookup_inode dir_ino name =
     bindK (read_inode dir_ino) (\<lambda>inode.
       if itype inode \<noteq> ITYPE_DIR then errK none
       else if 55 < length name then errK none
       else lookup_blocks inode dir_ino name 0 0)"

text \<open>\<open>path.trim_matches('/')\<close>, then the components between slashes; empty ones are passed over.\<close>

fun walk_path :: "u8 list list \<Rightarrow> u32 \<Rightarrow> u8 \<Rightarrow> (ofs, u32 \<times> u8) kmon" where
  "walk_path [] cur_ino cur_type = retK (cur_ino, cur_type)"
| "walk_path (c # cs) cur_ino cur_type =
     (if c = [] then walk_path cs cur_ino cur_type
      else if cur_type \<noteq> ITYPE_DIR_ENTRY then errK none
      else bindK (dir_lookup_inode cur_ino c) (\<lambda>(next_ino, next_type). walk_path cs next_ino next_type))"

definition lookup_path :: "u8 list \<Rightarrow> (ofs, u32 \<times> u8) kmon" where
  "lookup_path path =
     (let p = trim_matches SLASH path in
      if p = [] then retK (ROOT_INODE, ITYPE_DIR_ENTRY)
      else walk_path (split_on SLASH p) ROOT_INODE ITYPE_DIR_ENTRY)"

text \<open>The link count of a parent directory after a subdirectory was added or removed.\<close>

definition bump_parent :: "u32 \<Rightarrow> u8 \<Rightarrow> (u32 \<Rightarrow> u32) \<Rightarrow> (ofs, unit) kmon" where
  "bump_parent dir_ino etype f s =
     (if etype = ITYPE_DIR_ENTRY \<or> etype = 2 then
        (case read_inode dir_ino s of
           (Ok parent, s1) \<Rightarrow> bindK (write_inode dir_ino (parent\<lparr>nlink := f (nlink parent)\<rparr>)) (\<lambda>_. retK ()) s1
         | (Err _, s1) \<Rightarrow> (Ok (), s1)
         | (Panic e, s1) \<Rightarrow> (Panic e, s1))
      else (Ok (), s))"

text \<open>The first free slot of a block among those that the directory covers.\<close>

fun free_slot :: "u8 list \<Rightarrow> nat \<Rightarrow> nat \<Rightarrow> nat list \<Rightarrow> nat option" where
  "free_slot buf n_entries coverage [] = None"
| "free_slot buf n_entries coverage (slot # slots) =
     (if n_entries \<le> coverage + slot then None
      else let (_, name_len, _, _) = dirent_read buf (slot * DIRENTRY_SIZE)
           in if name_len = 0 then Some slot else free_slot buf n_entries coverage slots)"

text \<open>\<open>inode.size\<close> grows to the end of an entry.\<close>

definition grow_dir :: "u32 \<Rightarrow> nat \<Rightarrow> raw_inode \<Rightarrow> (ofs, unit) kmon" where
  "grow_dir dir_ino new_size inode =
     (if unat (isize inode) < new_size then bindK (write_inode dir_ino (inode\<lparr>isize := of_nat new_size\<rparr>)) (\<lambda>_. retK ())
      else retK ())"

definition fill_slot :: "u32 \<Rightarrow> raw_inode \<Rightarrow> u32 \<Rightarrow> u8 list \<Rightarrow> nat \<Rightarrow> nat \<Rightarrow> u8 list \<Rightarrow> u32 \<Rightarrow> u8 \<Rightarrow> (ofs, bool) kmon" where
  "fill_slot dir_ino inode blk buf coverage slot name child_ino etype =
     bindK (write_blk blk (dirent_write (slot * DIRENTRY_SIZE) child_ino name etype buf)) (\<lambda>_.
       bindK (grow_dir dir_ino ((coverage + slot + 1) * DIRENTRY_SIZE) inode) (\<lambda>_.
         bindK (bump_parent dir_ino etype (\<lambda>n. saturating_add n 1)) (\<lambda>_. commit_txn)))"

definition append_entry :: "u32 \<Rightarrow> raw_inode \<Rightarrow> u8 list \<Rightarrow> u32 \<Rightarrow> u8 \<Rightarrow> (ofs, bool) kmon" where
  "append_entry dir_ino inode name child_ino etype s =
     (let next_block_idx = div_ceil (unat (isize inode)) BLOCK_SIZE in
      case get_file_block inode dir_ino (of_nat next_block_idx) True s of
        (Err _, s1) \<Rightarrow> (Ok False, s1)
      | (Panic e, s1) \<Rightarrow> (Panic e, s1)
      | (Ok (blk, inode1), s1) \<Rightarrow>
          if blk = 0 then (Ok False, s1)
          else bindK (write_blk blk (dirent_write 0 child_ino name etype zeros)) (\<lambda>_.
                 bindK (grow_dir dir_ino ((next_block_idx * DIRENTRIES_PER_BLOCK + 1) * DIRENTRY_SIZE) inode1) (\<lambda>_.
                   bindK (bump_parent dir_ino etype (\<lambda>n. saturating_add n 1)) (\<lambda>_. commit_txn))) s1)"

text \<open>The search for a free slot.  A block that the device refuses is tried again and again: the result is \<open>None\<close>
  when the loop does not end.\<close>

partial_function (option) add_in_blocks ::
  "u32 \<Rightarrow> raw_inode \<Rightarrow> u8 list \<Rightarrow> u32 \<Rightarrow> u8 \<Rightarrow> nat \<Rightarrow> ofs \<Rightarrow> (bool rr \<times> ofs) option" where
  "add_in_blocks dir_ino inode name child_ino etype block_idx s =
     (let coverage = block_idx * DIRENTRIES_PER_BLOCK; n_entries = div_ceil (unat (isize inode)) DIRENTRY_SIZE in
      if n_entries \<le> coverage then Some (append_entry dir_ino inode name child_ino etype s)
      else case get_file_block inode dir_ino (of_nat block_idx) False s of
             (Panic e, s1) \<Rightarrow> Some (Panic e, s1)
           | (Err _, s1) \<Rightarrow> add_in_blocks dir_ino inode name child_ino etype (block_idx + 1) s1
           | (Ok (blk, _), s1) \<Rightarrow>
               (case view s1 blk of
                  None \<Rightarrow> add_in_blocks dir_ino inode name child_ino etype block_idx s1
                | Some buf \<Rightarrow>
                    (case free_slot buf n_entries coverage [0..<DIRENTRIES_PER_BLOCK] of
                       Some slot \<Rightarrow> Some (fill_slot dir_ino inode blk buf coverage slot name child_ino etype s1)
                     | None \<Rightarrow> add_in_blocks dir_ino inode name child_ino etype (block_idx + 1) s1)))"

definition dir_add_entry :: "u32 \<Rightarrow> u8 list \<Rightarrow> u32 \<Rightarrow> u8 \<Rightarrow> ofs \<Rightarrow> (bool rr \<times> ofs) option" where
  "dir_add_entry dir_ino name child_ino etype s =
     (case read_inode dir_ino s of
        (Panic e, s1) \<Rightarrow> Some (Panic e, s1)
      | (Err _, s1) \<Rightarrow> Some (Ok False, s1)
      | (Ok inode, s1) \<Rightarrow>
          if itype inode \<noteq> ITYPE_DIR then Some (Ok False, s1)
          else if 55 < length name then Some (Ok False, s1)
          else add_in_blocks dir_ino inode name child_ino etype 0 s1)"

definition dir_link_entry :: "u32 \<Rightarrow> u8 list \<Rightarrow> u32 \<Rightarrow> u8 \<Rightarrow> ofs \<Rightarrow> (bool rr \<times> ofs) option" where
  "dir_link_entry dir_ino name child_ino etype s =
     (case read_inode child_ino s of
        (Panic e, s1) \<Rightarrow> Some (Panic e, s1)
      | (Err _, s1) \<Rightarrow> Some (Ok False, s1)
      | (Ok child0, s1) \<Rightarrow>
          let child = child0\<lparr>nlink := saturating_add (nlink child0) 1\<rparr> in
          case write_inode child_ino child s1 of
            (_, s2) \<Rightarrow>
              (case dir_add_entry dir_ino name child_ino etype s2 of
                 None \<Rightarrow> None
               | Some (Ok True, s3) \<Rightarrow> Some (Ok True, s3)
               | Some (Ok False, s3) \<Rightarrow>
                   Some (Ok False, snd (write_inode child_ino (child\<lparr>nlink := saturating_sub (nlink child) 1\<rparr>) s3))
               | Some (Err e, s3) \<Rightarrow> Some (Err e, s3)
               | Some (Panic e, s3) \<Rightarrow> Some (Panic e, s3)))"

definition init_dir :: "u32 \<Rightarrow> u32 \<Rightarrow> (ofs, bool) kmon" where
  "init_dir ino parent_ino s =
     (case read_inode ino s of
        (Panic e, s1) \<Rightarrow> (Panic e, s1)
      | (Err _, s1) \<Rightarrow> (Ok False, s1)
      | (Ok inode, s1) \<Rightarrow>
          if itype inode \<noteq> ITYPE_DIR then (Ok False, s1)
          else case alloc_block s1 of
                 (Panic e, s2) \<Rightarrow> (Panic e, s2)
               | (Err _, s2) \<Rightarrow> (Ok False, s2)
               | (Ok blk, s2) \<Rightarrow>
                   bindK (write_blk blk (dirent_write DIRENTRY_SIZE parent_ino [46, 46] ITYPE_DIR_ENTRY
                                          (dirent_write 0 ino [46] ITYPE_DIR_ENTRY zeros))) (\<lambda>_.
                     bindK (write_inode ino (inode\<lparr>direct := (direct inode)[0 := blk], isize := 128, nlink := 2, used_blocks := 1\<rparr>)) (\<lambda>_.
                       bindK commit_txn (\<lambda>_. retK True))) s2)"

fun readall_slots :: "u8 list \<Rightarrow> nat \<Rightarrow> nat list \<Rightarrow> nat \<Rightarrow> (u8 list \<times> u32 \<times> u8) list rr" where
  "readall_slots buf n_entries [] seen = Ok []"
| "readall_slots buf n_entries (slot # slots) seen =
     (if n_entries \<le> seen then Ok []
      else
        let (ino, name_len, etype, _) = dirent_read buf (slot * DIRENTRY_SIZE) in
        if name_len = 0 then readall_slots buf n_entries slots (seen + 1)
        else case dirent_name buf (slot * DIRENTRY_SIZE) (unat name_len) of
               Err e \<Rightarrow> Err e
             | Panic e \<Rightarrow> Panic e
             | Ok name \<Rightarrow>
                 (case readall_slots buf n_entries slots (seen + 1) of
                    Ok es \<Rightarrow> Ok (if utf8 name then (name, ino, etype) # es else es)
                  | Err e \<Rightarrow> Err e
                  | Panic e \<Rightarrow> Panic e))"

function readall_blocks ::
  "raw_inode \<Rightarrow> u32 \<Rightarrow> nat \<Rightarrow> nat \<Rightarrow> (u8 list \<times> u32 \<times> u8) list \<Rightarrow> (ofs, (u8 list \<times> u32 \<times> u8) list) kmon" where
  "readall_blocks inode dir_ino block_idx seen result s =
     (if unat (isize inode) \<le> block_idx * BLOCK_SIZE then (Ok result, s)
      else case get_file_block inode dir_ino (of_nat block_idx) False s of
        (Panic e, s1) \<Rightarrow> (Panic e, s1)
      | (Err _, s1) \<Rightarrow> (Ok result, s1)
      | (Ok (blk, _), s1) \<Rightarrow>
          (case view s1 blk of
             None \<Rightarrow> (Ok result, s1)
           | Some buf \<Rightarrow>
               let n_entries = div_ceil (unat (isize inode)) DIRENTRY_SIZE in
               (case readall_slots buf n_entries [0..<DIRENTRIES_PER_BLOCK] seen of
                  Ok es \<Rightarrow> readall_blocks inode dir_ino (block_idx + 1) (min n_entries (seen + DIRENTRIES_PER_BLOCK)) (result @ es) s1
                | Err e \<Rightarrow> (Err e, s1)
                | Panic e \<Rightarrow> (Panic e, s1))))"
  by pat_completeness auto
termination
  by (relation "measure (\<lambda>(inode, _, i, _, _, _). unat (isize inode) - i * BLOCK_SIZE)") (auto simp: BLOCK_SIZE_def)

definition dir_readall :: "u32 \<Rightarrow> (ofs, (u8 list \<times> u32 \<times> u8) list) kmon" where
  "dir_readall dir_ino s =
     (case read_inode dir_ino s of
        (Panic e, s1) \<Rightarrow> (Panic e, s1)
      | (Err _, s1) \<Rightarrow> (Ok [], s1)
      | (Ok inode, s1) \<Rightarrow>
          if itype inode \<noteq> ITYPE_DIR then (Ok [], s1) else readall_blocks inode dir_ino 0 0 [] s1)"

section \<open>Files\<close>

text \<open>\<open>ok_or(e)\<close>: an operation without a result fails with \<open>e\<close>.\<close>

definition or_err :: "string \<Rightarrow> (ofs, 'a) kmon \<Rightarrow> (ofs, 'a) kmon" where
  "or_err e m s = (case m s of (Err _, s1) \<Rightarrow> (Err e, s1) | r \<Rightarrow> r)"

text \<open>The bytes that \<open>file_read\<close> stores in its buffer; \<open>len\<close> is what remains to be read at \<open>pos\<close>.\<close>

function read_chunks :: "raw_inode \<Rightarrow> u32 \<Rightarrow> nat \<Rightarrow> nat \<Rightarrow> (ofs, u8 list) kmon" where
  "read_chunks inode ino pos len =
     (if len = 0 then retK []
      else
        let block_off = pos mod BLOCK_SIZE; chunk = min len (BLOCK_SIZE - block_off) in
        bindK (or_err ''MissingBlock'' (get_file_block inode ino (of_nat (pos div BLOCK_SIZE)) False)) (\<lambda>(blk, inode1).
          bindK (read_blk ''BlockRead'' blk) (\<lambda>blk_buf.
            bindK (read_chunks inode1 ino (pos + chunk) (len - chunk)) (\<lambda>rest.
              retK (slice block_off chunk blk_buf @ rest)))))"
  by pat_completeness auto
termination
  by (relation "measure (\<lambda>(_, _, _, len). len)") (auto simp: BLOCK_SIZE_def)

definition is_file :: "raw_inode \<Rightarrow> bool" where
  "is_file inode \<longleftrightarrow> itype inode = ITYPE_FILE \<or> itype inode = ITYPE_SYMLINK"

definition file_read :: "u32 \<Rightarrow> usize \<Rightarrow> nat \<Rightarrow> (ofs, u8 list) kmon" where
  "file_read ino offset buf_len =
     bindK (or_err ''BadInode'' (read_inode ino)) (\<lambda>inode.
       if \<not> is_file inode then errK ''NotFile''
       else if unat (isize inode) \<le> unat offset then retK []
       else read_chunks inode ino (unat offset) (min (unat (isize inode) - unat offset) buf_len))"

function write_chunks :: "raw_inode \<Rightarrow> u32 \<Rightarrow> nat \<Rightarrow> u8 list \<Rightarrow> (ofs, raw_inode) kmon" where
  "write_chunks inode ino pos data =
     (if data = [] then retK inode
      else
        let block_off = pos mod BLOCK_SIZE; chunk = min (length data) (BLOCK_SIZE - block_off) in
        bindK (or_err ''NoSpace'' (get_file_block inode ino (of_nat (pos div BLOCK_SIZE)) True)) (\<lambda>(blk, inode1).
          bindK (if block_off \<noteq> 0 \<or> chunk < BLOCK_SIZE then read_blk ''BlockRead'' blk else retK zeros) (\<lambda>blk_buf.
            bindK (write_blk blk (splice block_off (take chunk data) blk_buf)) (\<lambda>written.
              if \<not> written then errK ''BlockWrite''
              else write_chunks inode1 ino (pos + chunk) (drop chunk data)))))"
  by pat_completeness auto
termination
  by (relation "measure (\<lambda>(_, _, _, data). length data)") (auto simp: BLOCK_SIZE_def)

definition file_write :: "u32 \<Rightarrow> usize \<Rightarrow> u8 list \<Rightarrow> (ofs, nat) kmon" where
  "file_write ino offset data =
     bindK (or_err ''BadInode'' (read_inode ino)) (\<lambda>inode.
       if \<not> is_file inode then errK ''NotFile''
       else if 2 ^ 64 \<le> unat offset + length data then panicK overflow
       else
         bindK (write_chunks inode ino (unat offset) data) (\<lambda>inode1.
           bindK
             (if unat (isize inode1) < unat offset + length data
              then write_inode ino (inode1\<lparr>isize := of_nat (unat offset + length data)\<rparr>) else retK True) (\<lambda>_.
             bindK commit_txn (\<lambda>_. retK (length data)))))"

definition file_truncate :: "u32 \<Rightarrow> (ofs, unit) kmon" where
  "file_truncate ino s =
     (case read_inode ino s of
        (Panic e, s1) \<Rightarrow> (Panic e, s1)
      | (Err _, s1) \<Rightarrow> (Ok (), s1)
      | (Ok inode, s1) \<Rightarrow>
          bindK (forK (filter (\<lambda>b. b \<noteq> 0) (direct inode)) free_block) (\<lambda>_.
            bindK (if indirect inode \<noteq> 0 then free_indirect_blocks 1 (indirect inode) else retK ()) (\<lambda>_.
              bindK (if double_indirect inode \<noteq> 0 then free_indirect_blocks 2 (double_indirect inode) else retK ()) (\<lambda>_.
                bindK (write_inode ino
                    (inode\<lparr>direct := replicate 12 0, indirect := 0, double_indirect := 0, isize := 0, used_blocks := 0\<rparr>)) (\<lambda>_.
                  bindK commit_txn (\<lambda>_. retK ()))))) s1)"

section \<open>Removing an entry\<close>

definition RawInode_default :: raw_inode where
  "RawInode_default =
     \<lparr>itype = 0, ipad = [0, 0, 0], isize = 0, nlink = 0, used_blocks = 0, direct = replicate 12 0, indirect = 0,
      double_indirect = 0, reserved = replicate 14 0\<rparr>"

definition drop_link :: "u32 \<Rightarrow> (ofs, unit) kmon" where
  "drop_link child_ino s =
     (let (r, s1) = read_inode child_ino s;
          child0 = (case r of Ok c \<Rightarrow> c | _ \<Rightarrow> RawInode_default);
          child = (if 0 < nlink child0 then child0\<lparr>nlink := nlink child0 - 1\<rparr> else child0)
      in if nlink child = 0 then bindK (file_truncate child_ino) (\<lambda>_. free_inode child_ino) s1
         else bindK (write_inode child_ino child) (\<lambda>_. retK ()) s1)"

definition unlink_slot :: "u32 \<Rightarrow> u32 \<Rightarrow> u8 list \<Rightarrow> nat \<Rightarrow> u32 \<Rightarrow> u8 \<Rightarrow> (ofs, bool) kmon" where
  "unlink_slot dir_ino blk buf slot child_ino etype =
     bindK (drop_link child_ino) (\<lambda>_.
       bindK (bump_parent dir_ino etype (\<lambda>n. if 0 < n then n - 1 else n)) (\<lambda>_.
         bindK (write_blk blk (dirent_clear (slot * DIRENTRY_SIZE) buf)) (\<lambda>_.
           bindK commit_txn (\<lambda>_. retK True))))"

fun unlink_find :: "u8 list \<Rightarrow> nat \<Rightarrow> u8 list \<Rightarrow> nat list \<Rightarrow> nat \<Rightarrow> (nat \<times> u32 \<times> u8) option rr" where
  "unlink_find buf n_entries name [] seen = Ok None"
| "unlink_find buf n_entries name (slot # slots) seen =
     (if n_entries \<le> seen then Ok None
      else
        let (ino, name_len, etype, _) = dirent_read buf (slot * DIRENTRY_SIZE) in
        if name_len = 0 then unlink_find buf n_entries name slots (seen + 1)
        else case dirent_name_eq buf (slot * DIRENTRY_SIZE) (unat name_len) name of
               Ok True \<Rightarrow> Ok (Some (slot, ino, etype))
             | Ok False \<Rightarrow> unlink_find buf n_entries name slots (seen + 1)
             | Err e \<Rightarrow> Err e
             | Panic e \<Rightarrow> Panic e)"

function unlink_blocks :: "raw_inode \<Rightarrow> u32 \<Rightarrow> u8 list \<Rightarrow> nat \<Rightarrow> nat \<Rightarrow> (ofs, bool) kmon" where
  "unlink_blocks inode dir_ino name block_idx seen s =
     (let n_entries = div_ceil (unat (isize inode)) DIRENTRY_SIZE in
      if n_entries \<le> block_idx * DIRENTRIES_PER_BLOCK then (Ok False, s)
      else case get_file_block inode dir_ino (of_nat block_idx) False s of
        (Panic e, s1) \<Rightarrow> (Panic e, s1)
      | (Err _, s1) \<Rightarrow> (Ok False, s1)
      | (Ok (blk, _), s1) \<Rightarrow>
          (case view s1 blk of
             None \<Rightarrow> (Ok False, s1)
           | Some buf \<Rightarrow>
               (case unlink_find buf n_entries name [0..<DIRENTRIES_PER_BLOCK] seen of
                  Ok (Some (slot, child_ino, etype)) \<Rightarrow> unlink_slot dir_ino blk buf slot child_ino etype s1
                | Ok None \<Rightarrow> unlink_blocks inode dir_ino name (block_idx + 1) (min n_entries (seen + DIRENTRIES_PER_BLOCK)) s1
                | Err e \<Rightarrow> (Err e, s1)
                | Panic e \<Rightarrow> (Panic e, s1))))"
  by pat_completeness auto
termination
  by (relation "measure (\<lambda>(inode, _, _, i, _, _). div_ceil (unat (isize inode)) DIRENTRY_SIZE - i * DIRENTRIES_PER_BLOCK)")
    (auto simp: DIRENTRIES_PER_BLOCK_def)

definition dir_unlink :: "u32 \<Rightarrow> u8 list \<Rightarrow> (ofs, bool) kmon" where
  "dir_unlink dir_ino name s =
     (case read_inode dir_ino s of
        (Panic e, s1) \<Rightarrow> (Panic e, s1)
      | (Err _, s1) \<Rightarrow> (Ok False, s1)
      | (Ok inode, s1) \<Rightarrow> unlink_blocks inode dir_ino name 0 0 s1)"

section \<open>Creation and mount\<close>

definition new_inode :: "u8 \<Rightarrow> raw_inode" where
  "new_inode t = RawInode_default\<lparr>itype := t, nlink := 1\<rparr>"

definition create_inode :: "u8 \<Rightarrow> (ofs, u32) kmon" where
  "create_inode t = bindK alloc_inode (\<lambda>ino. bindK (write_inode ino (new_inode t)) (\<lambda>_. retK ino))"

text \<open>\<open>InodeInfo\<close>: type, size and link count.\<close>

definition inode_info :: "u32 \<Rightarrow> (ofs, u8 \<times> u32 \<times> u32) kmon" where
  "inode_info ino = bindK (read_inode ino) (\<lambda>raw. retK (itype raw, isize raw, nlink raw))"

definition super_crc :: "u32 \<Rightarrow> u32 \<Rightarrow> u32 \<Rightarrow> u32" where
  "super_crc magic version n = crc32 (le32_bytes magic @ le32_bytes version @ le32_bytes n)"

definition superblock :: "u32 \<Rightarrow> u8 list" where
  "superblock n =
     splice 12 (le32_bytes (super_crc OFS_MAGIC OFS_VERSION n))
       (splice 8 (le32_bytes n) (splice 4 (le32_bytes OFS_VERSION) (splice 0 (le32_bytes OFS_MAGIC) zeros)))"

definition initial_bitmap :: "u8 list" where
  "initial_bitmap = fold (\<lambda>i buf. put_bit i True buf) [0..<unat DATA_START] zeros"

definition mkfs :: "(ofs, unit) kmon" where
  "mkfs s =
     (let writes = [(0, superblock (total_blocks s)), (BLOCK_BITMAP_BLK, initial_bitmap), (INODE_BITMAP_BLK, zeros)]
            @ map (\<lambda>i. (INODE_TABLE_START + of_nat i, zeros)) [0..<unat INODE_TABLE_BLOCKS]
            @ [(JOURNAL_HDR_BLK, clear_header)]
      in bindK (bitmap_set INODE_BITMAP_BLK 0 True) (\<lambda>_.
           bindK (write_inode ROOT_INODE (new_inode ITYPE_DIR)) (\<lambda>_.
             bindK commit_txn (\<lambda>_. retK ()))) (s\<lparr>dev := apply_writes writes (dev s)\<rparr>))"

definition Ofs_new :: "disk \<Rightarrow> ofs option rr" where
  "Ofs_new d =
     (case read_block 0 d of
        None \<Rightarrow> Ok None
      | Some buf \<Rightarrow>
          let s = \<lparr>dev = journal_replay d, total_blocks = 2048, pending = [], cache = InodeCache_new\<rparr>;
              magic = u32_le buf 0; version = u32_le buf 4; stored = u32_le buf 8;
              crc_ok = (super_crc magic version stored = u32_le buf SUPERBLOCK_CRC_OFF)
          in if \<not> (magic = OFS_MAGIC \<and> version = OFS_VERSION \<and> crc_ok) then
               (case mkfs (s\<lparr>total_blocks := if 68 < stored then stored else 2048\<rparr>) of
                  (Ok _, s1) \<Rightarrow> Ok (Some s1)
                | (Err e, _) \<Rightarrow> Err e
                | (Panic e, _) \<Rightarrow> Panic e)
             else Ok (Some (s\<lparr>total_blocks := stored\<rparr>)))"

declare lookup_blocks.simps [simp del] readall_blocks.simps [simp del] read_chunks.simps [simp del]
  write_chunks.simps [simp del] unlink_blocks.simps [simp del]

end
