(* ===== verification/Fs_State.thy ===== *)
theory Fs_State
  imports Blockfs
begin

text \<open>What the operations of \<open>Blockfs\<close> do to the contents of blocks: the transaction as a map that overrides the
  device, bitmaps as sets of numbers, and the encoding of inodes.\<close>

lemma unat_u32: "unat (x :: u32) < 4294967296"
  using unsigned_less [of x] by simp

section \<open>The current contents\<close>

definition cur :: "ofs \<Rightarrow> u32 \<Rightarrow> u8 list" where
  "cur s b = (case map_of (pending s) b of Some x \<Rightarrow> x | None \<Rightarrow> blocks (dev s) b)"

definition put :: "u32 \<Rightarrow> u8 list \<Rightarrow> ofs \<Rightarrow> ofs" where
  "put b buf s = s\<lparr>pending := bt_insert b buf (pending s)\<rparr>"

text \<open>Blocks that a transaction may write: the journal cannot log itself, and its replay skips block 0.\<close>

definition loggable :: "u32 \<Rightarrow> bool" where
  "loggable b \<longleftrightarrow> b \<noteq> 0 \<and> \<not> journal_area b"

text \<open>The device works, blocks have their size and the transaction is one that the journal can log.\<close>

definition fs_ok :: "ofs \<Rightarrow> bool" where
  "fs_ok s \<longleftrightarrow> sound (dev s) \<and> (\<forall>b. length (blocks (dev s) b) = BLOCK_SIZE)
     \<and> (\<forall>(b, x) \<in> set (pending s). loggable b \<and> length x = BLOCK_SIZE)
     \<and> sorted_wrt (<) (map fst (pending s)) \<and> unat (total_blocks s) \<le> 8 * BLOCK_SIZE"

lemma put_simps [simp]:
  "cur (put b buf s) = (cur s)(b := buf)" "dev (put b buf s) = dev s" "cache (put b buf s) = cache s"
  "total_blocks (put b buf s) = total_blocks s" "cur (s\<lparr>cache := c\<rparr>) = cur s"
  by (auto simp: cur_def put_def fun_eq_iff split: option.split)

lemma write_blk_put [simp]: "write_blk b buf s = (Ok True, put b buf s)"
  by (simp add: write_blk_def put_def)

lemma set_bt_insert: "set (bt_insert k v m) \<subseteq> insert (k, v) (set m)"
  by (induction k v m rule: bt_insert.induct) auto

lemma sorted_bt_insert: "sorted_wrt (<) (map fst m) \<Longrightarrow> sorted_wrt (<) (map fst (bt_insert k v m))"
proof (induction k v m rule: bt_insert.induct)
  case (2 k v j w m)
  have "set (map fst (bt_insert k v m)) \<subseteq> insert k (fst ` set m)" using set_bt_insert [of k v m] by auto
  then have "\<forall>x \<in> set (bt_insert k v m). fst x = k \<or> fst x \<in> fst ` set m" by auto
  moreover have "\<forall>x \<in> fst ` set m. j < x" using 2(2) by auto
  ultimately have "\<forall>x \<in> set (bt_insert k v m). k = j \<or> k < j \<or> j < fst x" by (metis linorder_cases)
  then show ?case using 2 by auto
qed simp

lemma fs_ok_put: "fs_ok s \<Longrightarrow> loggable b \<Longrightarrow> length buf = BLOCK_SIZE \<Longrightarrow> fs_ok (put b buf s)"
  using set_bt_insert [of b buf "pending s"] by (auto simp: fs_ok_def put_def sorted_bt_insert)

lemma fs_ok_cache [simp]: "fs_ok (s\<lparr>cache := c\<rparr>) = fs_ok s"
  by (simp add: fs_ok_def)

lemma length_cur: "fs_ok s \<Longrightarrow> length (cur s b) = BLOCK_SIZE"
  by (auto simp: fs_ok_def cur_def split: option.split dest!: map_of_SomeD)

lemma view_cur: "fs_ok s \<Longrightarrow> view s b = Some (cur s b)"
  by (simp add: fs_ok_def view_def cur_def read_block_def sound_def split: option.split)

lemma read_blk_cur: "fs_ok s \<Longrightarrow> read_blk e b s = (Ok (cur s b), s)"
  by (simp add: read_blk_def view_cur)

lemma length_apply_writes:
  assumes "sound d" "\<forall>b. length (blocks d b) = n" "list_all (\<lambda>(_, x). length x = n) ws"
  shows "length (blocks (apply_writes ws d) b) = n"
  using assms by (induction ws arbitrary: d) auto

lemma length_commit_writes:
  assumes "list_all (\<lambda>(_, x). length x = BLOCK_SIZE) es" "length es \<le> JOURNAL_SLOTS"
  shows "list_all (\<lambda>(_, x). length x = BLOCK_SIZE) (commit_writes es)"
proof -
  have "list_all (\<lambda>(_, x). length x = BLOCK_SIZE) (journal_slots es)"
    using assms(1) by (auto simp: list_all_length nth_journal_slots case_prod_beta)
  then show ?thesis
    using assms prepared_fields(1) [OF assms(2)]
    by (simp add: commit_writes_def clear_header_def committed_header_def BLOCK_SIZE_def)
qed

text \<open>A commit changes nothing that the file system sees outside the journal.\<close>

lemma commit_txn_ok:
  assumes "fs_ok s"
  obtains r s' where "commit_txn s = (Ok r, s')" "fs_ok s'" "same_outside (cur s') (cur s)" "cache s' = cache s"
    "total_blocks s' = total_blocks s"
proof -
  consider "pending s = []" | "JOURNAL_SLOTS < length (pending s)" | "pending s \<noteq> []" "length (pending s) \<le> JOURNAL_SLOTS"
    by linarith
  then show ?thesis
  proof cases
    case 3
    let ?es = "pending s" and ?d = "apply_writes (commit_writes (pending s)) (dev s)"
    let ?s = "s\<lparr>dev := ?d, pending := []\<rparr>"
    have so: "sound (dev s)" using assms by (simp add: fs_ok_def)
    have dist: "distinct (map fst ?es)" using assms by (auto simp: fs_ok_def strict_sorted_iff)
    have ok: "entries_ok ?es" using assms 3 dist by (auto simp: entries_ok_def fs_ok_def loggable_def list_all_iff)
    have "length (blocks ?d b) = BLOCK_SIZE" for b
      using assms 3 by (intro length_apply_writes length_commit_writes) (auto simp: fs_ok_def list_all_iff)
    then have "fs_ok ?s" using assms so by (simp add: fs_ok_def)
    moreover have "same_outside (cur ?s) (cur s)"
      using crash_late(2) [OF so ok] by (auto simp: same_outside_def cur_def updated_def)
    moreover have "commit_txn s = (Ok True, ?s)" using 3 so by (simp add: commit_txn_def commit_entries_sound)
    ultimately show ?thesis using that by simp
  qed (use assms in \<open>auto simp: commit_txn_def same_outside_def intro: that\<close>)
qed

section \<open>Bitmaps\<close>

lemma bit_at_put_bit:
  assumes "i div 8 < length buf"
  shows "bit_at (put_bit i v buf) j = (if i = j then v else bit_at buf j)"
proof (cases "i div 8 = j div 8")
  case True
  then have "i = j \<longleftrightarrow> i mod 8 = j mod 8" by (metis div_mult_mod_eq)
  then show ?thesis
    using assms True by (auto simp: bit_at_def put_bit_def bit_simps)
qed (auto simp: bit_at_def put_bit_def)

lemma length_put_bit [simp]: "length (put_bit i v buf) = length buf"
  by (simp add: put_bit_def)

lemma bitmap_scan_cases:
  assumes "\<forall>i \<in> set is. i div 8 < BLOCK_SIZE"
  obtains (found) i where "bitmap_scan buf is = Ok i" "i \<in> set is" "\<not> bit_at buf i"
  | (full) "bitmap_scan buf is = Err none" "\<forall>i \<in> set is. bit_at buf i"
proof -
  have "(\<exists>i. bitmap_scan buf is = Ok i \<and> i \<in> set is \<and> \<not> bit_at buf i)
      \<or> bitmap_scan buf is = Err none \<and> (\<forall>i \<in> set is. bit_at buf i)"
    using assms by (induction "is") (auto simp: and_exp_eq_0_iff_not_bit bit_at_def)
  then show ?thesis using found full by blast
qed

text \<open>\<open>alloc_block\<close> takes a free block of the data area and marks it, or finds none.\<close>

lemma alloc_block_cases:
  assumes "fs_ok s"
  obtains (ok) b where "alloc_block s = (Ok b, put BLOCK_BITMAP_BLK (put_bit (unat b) True (cur s BLOCK_BITMAP_BLK)) s)"
    "DATA_START \<le> b" "b < total_blocks s" "\<not> bit_at (cur s BLOCK_BITMAP_BLK) (unat b)"
  | (full) "alloc_block s = (Err none, s)"
    "\<forall>b. DATA_START \<le> b \<and> b < total_blocks s \<longrightarrow> bit_at (cur s BLOCK_BITMAP_BLK) (unat b)"
proof -
  let ?is = "[unat DATA_START..<unat (total_blocks s)]" and ?buf = "cur s BLOCK_BITMAP_BLK"
  have r: "\<forall>i \<in> set ?is. i div 8 < BLOCK_SIZE" using assms by (auto simp: fs_ok_def BLOCK_SIZE_def)
  show ?thesis
  proof (cases rule: bitmap_scan_cases [OF r, of ?buf])
    case (1 i)
    have u: "unat (of_nat i :: u32) = i" using 1(2) unat_u32 [of "total_blocks s"] by (simp add: unat_of_nat)
    have b: "DATA_START \<le> of_nat i" "of_nat i < total_blocks s" using 1(2) u by (auto simp: word_le_nat_alt word_less_nat_alt)
    show ?thesis
      by (rule ok [OF _ b]) (use 1 u in \<open>simp_all add: alloc_block_def bitmap_alloc_def read_blk_cur assms bindK_def\<close>)
  next
    case 2
    show ?thesis
      by (rule full) (use 2 in \<open>auto simp: alloc_block_def bitmap_alloc_def read_blk_cur assms bindK_def word_le_nat_alt word_less_nat_alt\<close>)
  qed
qed

section \<open>Inodes\<close>

definition inode_shape :: "raw_inode \<Rightarrow> bool" where
  "inode_shape inode \<longleftrightarrow> length (ipad inode) = 3 \<and> length (direct inode) = 12 \<and> length (reserved inode) = 14"

lemma length_put_words: "off + 4 * length ws \<le> length buf \<Longrightarrow> length (put_words off ws buf) = length buf"
  by (induction off ws buf rule: put_words.induct) auto

lemma put_words_other:
  "off + 4 * length ws \<le> length buf \<Longrightarrow> i < length buf \<Longrightarrow> i < off \<or> off + 4 * length ws \<le> i \<Longrightarrow> put_words off ws buf ! i = buf ! i"
  by (induction off ws buf rule: put_words.induct) (auto simp: nth_splice)

lemma u32_le_put_words_other:
  "off + 4 * length ws \<le> length buf \<Longrightarrow> i + 4 \<le> length buf \<Longrightarrow> i + 4 \<le> off \<or> off + 4 * length ws \<le> i \<Longrightarrow>
     u32_le (put_words off ws buf) i = u32_le buf i"
  by (auto simp: u32_le_def put_words_other)

lemma u32_le_put_words:
  "j < length ws \<Longrightarrow> off + 4 * length ws \<le> length buf \<Longrightarrow> u32_le (put_words off ws buf) (off + j * 4) = ws ! j"
proof (induction off ws buf arbitrary: j rule: put_words.induct)
  case (2 off w ws buf)
  show ?case
  proof (cases j)
    case 0
    then show ?thesis using 2(3) by (simp add: u32_le_put_words_other u32_le_splice)
  next
    case (Suc k)
    then show ?thesis using "2.IH" [of k] 2(2,3) by (simp add: algebra_simps)
  qed
qed simp

lemma u32_le_list_update: "k < i \<Longrightarrow> u32_le (buf[k := x]) i = u32_le buf i"
  by (simp add: u32_le_def)

lemma length_raw_inode_write:
  "inode_shape inode \<Longrightarrow> length buf = INODE_SIZE \<Longrightarrow> length (raw_inode_write inode buf) = INODE_SIZE"
  by (simp add: raw_inode_write_def inode_shape_def length_put_words INODE_SIZE_def)

lemma raw_inode_round_trip:
  assumes "inode_shape inode" "length buf = INODE_SIZE"
  shows "raw_inode_read (raw_inode_write inode buf) = inode"
proof -
  note sh = assms [unfolded inode_shape_def INODE_SIZE_def]
  note simps = raw_inode_write_def u32_le_splice u32_le_splice_other u32_le_put_words_other length_put_words sh
  let ?r = "raw_inode_write inode buf"
  have w: "u32_le ?r 4 = isize inode" "u32_le ?r 8 = nlink inode" "u32_le ?r 12 = used_blocks inode"
    "u32_le ?r 64 = indirect inode" "u32_le ?r 68 = double_indirect inode"
    by (simp_all add: simps)
  have d: "u32_le ?r (16 + i * 4) = direct inode ! i" if "i < 12" for i
    using that u32_le_put_words [of i "direct inode" 16] by (simp add: simps)
  have res: "u32_le ?r (72 + i * 4) = reserved inode ! i" if "i < 14" for i
    using that u32_le_put_words [of i "reserved inode" 72] by (simp add: simps)
  have l: "map (\<lambda>i. u32_le ?r (16 + i * 4)) [0..<12] = direct inode" "map (\<lambda>i. u32_le ?r (72 + i * 4)) [0..<14] = reserved inode"
    using d res by (auto intro!: nth_equalityI simp: sh)
  have low: "?r ! i = (splice 1 (ipad inode) (buf[0 := itype inode])) ! i" if "i < 4" for i
    using that by (simp add: raw_inode_write_def put_words_other nth_splice length_put_words sh)
  have t: "?r ! 0 = itype inode" using low [of 0] by (simp add: nth_splice sh)
  have pd: "slice 1 3 ?r = ipad inode"
    using low length_raw_inode_write [OF assms] sh by (auto intro!: nth_equalityI simp: slice_def nth_splice INODE_SIZE_def)
  show ?thesis unfolding raw_inode_read_def w l t pd by simp
qed

section \<open>The inode table\<close>

definition disk_inode :: "ofs \<Rightarrow> u32 \<Rightarrow> raw_inode" where
  "disk_inode s ino = raw_inode_read (slice (inode_off ino) INODE_SIZE (cur s (inode_blk ino)))"

definition store_inode :: "u32 \<Rightarrow> raw_inode \<Rightarrow> ofs \<Rightarrow> ofs" where
  "store_inode ino inode s =
     put (inode_blk ino)
       (splice (inode_off ino) (raw_inode_write inode (slice (inode_off ino) INODE_SIZE (cur s (inode_blk ino)))) (cur s (inode_blk ino)))
       (s\<lparr>cache := invalidate ino (cache s)\<rparr>)"

text \<open>The cache does not answer for the inode, or it answers what the table holds.\<close>

definition coherent :: "u32 \<Rightarrow> ofs \<Rightarrow> bool" where
  "coherent ino s \<longleftrightarrow> cache_get ino (cache s) \<in> {None, Some (disk_inode s ino)} \<and> length (entries (cache s)) = INODE_CACHE_SIZE"

lemma unat_inode_blk: "unat ino < MAX_INODES \<Longrightarrow> unat (inode_blk ino) = 3 + unat ino div 32"
  by (simp add: inode_blk_def INODE_TABLE_START_def INODES_PER_BLOCK_def MAX_INODES_def unat_word_ariths unat_div)

lemma inode_blk_area:
  assumes "unat ino < MAX_INODES"
  shows "loggable (inode_blk ino)" "inode_blk ino < DATA_START" "inode_blk ino \<noteq> BLOCK_BITMAP_BLK" "inode_blk ino \<noteq> INODE_BITMAP_BLK"
proof -
  have u: "unat (inode_blk ino) = 3 + unat ino div 32" "unat ino div 32 < 32"
    using assms unat_inode_blk by (auto simp: MAX_INODES_def)
  then show "loggable (inode_blk ino)" "inode_blk ino < DATA_START" "inode_blk ino \<noteq> BLOCK_BITMAP_BLK" "inode_blk ino \<noteq> INODE_BITMAP_BLK"
    by (auto simp: loggable_def journal_area_def word_le_nat_alt word_less_nat_alt JOURNAL_HDR_BLK_def DATA_START_def
        BLOCK_BITMAP_BLK_def INODE_BITMAP_BLK_def dest: arg_cong [where f = unat])
qed

lemma inode_off_le: "inode_off ino + INODE_SIZE \<le> BLOCK_SIZE"
proof -
  have "unat ino mod 32 < 32" by simp
  then show ?thesis by (simp add: inode_off_def INODES_PER_BLOCK_def INODE_SIZE_def BLOCK_SIZE_def)
qed

lemma inode_slots_apart:
  assumes "unat i < MAX_INODES" "unat j < MAX_INODES" "i \<noteq> j" "inode_blk i = inode_blk j"
  shows "inode_off i + INODE_SIZE \<le> inode_off j \<or> inode_off j + INODE_SIZE \<le> inode_off i"
proof -
  have "unat i div 32 = unat j div 32" using assms unat_inode_blk by (metis add_left_cancel)
  moreover have "unat i \<noteq> unat j" using assms(3) by (simp add: word_unat_eq_iff)
  ultimately have "unat i mod 32 \<noteq> unat j mod 32" by (metis div_mult_mod_eq)
  then show ?thesis by (auto simp: inode_off_def INODES_PER_BLOCK_def INODE_SIZE_def)
qed

lemma write_inode_ok:
  "fs_ok s \<Longrightarrow> unat ino < MAX_INODES \<Longrightarrow> write_inode ino inode s = (Ok True, store_inode ino inode s)"
  by (simp add: write_inode_def store_inode_def view_cur Let_def)

lemma store_inode_simps [simp]:
  "total_blocks (store_inode ino inode s) = total_blocks s" "dev (store_inode ino inode s) = dev s"
  by (simp_all add: store_inode_def)

lemma cur_store_other: "b \<noteq> inode_blk ino \<Longrightarrow> cur (store_inode ino inode s) b = cur s b"
  by (simp add: store_inode_def)

lemma length_splice_inode:
  assumes "fs_ok s" "inode_shape inode"
  shows "length (raw_inode_write inode (slice (inode_off ino) INODE_SIZE (cur s b))) = INODE_SIZE"
    "inode_off ino + length (raw_inode_write inode (slice (inode_off ino) INODE_SIZE (cur s b))) \<le> length (cur s b)"
  using assms inode_off_le [of ino] by (simp_all add: length_raw_inode_write length_cur)

lemma fs_ok_store: "fs_ok s \<Longrightarrow> unat ino < MAX_INODES \<Longrightarrow> inode_shape inode \<Longrightarrow> fs_ok (store_inode ino inode s)"
  unfolding store_inode_def using length_splice_inode(2) [of s inode ino "inode_blk ino"]
  by (intro fs_ok_put) (simp_all add: inode_blk_area(1) length_cur)

lemma disk_inode_store:
  assumes "fs_ok s" "inode_shape inode"
  shows "disk_inode (store_inode ino inode s) ino = inode"
  using length_splice_inode [OF assms] assms inode_off_le [of ino]
  by (simp add: disk_inode_def store_inode_def slice_splice raw_inode_round_trip length_cur)

lemma disk_inode_store_other:
  assumes "fs_ok s" "inode_shape inode" "unat ino < MAX_INODES" "unat j < MAX_INODES" "j \<noteq> ino"
  shows "disk_inode (store_inode ino inode s) j = disk_inode s j"
proof (cases "inode_blk j = inode_blk ino")
  case True
  have "slice (inode_off j) INODE_SIZE (splice (inode_off ino) (raw_inode_write inode (slice (inode_off ino) INODE_SIZE (cur s (inode_blk ino)))) (cur s (inode_blk ino)))
      = slice (inode_off j) INODE_SIZE (cur s (inode_blk ino))"
    using length_splice_inode [OF assms(1,2), of ino] inode_slots_apart [OF assms(4,3,5) True] inode_off_le [of j] assms(1)
    by (intro slice_splice_other) (auto simp: length_cur)
  then show ?thesis by (simp add: disk_inode_def store_inode_def True)
qed (simp add: disk_inode_def cur_store_other)

lemma get_invalidated: "cache_get ino (invalidate ino c) = None"
proof -
  have "find (\<lambda>(k, _). k = ino) (invalidate_entries ino es) \<in> {None, Some (ino, None)}" for es
    by (induction ino es rule: invalidate_entries.induct) auto
  from this [of "entries c"] show ?thesis by (auto simp: cache_get_def invalidate_def)
qed

lemma length_invalidated [simp]: "length (entries (invalidate ino c)) = length (entries c)"
proof -
  have "length (invalidate_entries ino es) = length es" for es
    by (induction ino es rule: invalidate_entries.induct) auto
  then show ?thesis by (simp add: invalidate_def)
qed

lemma coherent_store: "length (entries (cache s)) = INODE_CACHE_SIZE \<Longrightarrow> coherent ino (store_inode ino inode s)"
  by (simp add: coherent_def store_inode_def get_invalidated)

lemma find_append: "find P (xs @ ys) = (case find P xs of Some x \<Rightarrow> Some x | None \<Rightarrow> find P ys)"
  by (induction xs) auto

lemma get_inserted:
  assumes "length (entries c) = INODE_CACHE_SIZE" "cache_get ino c = None"
  shows "cache_get ino (cache_insert ino inode c) \<in> {None, Some inode}"
proof -
  define i where "i = unat (generation c) mod INODE_CACHE_SIZE"
  have i: "i < length (entries c)" using assms(1) by (simp add: i_def INODE_CACHE_SIZE_def)
  show ?thesis
  proof (cases "find (\<lambda>(k, _). k = ino) (take i (entries c))")
    case None
    then have "find (\<lambda>(k, _). k = ino) ((entries c)[i := (ino, Some inode)]) = Some (ino, Some inode)"
      using i by (simp add: upd_conv_take_nth_drop find_append)
    then show ?thesis by (simp add: cache_get_def cache_insert_def i_def)
  next
    case (Some e)
    then have "find (\<lambda>(k, _). k = ino) ((entries c)[i := (ino, Some inode)]) = find (\<lambda>(k, _). k = ino) (entries c)"
      using i find_append [of _ "take i (entries c)" "drop i (entries c)"] by (simp add: upd_conv_take_nth_drop find_append)
    then show ?thesis using assms(2) by (simp add: cache_get_def cache_insert_def i_def)
  qed
qed

text \<open>Reading an inode through a coherent cache gives what the table holds.\<close>

lemma read_inode_ok:
  assumes "fs_ok s" "unat ino < MAX_INODES" "coherent ino s"
  obtains c where "read_inode ino s = (Ok (disk_inode s ino), s\<lparr>cache := c\<rparr>)" "coherent ino (s\<lparr>cache := c\<rparr>)"
proof (cases "cache_get ino (cache s)")
  case None
  let ?c = "cache_insert ino (disk_inode s ino) (cache s)"
  have "coherent ino (s\<lparr>cache := ?c\<rparr>)"
    using assms(3) get_inserted [OF _ None, of "disk_inode s ino"] by (auto simp: coherent_def disk_inode_def cache_insert_def)
  moreover have "read_inode ino s = (Ok (disk_inode s ino), s\<lparr>cache := ?c\<rparr>)"
    using assms None by (simp add: read_inode_def read_blk_cur disk_inode_def Let_def)
  ultimately show ?thesis using that by blast
next
  case (Some v)
  then have "read_inode ino s = (Ok (disk_inode s ino), s\<lparr>cache := cache s\<rparr>)"
    using assms by (simp add: read_inode_def coherent_def)
  then show ?thesis using that [of "cache s"] assms(3) by simp
qed

end
