(* ===== verification/Fs_Files.thy ===== *)
theory Fs_Files
  imports Fs_State
begin

text \<open>Files of the block file system as byte strings.  The blocks of an inode form three kinds of trees: direct
  blocks, one indirect block with its pointers, and one double indirect block.  A node of these trees is named by
  its path, and the operations that fill in blocks extend the map from paths to blocks.\<close>

section \<open>Paths\<close>

datatype root = Rdirect nat | Rindirect | Rdouble

fun root_depth :: "root \<Rightarrow> nat" where
  "root_depth (Rdirect _) = 0"
| "root_depth Rindirect = 1"
| "root_depth Rdouble = 2"

fun field :: "root \<Rightarrow> raw_inode \<Rightarrow> u32" where
  "field (Rdirect i) inode = direct inode ! i"
| "field Rindirect inode = indirect inode"
| "field Rdouble inode = double_indirect inode"

fun set_root :: "root \<Rightarrow> u32 \<Rightarrow> raw_inode \<Rightarrow> raw_inode" where
  "set_root (Rdirect i) = set_direct i"
| "set_root Rindirect = set_indirect"
| "set_root Rdouble = set_double_indirect"

fun root_ok :: "root \<Rightarrow> bool" where
  "root_ok (Rdirect i) \<longleftrightarrow> i < 12"
| "root_ok _ \<longleftrightarrow> True"

fun valid :: "root \<times> nat list \<Rightarrow> bool" where
  "valid (r, is) \<longleftrightarrow> root_ok r \<and> length is \<le> root_depth r \<and> (\<forall>i \<in> set is. i < nptrs)"

fun leaf :: "root \<times> nat list \<Rightarrow> bool" where
  "leaf (r, is) \<longleftrightarrow> length is = root_depth r"

fun descend :: "(u32 \<Rightarrow> u8 list) \<Rightarrow> u32 \<Rightarrow> nat list \<Rightarrow> u32" where
  "descend C b [] = b"
| "descend C b (i # is) = (if b = 0 then 0 else descend C (u32_le (C b) (i * 4)) is)"

fun node :: "(u32 \<Rightarrow> u8 list) \<Rightarrow> raw_inode \<Rightarrow> root \<times> nat list \<Rightarrow> u32" where
  "node C inode (r, is) = descend C (field r inode) is"

lemma descend_0 [simp]: "descend C 0 is = 0"
  by (cases "is") auto

lemma descend_snoc:
  "descend C b (is @ [i]) = (if descend C b is = 0 then 0 else u32_le (C (descend C b is)) (i * 4))"
  by (induction C b "is" rule: descend.induct) auto

lemma node_nil [simp]: "node C inode (r, []) = field r inode"
  by simp

lemma node_snoc:
  "node C inode (r, is @ [i]) = (if node C inode (r, is) = 0 then 0 else u32_le (C (node C inode (r, is))) (i * 4))"
  by (simp add: descend_snoc)

lemma valid_snoc: "valid (r, is @ [i]) \<Longrightarrow> valid (r, is) \<and> \<not> leaf (r, is) \<and> i < nptrs"
  by auto

declare node.simps [simp del]

text \<open>The nodes depend only on the pointer blocks.\<close>

lemma node_cong:
  assumes "\<And>r is. valid (r, is) \<Longrightarrow> \<not> leaf (r, is) \<Longrightarrow> node C inode (r, is) \<noteq> 0 \<Longrightarrow>
      C' (node C inode (r, is)) = C (node C inode (r, is))"
    and "valid p"
  shows "node C' inode p = node C inode p"
proof -
  obtain r "is" where p: "p = (r, is)" by fastforce
  have "valid (r, is) \<Longrightarrow> node C' inode (r, is) = node C inode (r, is)"
  proof (induction "is" rule: rev_induct)
    case (snoc i "is")
    then show ?case using valid_snoc [OF snoc.prems] snoc.IH assms(1) [of r "is"] by (simp add: node_snoc)
  qed simp
  then show ?thesis using assms(2) p by simp
qed

section \<open>File blocks along paths\<close>

definition path_of :: "nat \<Rightarrow> root \<times> nat list" where
  "path_of idx =
     (if idx < 12 then (Rdirect idx, [])
      else if idx - 12 < nptrs then (Rindirect, [idx - 12])
      else (Rdouble, [(idx - 12 - nptrs) div nptrs, (idx - 12 - nptrs) mod nptrs]))"

fun slots :: "u32 \<Rightarrow> raw_inode \<Rightarrow> u32 \<Rightarrow> nat list \<Rightarrow> bool \<Rightarrow> (ofs, u32 \<times> raw_inode) kmon" where
  "slots ino inode b [] alloc = retK (b, inode)"
| "slots ino inode b (i # is) alloc = bindK (pointer_slot ino inode b i alloc) (\<lambda>(b1, inode1). slots ino inode1 b1 is alloc)"

lemma nptrs_eq [simp]: "nptrs = 1024"
  by (simp add: nptrs_def BLOCK_SIZE_def)

lemma bind_ret [simp]: "bindK m retK = m"
  by (auto simp: bindK_def fun_eq_iff split: prod.split rr.split)

lemma get_file_block_path:
  assumes "n < 1048576"
  shows "get_file_block inode ino (of_nat n) alloc =
    (case path_of n of (r, is) \<Rightarrow>
       bindK (root_slot ino inode (field r inode) (set_root r) alloc) (\<lambda>(b, inode1). slots ino inode1 b is alloc))"
proof -
  have u: "unat (of_nat n :: u32) = n" using assms by (simp add: unat_of_nat)
  have lt: "(of_nat n :: u32) < 12 \<longleftrightarrow> n < 12" using u by (simp add: word_less_nat_alt)
  have d: "unat (of_nat n - 12 :: u32) = n - 12" if "12 \<le> n"
    using that u by (simp add: unat_sub word_le_nat_alt)
  have o: "(n - 12 - 1024) div 1024 < 1024" using assms by (simp add: div_less_iff_less_mult)
  have r: "(\<lambda>(b, inode1). retK (b, inode1)) = (retK :: u32 \<times> raw_inode \<Rightarrow> (ofs, u32 \<times> raw_inode) kmon)" by auto
  show ?thesis using lt u d o by (auto simp: get_file_block_def path_of_def Let_def r not_le not_less split: prod.split)
qed

lemma path_of_valid: "n < 1048576 \<Longrightarrow> valid (path_of n) \<and> leaf (path_of n)"
  by (auto simp: path_of_def div_less_iff_less_mult)

fun index_of :: "root \<times> nat list \<Rightarrow> nat" where
  "index_of (Rdirect i, _) = i"
| "index_of (Rindirect, is) = hd is + 12"
| "index_of (Rdouble, is) = hd is * 1024 + is ! 1 + 1036"

lemma index_of_path [simp]: "index_of (path_of n) = n"
proof -
  have "(n - 1036) div 1024 * 1024 + (n - 1036) mod 1024 + 1036 = n" if "1036 \<le> n"
    using that by (metis div_mult_mod_eq le_add_diff_inverse2)
  then show ?thesis by (auto simp: path_of_def not_less)
qed

lemma path_of_inj: "path_of m = path_of n \<Longrightarrow> m = n"
  by (metis index_of_path)

section \<open>Well-formed files\<close>

definition used_paths :: "(u32 \<Rightarrow> u8 list) \<Rightarrow> raw_inode \<Rightarrow> (root \<times> nat list) set" where
  "used_paths C inode = {p. valid p \<and> node C inode p \<noteq> 0}"

definition allocated :: "ofs \<Rightarrow> u32 \<Rightarrow> bool" where
  "allocated s b \<longleftrightarrow> DATA_START \<le> b \<and> b < total_blocks s \<and> bit_at (cur s BLOCK_BITMAP_BLK) (unat b)"

text \<open>The inode on disk is \<open>inode\<close>; its blocks are allocated, no block has two paths, and \<open>used_blocks\<close> counts them.\<close>

definition file_ok :: "u32 \<Rightarrow> raw_inode \<Rightarrow> ofs \<Rightarrow> bool" where
  "file_ok ino inode s \<longleftrightarrow> fs_ok s \<and> unat ino < MAX_INODES \<and> inode_shape inode \<and> coherent ino s
     \<and> disk_inode s ino = inode
     \<and> inj_on (node (cur s) inode) (used_paths (cur s) inode)
     \<and> (\<forall>p \<in> used_paths (cur s) inode. allocated s (node (cur s) inode p))
     \<and> unat (used_blocks inode) = card (used_paths (cur s) inode)"

lemma finite_valid: "finite {p. valid p}"
proof -
  have "{p. valid p} \<subseteq> (Rdirect ` {..<12} \<union> {Rindirect, Rdouble}) \<times> {is. set is \<subseteq> {..<1024} \<and> length is \<le> 2}"
  proof
    fix p assume "p \<in> {p. valid p}"
    then show "p \<in> (Rdirect ` {..<12} \<union> {Rindirect, Rdouble}) \<times> {is. set is \<subseteq> {..<1024} \<and> length is \<le> 2}"
      by (cases "fst p"; cases p) auto
  qed
  then show ?thesis by (rule finite_subset) (simp add: finite_lists_length_le)
qed

lemma finite_used: "finite (used_paths C inode)"
  using finite_subset [OF _ finite_valid, of "used_paths C inode"] by (auto simp: used_paths_def)

text \<open>There are fewer blocks than a \<open>u32\<close> counts, so \<open>used_blocks\<close> never overflows.\<close>

lemma used_blocks_small:
  assumes "file_ok ino inode s"
  shows "unat (used_blocks inode) \<le> 32768" "used_blocks inode \<noteq> - 1"
proof -
  let ?U = "used_paths (cur s) inode" and ?f = "\<lambda>p. unat (node (cur s) inode p)"
  have "inj_on ?f ?U" using assms by (auto simp: file_ok_def inj_on_def word_unat_eq_iff)
  moreover have "?f ` ?U \<subseteq> {..<32768}"
    using assms by (fastforce simp: file_ok_def allocated_def fs_ok_def word_less_nat_alt BLOCK_SIZE_def)
  ultimately have "card ?U \<le> 32768" using card_inj_on_le [of ?f ?U "{..<32768}"] by simp
  then show "unat (used_blocks inode) \<le> 32768" using assms by (simp add: file_ok_def)
  then show "used_blocks inode \<noteq> - 1" by (auto simp: unsigned_minus_1_eq_mask mask_eq_exp_minus_1)
qed

section \<open>Filling in a block\<close>

lemma u32_le_zeros_block: "i < nptrs \<Longrightarrow> u32_le zeros (i * 4) = 0"
  by (rule u32_le_zeros) (simp add: BLOCK_SIZE_def)

lemma pointer_entries:
  assumes "length buf = BLOCK_SIZE" "i < 1024" "j < 1024"
  shows "u32_le (splice (i * 4) (le32_bytes nb) buf) (j * 4) = (if j = i then nb else u32_le buf (j * 4))"
proof (cases "j = i")
  case False
  then have "j * 4 + 4 \<le> i * 4 \<or> i * 4 + 4 \<le> j * 4" by linarith
  then show ?thesis using assms False by (simp add: u32_le_splice_other BLOCK_SIZE_def)
qed (use assms in \<open>simp add: u32_le_splice BLOCK_SIZE_def\<close>)

text \<open>A field of the inode is filled in.\<close>

lemma node_set_root:
  assumes "field r inode = 0" "field r inode1 = nb" "nb \<noteq> 0" "C1 nb = zeros"
    and fields: "\<And>r1. root_ok r1 \<Longrightarrow> r1 \<noteq> r \<Longrightarrow> field r1 inode1 = field r1 inode"
    and same: "\<And>p. p \<in> used_paths C inode \<Longrightarrow> C1 (node C inode p) = C (node C inode p)"
    and "valid p"
  shows "node C1 inode1 p = (if p = (r, []) then nb else node C inode p)"
proof -
  obtain r1 "is" where p: "p = (r1, is)" by fastforce
  show ?thesis
  proof (cases "r1 = r")
    case True
    then show ?thesis using assms(1-4,7) p by (cases "is") (auto simp: u32_le_zeros_block node.simps)
  next
    case False
    have "node C1 inode p = node C inode p"
      using same by (intro node_cong [OF _ assms(7)]) (simp add: used_paths_def)
    moreover have "node C1 inode1 p = node C1 inode p" using fields [of r1] False assms(7) p by (simp add: node.simps)
    ultimately show ?thesis using False p by simp
  qed
qed

text \<open>An entry of a pointer block is filled in.\<close>

lemma node_set_pointer:
  assumes L: "valid (r, is @ [i])" and ib: "node C inode (r, is) = ib" "ib \<noteq> 0"
    and empty: "u32_le (C ib) (i * 4) = 0" and len: "length (C ib) = BLOCK_SIZE"
    and C1: "C1 ib = splice (i * 4) (le32_bytes nb) (C ib)" "C1 nb = zeros" and nb: "nb \<noteq> 0"
    and inj: "inj_on (node C inode) (used_paths C inode)"
    and fields: "\<And>r1. field r1 inode1 = field r1 inode"
    and same: "\<And>p. p \<in> used_paths C inode \<Longrightarrow> node C inode p \<noteq> ib \<Longrightarrow> C1 (node C inode p) = C (node C inode p)"
    and "valid p"
  shows "node C1 inode1 p = (if p = (r, is @ [i]) then nb else node C inode p)"
proof -
  obtain r1 js where p: "p = (r1, js)" by fastforce
  have up: "(r, is) \<in> used_paths C inode" using L ib by (auto simp: used_paths_def)
  have i: "i < 1024" using L by simp
  have "valid (r1, js) \<Longrightarrow> node C1 inode1 (r1, js) = (if (r1, js) = (r, is @ [i]) then nb else node C inode (r1, js))"
  proof (induction js rule: rev_induct)
    case Nil
    then show ?case by (simp add: fields)
  next
    case (snoc j js)
    have v: "valid (r1, js)" and j: "j < 1024" using snoc.prems by auto
    define b where "b = node C inode (r1, js)"
    define b1 where "b1 = node C1 inode1 (r1, js)"
    note IH = snoc.IH [OF v, folded b_def b1_def]
    have n: "node C1 inode1 (r1, js @ [j]) = (if b1 = 0 then 0 else u32_le (C1 b1) (j * 4))"
      "node C inode (r1, js @ [j]) = (if b = 0 then 0 else u32_le (C b) (j * 4))"
      by (simp_all add: node_snoc b_def b1_def)
    have u: "b \<noteq> 0 \<Longrightarrow> (r1, js) \<in> used_paths C inode" using v by (simp add: used_paths_def b_def)
    have "b \<noteq> 0 \<Longrightarrow> b = ib \<Longrightarrow> (r1, js) = (r, is)"
      by (rule inj_onD [OF inj _ u up]) (simp_all add: b_def ib)
    then consider "(r1, js) = (r, is @ [i])" | "(r1, js) \<noteq> (r, is @ [i])" "b = 0" | "(r1, js) = (r, is)"
      | "(r1, js) \<noteq> (r, is @ [i])" "b \<noteq> 0" "b \<noteq> ib"
      by blast
    then show ?case
    proof cases
      case 1
      then have "b = 0" using ib empty by (auto simp: node_snoc b_def)
      then show ?thesis using 1 n IH nb C1(2) j by (simp add: u32_le_zeros_block)
    next
      case 2
      then have "(r1, js @ [j]) \<noteq> (r, is @ [i])" using ib by (auto simp: b_def)
      moreover have "b1 = b" using IH 2(1) by (simp only: if_False)
      ultimately show ?thesis using n 2(2) by (simp only: if_False) simp
    next
      case 3
      then have "b1 = ib" "b = ib" using IH ib by (auto simp: b_def)
      moreover have "u32_le (splice (i * 4) (le32_bytes nb) (C ib)) (j * 4) = (if j = i then nb else u32_le (C ib) (j * 4))"
        using pointer_entries [OF len i j] .
      ultimately show ?thesis using 3 n ib(2) C1(1) by simp
    next
      case 4
      then have "C1 b = C b" using same v by (simp add: used_paths_def b_def)
      moreover have "(r1, js @ [j]) \<noteq> (r, is @ [i])" using 4(3) ib by (auto simp: b_def)
      moreover have "b1 = b" using IH 4(1) by (simp only: if_False)
      ultimately show ?thesis using n 4(2) by (simp only: if_False)
    qed
  qed
  then show ?thesis using assms(12) p by simp
qed

section \<open>Extension\<close>

lemma mem_used: "p \<in> used_paths C inode \<longleftrightarrow> valid p \<and> node C inode p \<noteq> 0"
  by (simp add: used_paths_def)

text \<open>From \<open>s\<close> to \<open>s'\<close> blocks were added to the file \<open>ino\<close>, and nothing else happened: the blocks it had keep their
  place, the added ones were free, and other inodes and allocated blocks that are not its pointer blocks are
  unchanged.\<close>

definition extends :: "u32 \<Rightarrow> raw_inode \<Rightarrow> ofs \<Rightarrow> raw_inode \<Rightarrow> ofs \<Rightarrow> bool" where
  "extends ino inode s inode' s' \<longleftrightarrow> total_blocks s' = total_blocks s \<and> isize inode' = isize inode \<and> itype inode' = itype inode
     \<and> (\<forall>b. allocated s b \<longrightarrow> allocated s' b)
     \<and> (\<forall>j. unat j < MAX_INODES \<and> j \<noteq> ino \<longrightarrow> disk_inode s' j = disk_inode s j)
     \<and> (\<forall>b. allocated s b \<and> (\<forall>p \<in> used_paths (cur s) inode. node (cur s) inode p = b \<longrightarrow> leaf p) \<longrightarrow> cur s' b = cur s b)
     \<and> (\<forall>p \<in> used_paths (cur s) inode. node (cur s') inode' p = node (cur s) inode p)
     \<and> (\<forall>p \<in> used_paths (cur s') inode'. node (cur s) inode p = 0 \<longrightarrow> \<not> allocated s (node (cur s') inode' p))"

lemma extends_refl: "extends ino inode s inode s"
  by (auto simp: extends_def mem_used)

lemma extends_trans:
  assumes "extends ino i1 s1 i2 s2" "extends ino i2 s2 i3 s3"
  shows "extends ino i1 s1 i3 s3"
proof -
  have u: "p \<in> used_paths (cur s2) i2" if "p \<in> used_paths (cur s1) i1" for p
    using assms(1) that by (simp add: extends_def mem_used)
  have "cur s3 b = cur s1 b"
    if b: "allocated s1 b" "\<forall>p \<in> used_paths (cur s1) i1. node (cur s1) i1 p = b \<longrightarrow> leaf p" for b
  proof -
    have "leaf p" if "p \<in> used_paths (cur s2) i2" "node (cur s2) i2 p = b" for p
    proof (cases "node (cur s1) i1 p = 0")
      case True
      then show ?thesis using assms(1) that b(1) by (auto simp: extends_def)
    next
      case False
      then have "p \<in> used_paths (cur s1) i1" using that(1) by (simp add: mem_used)
      then show ?thesis using assms(1) that(2) b(2) by (auto simp: extends_def)
    qed
    then show ?thesis using assms b by (simp add: extends_def)
  qed
  moreover have "\<not> allocated s1 (node (cur s3) i3 p)" if "p \<in> used_paths (cur s3) i3" "node (cur s1) i1 p = 0" for p
  proof (cases "node (cur s2) i2 p = 0")
    case True
    then show ?thesis using assms that by (auto simp: extends_def)
  next
    case False
    then have "p \<in> used_paths (cur s2) i2" using that(1) by (simp add: mem_used)
    then show ?thesis using assms that(2) by (auto simp: extends_def)
  qed
  ultimately show ?thesis using assms u by (auto simp: extends_def)
qed

text \<open>Adding one free block at an empty path.\<close>

lemma graft:
  assumes ok: "file_ok ino inode s" and L: "valid L" "node (cur s) inode L = 0"
    and nb: "DATA_START \<le> nb" "nb < total_blocks s" "\<not> bit_at (cur s BLOCK_BITMAP_BLK) (unat nb)"
    and nodes: "\<And>p. valid p \<Longrightarrow> node (cur s') inode' p = (if p = L then nb else node (cur s) inode p)"
    and bm: "cur s' BLOCK_BITMAP_BLK = put_bit (unat nb) True (cur s BLOCK_BITMAP_BLK)"
    and s': "fs_ok s'" "coherent ino s'" "disk_inode s' ino = inode'" "inode_shape inode'" "total_blocks s' = total_blocks s"
    and inode': "used_blocks inode' = used_blocks inode + 1" "isize inode' = isize inode" "itype inode' = itype inode"
    and others: "\<And>j. unat j < MAX_INODES \<Longrightarrow> j \<noteq> ino \<Longrightarrow> disk_inode s' j = disk_inode s j"
    and frame: "\<And>b. allocated s b \<Longrightarrow> \<forall>p \<in> used_paths (cur s) inode. node (cur s) inode p = b \<longrightarrow> leaf p \<Longrightarrow> cur s' b = cur s b"
  shows "file_ok ino inode' s' \<and> extends ino inode s inode' s'"
proof -
  let ?U = "used_paths (cur s) inode"
  have nz: "nb \<noteq> 0" using nb(1) by (auto simp: DATA_START_def)
  have U: "used_paths (cur s') inode' = insert L ?U"
  proof (rule set_eqI)
    fix p
    show "p \<in> used_paths (cur s') inode' \<longleftrightarrow> p \<in> insert L ?U"
      using nodes [of p] nz L by (cases "p = L"; cases "valid p") (simp_all add: mem_used)
  qed
  have LU: "L \<notin> ?U" using L(2) by (simp add: mem_used)
  have fs: "fs_ok s" "\<forall>p \<in> ?U. allocated s (node (cur s) inode p)" "inj_on (node (cur s) inode) ?U"
    "unat (used_blocks inode) = card ?U" "unat ino < MAX_INODES" using ok by (auto simp: file_ok_def)
  have range: "unat nb div 8 < length (cur s BLOCK_BITMAP_BLK)"
    using fs(1) nb(2) length_cur [OF fs(1)] by (auto simp: fs_ok_def word_less_nat_alt BLOCK_SIZE_def)
  have alloc: "allocated s' b \<longleftrightarrow> allocated s b \<or> b = nb" for b
  proof (cases "b = nb")
    case False
    then have "unat nb \<noteq> unat b" by (simp add: word_unat_eq_iff)
    then show ?thesis using False by (simp add: allocated_def bm bit_at_put_bit [OF range] s'(5))
  qed (use nb in \<open>simp add: allocated_def bm bit_at_put_bit [OF range] s'(5)\<close>)
  have new: "\<not> allocated s nb" using nb(3) by (simp add: allocated_def)
  have same: "node (cur s') inode' p = node (cur s) inode p" if "p \<in> ?U" for p
    using nodes [of p] that LU by (auto simp: mem_used)
  have nL: "node (cur s') inode' L = nb" using nodes L(1) by simp
  have "inj_on (node (cur s') inode') (insert L ?U)"
    using fs(2,3) same nL new LU by (auto simp: inj_on_def)
  moreover have "\<forall>p \<in> insert L ?U. allocated s' (node (cur s') inode' p)"
    using fs(2) same nL alloc by auto
  moreover have "unat (used_blocks inode') = card (insert L ?U)"
    using used_blocks_small(1) [OF ok] fs(4) LU finite_used by (simp add: inode'(1) unat_add_no_wrap)
  ultimately have "file_ok ino inode' s'" using s' fs(5) U by (simp add: file_ok_def)
  moreover have "extends ino inode s inode' s'"
    using s'(5) inode' alloc others frame same nL new LU by (auto simp: extends_def U mem_used)
  ultimately show ?thesis by simp
qed

section \<open>Slots\<close>

definition no_space :: "ofs \<Rightarrow> bool" where
  "no_space s \<longleftrightarrow> (\<forall>b. DATA_START \<le> b \<and> b < total_blocks s \<longrightarrow> allocated s b)"

text \<open>A block of the data area taken and zeroed.\<close>

definition taken :: "u32 \<Rightarrow> ofs \<Rightarrow> ofs" where
  "taken nb s = put nb zeros (put BLOCK_BITMAP_BLK (put_bit (unat nb) True (cur s BLOCK_BITMAP_BLK)) s)"

lemma data_block:
  assumes "DATA_START \<le> b"
  shows "loggable b" "b \<noteq> 0" "b \<noteq> BLOCK_BITMAP_BLK" "unat ino < MAX_INODES \<Longrightarrow> b \<noteq> inode_blk ino"
proof -
  show "loggable b" "b \<noteq> 0" "b \<noteq> BLOCK_BITMAP_BLK"
    using assms by (auto simp: loggable_def journal_area_def DATA_START_def BLOCK_BITMAP_BLK_def
        word_le_nat_alt word_less_nat_alt)
  show "unat ino < MAX_INODES \<Longrightarrow> b \<noteq> inode_blk ino" using inode_blk_area(2) [of ino] assms by auto
qed

lemma fs_ok_taken:
  assumes "fs_ok s" "DATA_START \<le> nb"
  shows "fs_ok (taken nb s)"
proof -
  have "loggable BLOCK_BITMAP_BLK"
    by (simp add: loggable_def journal_area_def BLOCK_BITMAP_BLK_def JOURNAL_HDR_BLK_def word_le_nat_alt)
  then show ?thesis unfolding taken_def using assms data_block(1) [OF assms(2)]
    by (intro fs_ok_put) (simp_all add: length_cur zeros_def)
qed

lemma taken_simps:
  assumes "DATA_START \<le> nb"
  shows "cur (taken nb s) nb = zeros" "cur (taken nb s) BLOCK_BITMAP_BLK = put_bit (unat nb) True (cur s BLOCK_BITMAP_BLK)"
    "b \<noteq> nb \<Longrightarrow> b \<noteq> BLOCK_BITMAP_BLK \<Longrightarrow> cur (taken nb s) b = cur s b"
    "cache (taken nb s) = cache s" "total_blocks (taken nb s) = total_blocks s"
  using data_block [OF assms] by (auto simp: taken_def)

lemma new_block_cases:
  assumes "fs_ok s"
  obtains (ok) nb where "new_block s = (Ok nb, taken nb s)" "DATA_START \<le> nb" "nb < total_blocks s"
    "\<not> bit_at (cur s BLOCK_BITMAP_BLK) (unat nb)"
  | (full) "new_block s = (Err none, s)" "no_space s"
proof (cases rule: alloc_block_cases [OF assms])
  case (1 b)
  show ?thesis by (rule ok [of b]) (use 1 in \<open>simp_all add: new_block_def taken_def bindK_def\<close>)
next
  case 2
  show ?thesis by (rule full) (use 2 in \<open>auto simp: new_block_def bindK_def no_space_def allocated_def\<close>)
qed

lemma charge_block_ok:
  assumes "fs_ok s" "unat ino < MAX_INODES" "used_blocks inode \<noteq> - 1"
  shows "charge_block ino inode s =
    (Ok (inode\<lparr>used_blocks := used_blocks inode + 1\<rparr>), store_inode ino (inode\<lparr>used_blocks := used_blocks inode + 1\<rparr>) s)"
  using assms by (simp add: charge_block_def write_inode_ok Let_def)

text \<open>The inode table is stored after a change to blocks of the data area.\<close>

lemma disk_inode_cong: "cur s (inode_blk j) = cur t (inode_blk j) \<Longrightarrow> disk_inode s j = disk_inode t j"
  by (simp add: disk_inode_def)

lemma stored:
  assumes s1: "fs_ok s1" "unat ino < MAX_INODES" "inode_shape inode1" "length (entries (cache s1)) = INODE_CACHE_SIZE"
    and data: "\<forall>b. b < DATA_START \<and> b \<noteq> BLOCK_BITMAP_BLK \<longrightarrow> cur s1 b = cur s b"
  defines "s2 \<equiv> store_inode ino inode1 s1"
  shows "fs_ok s2" "coherent ino s2" "disk_inode s2 ino = inode1" "cur s2 BLOCK_BITMAP_BLK = cur s1 BLOCK_BITMAP_BLK"
    "\<And>b. DATA_START \<le> b \<Longrightarrow> cur s2 b = cur s1 b" "total_blocks s2 = total_blocks s1"
    "\<And>j. unat j < MAX_INODES \<Longrightarrow> j \<noteq> ino \<Longrightarrow> disk_inode s2 j = disk_inode s j"
proof -
  show "fs_ok s2" "coherent ino s2" "disk_inode s2 ino = inode1" "total_blocks s2 = total_blocks s1"
    using s1 by (simp_all add: s2_def fs_ok_store coherent_store disk_inode_store)
  show "cur s2 BLOCK_BITMAP_BLK = cur s1 BLOCK_BITMAP_BLK"
    using inode_blk_area(3) [OF s1(2)] by (simp add: s2_def cur_store_other)
  show "cur s2 b = cur s1 b" if "DATA_START \<le> b" for b
    using data_block(4) [OF that s1(2)] by (simp add: s2_def cur_store_other)
  show "disk_inode s2 j = disk_inode s j" if "unat j < MAX_INODES" "j \<noteq> ino" for j
    using disk_inode_store_other [OF s1(1,3,2) that] data inode_blk_area(2,3) [OF that(1)]
    by (simp add: s2_def disk_inode_def)
qed

lemma field_set_root:
  assumes "inode_shape inode" "root_ok r"
  shows "field r (set_root r b inode) = b" "\<And>r1. r1 \<noteq> r \<Longrightarrow> field r1 (set_root r b inode) = field r1 inode"
    "inode_shape (set_root r b inode)" "used_blocks (set_root r b inode) = used_blocks inode"
    "isize (set_root r b inode) = isize inode" "itype (set_root r b inode) = itype inode"
proof -
  show "field r (set_root r b inode) = b" "inode_shape (set_root r b inode)" "used_blocks (set_root r b inode) = used_blocks inode"
    "isize (set_root r b inode) = isize inode" "itype (set_root r b inode) = itype inode"
    using assms by (cases r; simp add: inode_shape_def set_direct_def set_indirect_def set_double_indirect_def)+
  show "field r1 (set_root r b inode) = field r1 inode" if "r1 \<noteq> r" for r1
    using that by (cases r; cases r1) (auto simp: set_direct_def set_indirect_def set_double_indirect_def)
qed

lemma field_used_blocks [simp]: "field r (inode\<lparr>used_blocks := n\<rparr>) = field r inode" "inode_shape (inode\<lparr>used_blocks := n\<rparr>) = inode_shape inode"
  by (cases r; simp) (simp add: inode_shape_def)

lemma used_node_facts:
  assumes "file_ok ino inode s" "p \<in> used_paths (cur s) inode"
  shows "DATA_START \<le> node (cur s) inode p" "allocated s (node (cur s) inode p)"
  using assms by (auto simp: file_ok_def allocated_def simp del: split_paired_All)

lemma root_slot_cases:
  assumes ok: "file_ok ino inode s" and r: "root_ok r"
  obtains (found) b inode' s' where "root_slot ino inode (field r inode) (set_root r) True s = (Ok (b, inode'), s')"
    "file_ok ino inode' s'" "extends ino inode s inode' s'" "field r inode' = b" "b \<noteq> 0"
  | (full) "root_slot ino inode (field r inode) (set_root r) True s = (Err none, s)" "no_space s"
proof (cases "field r inode = 0")
  case False
  show ?thesis
    by (rule that(1) [of "field r inode" inode s]) (use False ok in \<open>simp_all add: root_slot_def extends_refl\<close>)
next
  case True
  have fs: "fs_ok s" "unat ino < MAX_INODES" "inode_shape inode" "length (entries (cache s)) = INODE_CACHE_SIZE"
    using ok by (auto simp: file_ok_def coherent_def)
  show ?thesis
  proof (cases rule: new_block_cases [OF fs(1)])
    case (1 nb)
    define s1 where "s1 = taken nb s"
    define inode1 where "inode1 = (set_root r nb inode)\<lparr>used_blocks := used_blocks inode + 1\<rparr>"
    define s2 where "s2 = store_inode ino inode1 s1"
    note set = field_set_root [OF fs(3) r, where b = nb]
    note t = taken_simps [OF 1(2), where s = s, folded s1_def]
    have ok1: "fs_ok s1" using fs_ok_taken [OF fs(1) 1(2)] by (simp add: s1_def)
    have sh: "inode_shape inode1" using set by (simp add: inode1_def)
    have low: "\<forall>b. b < DATA_START \<and> b \<noteq> BLOCK_BITMAP_BLK \<longrightarrow> cur s1 b = cur s b"
      using 1(2) t(3) by (metis leD)
    note st = stored [where s = s, OF ok1 fs(2) sh fs(4) [folded t(4)] low, folded s2_def]
    have eq: "root_slot ino inode (field r inode) (set_root r) True s = (Ok (nb, inode1), s2)"
      using True 1(1) ok1 used_blocks_small(2) [OF ok] fs(2) set
      by (simp add: root_slot_def charge_block_ok s1_def s2_def inode1_def)
    have keep: "cur s2 b = cur s b" if "allocated s b" for b
    proof -
      have b: "DATA_START \<le> b" "b \<noteq> nb" using that 1(4) by (auto simp: allocated_def)
      then show ?thesis using st(5) [OF b(1)] t(3) data_block(3) [OF b(1)] by simp
    qed
    have nodes: "node (cur s2) inode1 p = (if p = (r, []) then nb else node (cur s) inode p)" if "valid p" for p
      using True set data_block(2) [OF 1(2)] st(5) [OF 1(2)] t(1) keep used_node_facts(2) [OF ok] that
      by (intro node_set_root) (simp_all add: inode1_def)
    have "file_ok ino inode1 s2 \<and> extends ino inode s inode1 s2"
      using 1(2-4) True r nodes st t keep set sh by (intro graft [OF ok, of "(r, [])" nb]) (simp_all add: inode1_def)
    moreover have "field r inode1 = nb" using set by (simp add: inode1_def)
    ultimately show ?thesis using eq data_block(2) [OF 1(2)] that(1) by blast
  next
    case 2
    show ?thesis by (rule that(2)) (use True 2 in \<open>simp_all add: root_slot_def\<close>)
  qed
qed

lemma pointer_slot_cases:
  assumes ok: "file_ok ino inode s" and v: "valid (r, is @ [i])" and ib: "node (cur s) inode (r, is) \<noteq> 0"
  defines "b0 \<equiv> node (cur s) inode (r, is)"
  obtains (found) b inode' s' where "pointer_slot ino inode b0 i True s = (Ok (b, inode'), s')"
    "file_ok ino inode' s'" "extends ino inode s inode' s'" "node (cur s') inode' (r, is @ [i]) = b" "b \<noteq> 0"
  | (full) "pointer_slot ino inode b0 i True s = (Err none, s)" "no_space s"
proof (cases "u32_le (cur s b0) (i * 4) = 0")
  case False
  have fs: "fs_ok s" using ok by (simp add: file_ok_def)
  show ?thesis
    by (rule that(1) [of "u32_le (cur s b0) (i * 4)" inode s])
      (use False ok fs ib in \<open>simp_all add: pointer_slot_def read_blk_cur extends_refl Let_def node_snoc b0_def\<close>)
next
  case True
  have fs: "fs_ok s" "unat ino < MAX_INODES" "inode_shape inode" "length (entries (cache s)) = INODE_CACHE_SIZE"
    "inj_on (node (cur s) inode) (used_paths (cur s) inode)"
    using ok by (auto simp: file_ok_def coherent_def)
  have u: "(r, is) \<in> used_paths (cur s) inode" using valid_snoc [OF v] ib by (simp add: mem_used)
  have b0: "DATA_START \<le> b0" "allocated s b0" using used_node_facts [OF ok u] by (simp_all add: b0_def)
  have i: "i < 1024" using v by simp
  show ?thesis
  proof (cases rule: new_block_cases [OF fs(1)])
    case (1 nb)
    define s1 where "s1 = put b0 (splice (i * 4) (le32_bytes nb) (cur s b0)) (taken nb s)"
    define inode1 where "inode1 = inode\<lparr>used_blocks := used_blocks inode + 1\<rparr>"
    define s2 where "s2 = store_inode ino inode1 s1"
    note t = taken_simps [OF 1(2), where s = s]
    have ne: "b0 \<noteq> nb" "b0 \<noteq> BLOCK_BITMAP_BLK" using b0 1(4) data_block(3) by (auto simp: allocated_def)
    have c1: "cur s1 b0 = splice (i * 4) (le32_bytes nb) (cur s b0)" "cur s1 nb = zeros"
      "cur s1 BLOCK_BITMAP_BLK = put_bit (unat nb) True (cur s BLOCK_BITMAP_BLK)" "cache s1 = cache s"
      "total_blocks s1 = total_blocks s"
      using ne t by (auto simp: s1_def)
    have len: "length (cur s b0) = BLOCK_SIZE" by (rule length_cur [OF fs(1)])
    have ok1: "fs_ok s1"
      unfolding s1_def using fs_ok_taken [OF fs(1) 1(2)] data_block(1) [OF b0(1)] len i
      by (intro fs_ok_put) (simp_all add: BLOCK_SIZE_def)
    have sh: "inode_shape inode1" using fs(3) by (simp add: inode1_def)
    have low: "\<forall>b. b < DATA_START \<and> b \<noteq> BLOCK_BITMAP_BLK \<longrightarrow> cur s1 b = cur s b"
      using b0(1) 1(2) t(3) by (auto simp: s1_def)
    note st = stored [where s = s, OF ok1 fs(2) sh fs(4) [folded c1(4)] low, folded s2_def]
    have eq: "pointer_slot ino inode b0 i True s = (Ok (nb, inode1), s2)"
      using True 1(1) ok1 used_blocks_small(2) [OF ok] fs(1,2)
      by (simp add: pointer_slot_def read_blk_cur charge_block_ok s1_def s2_def inode1_def Let_def)
    have keep: "cur s2 b = cur s b" if "allocated s b" "b \<noteq> b0" for b
    proof -
      have b: "DATA_START \<le> b" "b \<noteq> nb" using that 1(4) by (auto simp: allocated_def)
      then show ?thesis using st(5) [OF b(1)] t(3) data_block(3) [OF b(1)] that(2) by (simp add: s1_def)
    qed
    have nodes: "node (cur s2) inode1 p = (if p = (r, is @ [i]) then nb else node (cur s) inode p)" if "valid p" for p
      using v ib True len st(5) [OF b0(1)] st(5) [OF 1(2)] c1 data_block(2) [OF 1(2)] fs(5) keep used_node_facts(2) [OF ok] that
      by (intro node_set_pointer [where ib = b0]) (simp_all add: inode1_def b0_def)
    have leaf: "b \<noteq> b0" if "\<forall>p \<in> used_paths (cur s) inode. node (cur s) inode p = b \<longrightarrow> leaf p" for b
      using bspec [OF that u] valid_snoc [OF v] by (auto simp: b0_def simp del: leaf.simps)
    have L0: "node (cur s) inode (r, is @ [i]) = 0" using True by (simp add: node_snoc b0_def)
    have "file_ok ino inode1 s2 \<and> extends ino inode s inode1 s2"
      using 1(2-4) v L0 nodes st c1 keep leaf sh
      by (intro graft [OF ok, of "(r, is @ [i])" nb]) (simp_all add: inode1_def del: valid.simps leaf.simps)
    moreover have "node (cur s2) inode1 (r, is @ [i]) = nb" using nodes [OF v] by simp
    ultimately show ?thesis using eq data_block(2) [OF 1(2)] that(1) by blast
  next
    case 2
    show ?thesis by (rule that(2)) (use True 2 fs(1) in \<open>simp_all add: pointer_slot_def read_blk_cur Let_def\<close>)
  qed
qed

section \<open>Blocks of a file\<close>

lemma slots_ok:
  assumes "file_ok ino inode s" "valid (r, is @ js)" "node (cur s) inode (r, is) \<noteq> 0"
  shows "(\<exists>b inode' s'. slots ino inode (node (cur s) inode (r, is)) js True s = (Ok (b, inode'), s') \<and> file_ok ino inode' s'
      \<and> extends ino inode s inode' s' \<and> node (cur s') inode' (r, is @ js) = b \<and> b \<noteq> 0)
    \<or> (\<exists>s'. slots ino inode (node (cur s) inode (r, is)) js True s = (Err none, s') \<and> no_space s')"
  using assms
proof (induction js arbitrary: "is" inode s)
  case Nil
  then show ?case by (simp add: extends_refl)
next
  case (Cons i js)
  have v: "valid (r, is @ [i])" using Cons.prems(2) by auto
  show ?case
  proof (cases rule: pointer_slot_cases [OF Cons.prems(1) v Cons.prems(3)])
    case (1 b inode1 s1)
    have "valid (r, (is @ [i]) @ js)" "node (cur s1) inode1 (r, is @ [i]) \<noteq> 0" using Cons.prems(2) 1 by auto
    from Cons.IH [OF 1(2) this] show ?thesis
      using 1 by (auto intro: extends_trans)
  next
    case 2
    then show ?thesis by simp
  qed
qed

lemma get_file_block_alloc:
  assumes "file_ok ino inode s" "n < 1048576"
  shows "(\<exists>b inode' s'. get_file_block inode ino (of_nat n) True s = (Ok (b, inode'), s') \<and> file_ok ino inode' s'
      \<and> extends ino inode s inode' s' \<and> node (cur s') inode' (path_of n) = b \<and> b \<noteq> 0)
    \<or> (\<exists>s'. get_file_block inode ino (of_nat n) True s = (Err none, s') \<and> no_space s')"
proof -
  obtain r "is" where p: "path_of n = (r, is)" by fastforce
  have v: "valid (r, [] @ is)" "root_ok r" using path_of_valid [OF assms(2)] p by auto
  note eq = get_file_block_path [OF assms(2), of inode ino True, unfolded p prod.case]
  show ?thesis
  proof (cases rule: root_slot_cases [OF assms(1) v(2)])
    case (1 b inode1 s1)
    have "node (cur s1) inode1 (r, []) \<noteq> 0" using 1 by simp
    from slots_ok [OF 1(2) v(1) this] show ?thesis
      using 1 unfolding eq p by (auto intro: extends_trans)
  next
    case 2
    then show ?thesis unfolding eq by simp
  qed
qed

lemma slots_find:
  assumes "fs_ok s" "b \<noteq> 0"
  shows "slots ino inode b js False s = (if descend (cur s) b js = 0 \<and> js \<noteq> [] then (Err none, s) else (Ok (descend (cur s) b js, inode), s))"
  using assms(2)
proof (induction js arbitrary: b)
  case (Cons i js)
  then show ?case using assms(1) by (auto simp: pointer_slot_def read_blk_cur bindK_def Let_def)
qed simp

lemma get_file_block_find:
  assumes "fs_ok s" "n < 1048576"
  shows "get_file_block inode ino (of_nat n) False s =
    (let b = node (cur s) inode (path_of n) in if b = 0 then (Err none, s) else (Ok (b, inode), s))"
proof -
  obtain r "is" where p: "path_of n = (r, is)" by fastforce
  note eq = get_file_block_path [OF assms(2), of inode ino False, unfolded p prod.case]
  show ?thesis
  proof (cases "field r inode = 0")
    case True
    then show ?thesis unfolding eq p by (simp add: root_slot_def node.simps)
  next
    case False
    then show ?thesis unfolding eq p using slots_find [OF assms(1) False, of ino inode "is"]
      by (auto simp: root_slot_def node.simps Let_def)
  qed
qed

end
