(* ===== verification/Fs_Contents.thy ===== *)
theory Fs_Contents
  imports Fs_Files
begin

text \<open>Reading and writing files: the block file system refines byte strings.\<close>

section \<open>Bytes\<close>

definition byte_at :: "ofs \<Rightarrow> raw_inode \<Rightarrow> nat \<Rightarrow> u8 option" where
  "byte_at s inode p =
     (let b = node (cur s) inode (path_of (p div BLOCK_SIZE))
      in if b = 0 then None else Some (cur s b ! (p mod BLOCK_SIZE)))"

text \<open>What a write to the file \<open>ino\<close> leaves alone: other inodes, and allocated blocks that the file does not own.\<close>

definition grows :: "u32 \<Rightarrow> raw_inode \<Rightarrow> ofs \<Rightarrow> raw_inode \<Rightarrow> ofs \<Rightarrow> bool" where
  "grows ino inode s inode' s' \<longleftrightarrow> total_blocks s' = total_blocks s \<and> isize inode' = isize inode \<and> itype inode' = itype inode
     \<and> (\<forall>b. allocated s b \<longrightarrow> allocated s' b)
     \<and> (\<forall>j. unat j < MAX_INODES \<and> j \<noteq> ino \<longrightarrow> disk_inode s' j = disk_inode s j)
     \<and> (\<forall>b. allocated s b \<and> b \<notin> node (cur s) inode ` used_paths (cur s) inode \<longrightarrow> cur s' b = cur s b)
     \<and> (\<forall>p \<in> used_paths (cur s) inode. node (cur s') inode' p = node (cur s) inode p)
     \<and> (\<forall>p \<in> used_paths (cur s') inode'. node (cur s) inode p = 0 \<longrightarrow> \<not> allocated s (node (cur s') inode' p))"

lemma grows_refl: "grows ino inode s inode s"
  by (auto simp: grows_def mem_used)

lemma extends_grows: "extends ino inode s inode' s' \<Longrightarrow> grows ino inode s inode' s'"
  unfolding extends_def grows_def by blast

lemma grows_trans:
  assumes "grows ino i1 s1 i2 s2" "grows ino i2 s2 i3 s3"
  shows "grows ino i1 s1 i3 s3"
proof -
  have u: "p \<in> used_paths (cur s2) i2" if "p \<in> used_paths (cur s1) i1" for p
    using assms(1) that by (simp add: grows_def mem_used)
  have old: "p \<in> used_paths (cur s1) i1 \<and> node (cur s1) i1 p = node (cur s2) i2 p \<or> \<not> allocated s1 (node (cur s2) i2 p)"
    if "p \<in> used_paths (cur s2) i2" for p
    using assms(1) that by (cases "node (cur s1) i1 p = 0") (simp_all add: grows_def mem_used)
  have "cur s3 b = cur s1 b" if b: "allocated s1 b" "b \<notin> node (cur s1) i1 ` used_paths (cur s1) i1" for b
  proof -
    have "b \<notin> node (cur s2) i2 ` used_paths (cur s2) i2"
    proof
      assume "b \<in> node (cur s2) i2 ` used_paths (cur s2) i2"
      then obtain p where p: "p \<in> used_paths (cur s2) i2" "b = node (cur s2) i2 p" by (rule imageE)
      then have "p \<in> used_paths (cur s1) i1" "b = node (cur s1) i1 p" using old [OF p(1)] b(1) by auto
      then have "b \<in> node (cur s1) i1 ` used_paths (cur s1) i1" by (rule image_eqI [rotated])
      then show False using b(2) by contradiction
    qed
    then show ?thesis using assms b by (simp add: grows_def)
  qed
  moreover have "\<not> allocated s1 (node (cur s3) i3 p)" if "p \<in> used_paths (cur s3) i3" "node (cur s1) i1 p = 0" for p
  proof (cases "node (cur s2) i2 p = 0")
    case True
    then show ?thesis using assms that by (auto simp: grows_def)
  next
    case False
    then have p: "p \<in> used_paths (cur s2) i2" using that(1) by (simp add: mem_used)
    then show ?thesis using assms(2) old [OF p] that(2) by (auto simp: grows_def mem_used)
  qed
  ultimately show ?thesis using assms u by (auto simp: grows_def)
qed

lemma extends_bytes:
  assumes ok: "file_ok ino inode s" and ext: "extends ino inode s inode' s'"
    and p: "p < 2 ^ 32" "byte_at s inode p = Some x"
  shows "byte_at s' inode' p = Some x"
proof -
  define q where "q = path_of (p div BLOCK_SIZE)"
  have "p div BLOCK_SIZE < 1048576" using p(1) by (simp add: BLOCK_SIZE_def div_less_iff_less_mult)
  then have v: "valid q" "leaf q" using path_of_valid by (auto simp: q_def simp del: valid.simps leaf.simps)
  have nz: "node (cur s) inode q \<noteq> 0" using p(2) by (auto simp: byte_at_def q_def Let_def split: if_splits)
  then have u: "q \<in> used_paths (cur s) inode" using v by (simp add: mem_used)
  have inj: "inj_on (node (cur s) inode) (used_paths (cur s) inode)" using ok by (simp add: file_ok_def)
  have "leaf p'" if "p' \<in> used_paths (cur s) inode" "node (cur s) inode p' = node (cur s) inode q" for p'
    using inj_onD [OF inj that(2) that(1) u] v(2) by simp
  then have "cur s' (node (cur s) inode q) = cur s (node (cur s) inode q)"
    using ext used_node_facts(2) [OF ok u] by (simp add: extends_def)
  moreover have "node (cur s') inode' q = node (cur s) inode q" using ext u by (simp add: extends_def)
  ultimately show ?thesis using p(2) nz by (simp add: byte_at_def q_def Let_def)
qed

text \<open>Overwriting one data block of the file.\<close>

lemma put_data:
  assumes ok: "file_ok ino inode s" and n: "n < 1048576" and b: "node (cur s) inode (path_of n) = b" "b \<noteq> 0"
    and len: "length buf = BLOCK_SIZE"
  defines "s' \<equiv> put b buf s"
  shows "file_ok ino inode s'" "grows ino inode s inode s'"
    "\<And>p. p < 2 ^ 32 \<Longrightarrow>
       byte_at s' inode p = (if p div BLOCK_SIZE = n then Some (buf ! (p mod BLOCK_SIZE)) else byte_at s inode p)"
proof -
  let ?M = "node (cur s) inode" and ?U = "used_paths (cur s) inode"
  have pn: "path_of n \<in> ?U" "leaf (path_of n)" using path_of_valid [OF n] b by (simp_all add: mem_used)
  have inj: "inj_on ?M ?U" using ok by (simp add: file_ok_def)
  have b68: "DATA_START \<le> b" "allocated s b" using used_node_facts [OF ok pn(1)] b(1) by simp_all
  note db = data_block [OF b68(1)]
  have nodes: "node (cur s') inode p = ?M p" if "valid p" for p
  proof (rule node_cong [OF _ that])
    fix r "is" assume q: "valid (r, is)" "\<not> leaf (r, is)" "?M (r, is) \<noteq> 0"
    then have "(r, is) \<in> ?U" by (simp add: mem_used)
    then have "?M (r, is) = b \<Longrightarrow> (r, is) = path_of n" using inj pn(1) b(1) by (simp only: inj_on_def)
    then have "?M (r, is) \<noteq> b" using pn(2) q(2) by metis
    then show "cur s' (?M (r, is)) = cur s (?M (r, is))" by (simp add: s'_def)
  qed
  have U: "used_paths (cur s') inode = ?U" using nodes by (auto simp: used_paths_def simp del: valid.simps)
  have di: "disk_inode s' j = disk_inode s j" if "unat j < MAX_INODES" for j
    using db(4) [OF that] by (simp add: disk_inode_def s'_def)
  have al: "allocated s' x = allocated s x" for x using db(3) by (simp add: allocated_def s'_def)
  have ino: "unat ino < MAX_INODES" using ok by (simp add: file_ok_def)
  have M: "node (cur s') inode p = ?M p" if "p \<in> ?U" for p using nodes that by (simp add: mem_used)
  have "fs_ok s'" unfolding s'_def using ok db(1) len by (intro fs_ok_put) (simp_all add: file_ok_def)
  moreover have "coherent ino s'" using ok di [OF ino] by (auto simp: file_ok_def coherent_def s'_def)
  moreover have "inj_on (node (cur s') inode) ?U" using inj M by (simp add: inj_on_def)
  ultimately show "file_ok ino inode s'" using ok di [OF ino] U M al by (simp add: file_ok_def)
  have "cur s' x = cur s x" if "x \<notin> ?M ` ?U" for x using that pn(1) b(1) by (auto simp: s'_def)
  then show "grows ino inode s inode s'" using di al U M by (auto simp: grows_def s'_def mem_used)
  show "byte_at s' inode p = (if p div BLOCK_SIZE = n then Some (buf ! (p mod BLOCK_SIZE)) else byte_at s inode p)"
    if "p < 2 ^ 32" for p
  proof -
    define q where "q = path_of (p div BLOCK_SIZE)"
    have "p div BLOCK_SIZE < 1048576" using that by (simp add: BLOCK_SIZE_def div_less_iff_less_mult)
    then have v: "valid q" using path_of_valid by (simp add: q_def)
    show ?thesis
    proof (cases "p div BLOCK_SIZE = n")
      case True
      then show ?thesis using nodes [OF v] b by (simp add: byte_at_def q_def s'_def)
    next
      case False
      then have "q \<noteq> path_of n" using path_of_inj by (auto simp: q_def)
      moreover have "?M q = b \<Longrightarrow> q \<in> ?U" using v b(2) by (simp add: mem_used)
      ultimately have "?M q \<noteq> b" using inj pn(1) b(1) unfolding inj_on_def by blast
      then show ?thesis using nodes [OF v] b(2) False by (auto simp: byte_at_def s'_def Let_def q_def)
    qed
  qed
qed

section \<open>Writing\<close>

text \<open>The bytes of a block that a chunk was copied into.\<close>

lemma chunk_bytes:
  fixes pos p :: nat
  defines "off \<equiv> pos mod BLOCK_SIZE"
  assumes base: "length base = BLOCK_SIZE" and c: "off + length xs \<le> BLOCK_SIZE" "p div BLOCK_SIZE = pos div BLOCK_SIZE"
  shows "splice off xs base ! (p mod BLOCK_SIZE) =
    (if pos \<le> p \<and> p < pos + length xs then xs ! (p - pos) else base ! (p mod BLOCK_SIZE))"
proof -
  have e: "p = pos div BLOCK_SIZE * BLOCK_SIZE + p mod BLOCK_SIZE" "pos = pos div BLOCK_SIZE * BLOCK_SIZE + off"
    using c(2) by (metis div_mult_mod_eq) (simp add: off_def)
  have "off \<le> p mod BLOCK_SIZE \<longleftrightarrow> pos \<le> p" "p mod BLOCK_SIZE < off + length xs \<longleftrightarrow> p < pos + length xs"
    "p mod BLOCK_SIZE - off = p - pos" using e by linarith+
  then show ?thesis using base c(1) by (simp add: nth_splice BLOCK_SIZE_def)
qed

lemma chunk_range:
  fixes pos p :: nat
  assumes "pos \<le> p" "p < pos + k" "pos mod BLOCK_SIZE + k \<le> BLOCK_SIZE"
  shows "p div BLOCK_SIZE = pos div BLOCK_SIZE"
proof -
  have e: "pos = pos div BLOCK_SIZE * BLOCK_SIZE + pos mod BLOCK_SIZE" by simp
  have "p = pos div BLOCK_SIZE * BLOCK_SIZE + (p - pos + pos mod BLOCK_SIZE)" using e assms(1) by linarith
  moreover have "p - pos + pos mod BLOCK_SIZE < BLOCK_SIZE" using assms by linarith
  ultimately show ?thesis by (metis div_mult_self3 div_less add_0_right BLOCK_SIZE_def zero_neq_numeral)
qed

lemma write_chunks_ok:
  assumes "file_ok ino inode s" "pos + length data < 2 ^ 32"
  shows "(\<exists>inode' s'. write_chunks inode ino pos data s = (Ok inode', s') \<and> file_ok ino inode' s' \<and> grows ino inode s inode' s'
      \<and> (\<forall>p < 2 ^ 32. if pos \<le> p \<and> p < pos + length data then byte_at s' inode' p = Some (data ! (p - pos))
           else byte_at s inode p \<noteq> None \<longrightarrow> byte_at s' inode' p = byte_at s inode p))
    \<or> (\<exists>s'. write_chunks inode ino pos data s = (Err ''NoSpace'', s') \<and> no_space s')"
  using assms
proof (induction "length data" arbitrary: inode pos data s rule: less_induct)
  case less
  show ?case
  proof (cases "data = []")
    case True
    then show ?thesis using less.prems(1) by (auto simp: grows_refl write_chunks.simps)
  next
    case False
    define n off chunk where "n = pos div BLOCK_SIZE" and "off = pos mod BLOCK_SIZE"
      and "chunk = min (length data) (BLOCK_SIZE - off)"
    have off: "off < BLOCK_SIZE" by (simp add: off_def BLOCK_SIZE_def)
    have ch: "0 < chunk" "chunk \<le> length data" "off + chunk \<le> BLOCK_SIZE" using off False by (auto simp: chunk_def)
    have n: "n < 1048576" using less.prems(2) by (simp add: n_def BLOCK_SIZE_def div_less_iff_less_mult)
    note eq = write_chunks.simps [of inode ino pos data, unfolded Let_def, folded off_def n_def, folded chunk_def]
    from get_file_block_alloc [OF less.prems(1) n] show ?thesis
    proof (elim disjE exE conjE)
      fix s1 assume "get_file_block inode ino (of_nat n) True s = (Err none, s1)" "no_space s1"
      then show ?thesis using False unfolding eq by (simp add: or_err_def bindK_def)
    next
      fix b inode1 s1
      assume g: "get_file_block inode ino (of_nat n) True s = (Ok (b, inode1), s1)" "file_ok ino inode1 s1"
        "extends ino inode s inode1 s1" "node (cur s1) inode1 (path_of n) = b" "b \<noteq> 0"
      define base where "base = (if off \<noteq> 0 \<or> chunk < BLOCK_SIZE then cur s1 b else zeros)"
      define s2 where "s2 = put b (splice off (take chunk data) base) s1"
      have fs1: "fs_ok s1" using g(2) by (simp add: file_ok_def)
      have lb: "length base = BLOCK_SIZE" using fs1 by (simp add: base_def length_cur zeros_def)
      have lt: "length (take chunk data) = chunk" using ch by simp
      have "length (splice off (take chunk data) base) = BLOCK_SIZE" using lb ch lt by simp
      note pd = put_data [OF g(2) n g(4,5) this, folded s2_def]
      have bytes: "byte_at s2 inode1 p = (if pos \<le> p \<and> p < pos + chunk then Some (data ! (p - pos)) else byte_at s1 inode1 p)"
        if "p < 2 ^ 32" for p
      proof (cases "p div BLOCK_SIZE = n")
        case True
        have base: "base ! (p mod BLOCK_SIZE) = cur s1 b ! (p mod BLOCK_SIZE)" if "\<not> (pos \<le> p \<and> p < pos + chunk)"
        proof -
          have "off \<noteq> 0 \<or> chunk < BLOCK_SIZE"
          proof (rule ccontr)
            assume "\<not> (off \<noteq> 0 \<or> chunk < BLOCK_SIZE)"
            then have "pos = n * BLOCK_SIZE" "chunk = BLOCK_SIZE" using ch(3) by (auto simp: n_def off_def)
            moreover have "p = n * BLOCK_SIZE + p mod BLOCK_SIZE" using True by (metis div_mult_mod_eq)
            moreover have "p mod BLOCK_SIZE < BLOCK_SIZE" by (simp add: BLOCK_SIZE_def)
            ultimately show False using that by linarith
          qed
          then show ?thesis by (simp add: base_def)
        qed
        show ?thesis
          using pd(3) [OF \<open>p < 2 ^ 32\<close>] True chunk_bytes [OF lb, of pos "take chunk data" p] ch(3) lt base g(4,5)
          by (auto simp: off_def n_def byte_at_def)
      next
        case False
        then have "\<not> (pos \<le> p \<and> p < pos + chunk)" using chunk_range [of pos p chunk] ch(3) by (auto simp: off_def n_def)
        then show ?thesis using pd(3) [OF that] False by auto
      qed
      have gr: "grows ino inode s inode1 s2" using extends_grows [OF g(3)] pd(2) grows_trans by blast
      have step: "write_chunks inode ino pos data s = write_chunks inode1 ino (pos + chunk) (drop chunk data) s2"
        using False g(1) fs1 unfolding eq by (auto simp: or_err_def bindK_def read_blk_cur base_def s2_def)
      have "length (drop chunk data) < length data" "pos + chunk + length (drop chunk data) < 2 ^ 32"
        using ch less.prems(2) by auto
      from less.hyps [OF this(1) pd(1) this(2), folded step] show ?thesis
      proof (elim disjE exE conjE)
        fix inode' s'
        assume w: "write_chunks inode ino pos data s = (Ok inode', s')" "file_ok ino inode' s'"
          "grows ino inode1 s2 inode' s'"
          "\<forall>p < 2 ^ 32. if pos + chunk \<le> p \<and> p < pos + chunk + length (drop chunk data)
             then byte_at s' inode' p = Some (drop chunk data ! (p - (pos + chunk)))
             else byte_at s2 inode1 p \<noteq> None \<longrightarrow> byte_at s' inode' p = byte_at s2 inode1 p"
        have "if pos \<le> p \<and> p < pos + length data then byte_at s' inode' p = Some (data ! (p - pos))
            else byte_at s inode p \<noteq> None \<longrightarrow> byte_at s' inode' p = byte_at s inode p" if "p < 2 ^ 32" for p
        proof -
          consider "pos \<le> p" "p < pos + chunk" | "pos + chunk \<le> p" "p < pos + length data" | "p < pos \<or> pos + length data \<le> p"
            by linarith
          then show ?thesis
          proof cases
            case 1
            then show ?thesis using w(4) that bytes [OF that] ch(2) by auto
          next
            case 2
            then show ?thesis using w(4) that ch(2) by auto
          next
            case 3
            have "byte_at s1 inode1 p = byte_at s inode p" if "byte_at s inode p \<noteq> None"
              using extends_bytes [OF less.prems(1) g(3) \<open>p < 2 ^ 32\<close>] that by auto
            then show ?thesis using 3 w(4) \<open>p < 2 ^ 32\<close> bytes [OF \<open>p < 2 ^ 32\<close>] ch(2) by auto
          qed
        qed
        then show ?thesis using w(1,2) grows_trans [OF gr w(3)] by (intro disjI1 exI conjI allI impI) assumption+
      qed auto
    qed
  qed
qed

section \<open>Files as byte strings\<close>

text \<open>The file \<open>ino\<close> of the current state holds the bytes \<open>bs\<close>.\<close>

definition holds :: "u32 \<Rightarrow> u8 list \<Rightarrow> ofs \<Rightarrow> bool" where
  "holds ino bs s \<longleftrightarrow> file_ok ino (disk_inode s ino) s \<and> is_file (disk_inode s ino)
     \<and> length bs = unat (isize (disk_inode s ino)) \<and> (\<forall>p < length bs. byte_at s (disk_inode s ino) p = Some (bs ! p))"

text \<open>Another state with the same contents outside the journal.\<close>

lemma same_outside_data: "same_outside f g \<Longrightarrow> DATA_START \<le> b \<Longrightarrow> f b = g b"
  using data_block(1) [of b] by (simp add: same_outside_def loggable_def)

lemma same_outside_inode: "same_outside (cur s') (cur s) \<Longrightarrow> unat j < MAX_INODES \<Longrightarrow> disk_inode s' j = disk_inode s j"
  using inode_blk_area(1) [of j] by (simp add: same_outside_def loggable_def disk_inode_def)

text \<open>Another state and inode with the same blocks.\<close>

lemma same_data:
  assumes ok: "file_ok ino inode s"
    and data: "\<And>b. DATA_START \<le> b \<Longrightarrow> cur s' b = cur s b" "cur s' BLOCK_BITMAP_BLK = cur s BLOCK_BITMAP_BLK"
      "total_blocks s' = total_blocks s"
    and inode': "\<And>r. field r inode' = field r inode" "used_blocks inode' = used_blocks inode" "inode_shape inode'"
    and s': "fs_ok s'" "coherent ino s'" "disk_inode s' ino = inode'"
  shows "file_ok ino inode' s'" "p < 2 ^ 32 \<Longrightarrow> byte_at s' inode' p = byte_at s inode p" "allocated s' b = allocated s b"
    "used_paths (cur s') inode' = used_paths (cur s) inode" "valid q \<Longrightarrow> node (cur s') inode' q = node (cur s) inode q"
proof -
  have ub: "cur s' (node (cur s) inode p) = cur s (node (cur s) inode p)" if "p \<in> used_paths (cur s) inode" for p
    using used_node_facts(1) [OF ok that] data(1) by simp
  have nodes: "node (cur s') inode' p = node (cur s) inode p" if "valid p" for p
  proof -
    have "node (cur s') inode p = node (cur s) inode p"
      by (rule node_cong [OF _ that]) (rule ub, simp add: mem_used)
    then show ?thesis using inode'(1) by (cases p) (simp add: node.simps)
  qed
  then show "valid q \<Longrightarrow> node (cur s') inode' q = node (cur s) inode q" .
  show U: "used_paths (cur s') inode' = used_paths (cur s) inode"
    using nodes by (auto simp: used_paths_def simp del: valid.simps)
  have M: "node (cur s') inode' p = node (cur s) inode p" if "p \<in> used_paths (cur s) inode" for p
    using nodes that by (simp add: mem_used)
  show al: "allocated s' b = allocated s b" for b by (simp add: allocated_def data)
  have "inj_on (node (cur s') inode') (used_paths (cur s) inode)" using ok M by (simp add: file_ok_def inj_on_def)
  then show "file_ok ino inode' s'"
    using ok s' inode' U M al by (simp add: file_ok_def)
  show "byte_at s' inode' p = byte_at s inode p" if "p < 2 ^ 32"
  proof -
    define q where "q = path_of (p div BLOCK_SIZE)"
    have "p div BLOCK_SIZE < 1048576" using that by (simp add: BLOCK_SIZE_def div_less_iff_less_mult)
    then have v: "valid q" using path_of_valid by (simp add: q_def)
    have "cur s' (node (cur s) inode q) = cur s (node (cur s) inode q)" if "node (cur s) inode q \<noteq> 0"
      using ub v that by (simp add: mem_used)
    then show ?thesis using nodes [OF v] by (simp add: byte_at_def q_def Let_def)
  qed
qed

lemma bitmap_not_journal: "same_outside f g \<Longrightarrow> f BLOCK_BITMAP_BLK = g BLOCK_BITMAP_BLK"
  by (simp add: same_outside_def journal_area_def BLOCK_BITMAP_BLK_def JOURNAL_HDR_BLK_def word_le_nat_alt)

section \<open>The operations on files\<close>

text \<open>\<open>grows\<close>, but for the size.\<close>

definition writes_only :: "u32 \<Rightarrow> ofs \<Rightarrow> ofs \<Rightarrow> bool" where
  "writes_only ino s s' \<longleftrightarrow> total_blocks s' = total_blocks s
     \<and> (\<forall>j. unat j < MAX_INODES \<and> j \<noteq> ino \<longrightarrow> disk_inode s' j = disk_inode s j)
     \<and> (\<forall>b. allocated s b \<longrightarrow> allocated s' b)
     \<and> (\<forall>b. allocated s b \<and> b \<notin> node (cur s) (disk_inode s ino) ` used_paths (cur s) (disk_inode s ino) \<longrightarrow> cur s' b = cur s b)"

lemma finish_write:
  assumes ok: "file_ok ino inode s" and n: "n < 2 ^ 32"
  obtains s' r where
    "bindK (if unat (isize inode) < n then write_inode ino (inode\<lparr>isize := of_nat n\<rparr>) else retK True) (\<lambda>_.
       bindK commit_txn (\<lambda>_. retK k)) s = (Ok k, s')"
    "file_ok ino (disk_inode s' ino) s'" "unat (isize (disk_inode s' ino)) = max (unat (isize inode)) n"
    "itype (disk_inode s' ino) = itype inode"
    "\<And>p. p < 2 ^ 32 \<Longrightarrow> byte_at s' (disk_inode s' ino) p = byte_at s inode p"
    "\<And>j. unat j < MAX_INODES \<Longrightarrow> j \<noteq> ino \<Longrightarrow> disk_inode s' j = disk_inode s j"
    "\<And>b. allocated s' b = allocated s b" "\<And>b. DATA_START \<le> b \<Longrightarrow> cur s' b = cur s b" "total_blocks s' = total_blocks s"
proof -
  define inode1 where "inode1 = (if unat (isize inode) < n then inode\<lparr>isize := of_nat n\<rparr> else inode)"
  define s1 where "s1 = (if unat (isize inode) < n then store_inode ino inode1 s else s)"
  have fs: "fs_ok s" "unat ino < MAX_INODES" "inode_shape inode" "coherent ino s" "disk_inode s ino = inode"
    "length (entries (cache s)) = INODE_CACHE_SIZE" using ok by (auto simp: file_ok_def coherent_def)
  have un: "unat (of_nat n :: u32) = n" using n by (simp add: unat_of_nat)
  have i1: "\<And>r. field r inode1 = field r inode" "used_blocks inode1 = used_blocks inode" "inode_shape inode1"
    "unat (isize inode1) = max (unat (isize inode)) n" "itype inode1 = itype inode"
    using fs(3) un by (auto simp: inode1_def inode_shape_def max_def) (case_tac r; simp)
  have c1: "fs_ok s1 \<and> coherent ino s1 \<and> disk_inode s1 ino = inode1 \<and> cur s1 BLOCK_BITMAP_BLK = cur s BLOCK_BITMAP_BLK
      \<and> (\<forall>b. DATA_START \<le> b \<longrightarrow> cur s1 b = cur s b) \<and> total_blocks s1 = total_blocks s
      \<and> (\<forall>j. unat j < MAX_INODES \<and> j \<noteq> ino \<longrightarrow> disk_inode s1 j = disk_inode s j)"
  proof (cases "unat (isize inode) < n")
    case True
    then have "s1 = store_inode ino inode1 s" by (simp add: s1_def)
    then show ?thesis using stored [OF fs(1,2) i1(3) fs(6), of s] by simp
  next
    case False
    then show ?thesis using fs by (simp add: s1_def inode1_def)
  qed
  have e1: "(if unat (isize inode) < n then write_inode ino (inode\<lparr>isize := of_nat n\<rparr>) else retK True) s = (Ok True, s1)"
    using fs by (simp add: s1_def inode1_def write_inode_ok)
  obtain r s2 where s2: "commit_txn s1 = (Ok r, s2)" "fs_ok s2" "same_outside (cur s2) (cur s1)" "cache s2 = cache s1"
    "total_blocks s2 = total_blocks s1" using commit_txn_ok c1 by metis
  have d2: "disk_inode s2 j = disk_inode s1 j" if "unat j < MAX_INODES" for j by (rule same_outside_inode [OF s2(3) that])
  have co: "coherent ino s2" using c1 d2 [OF fs(2)] s2(4) by (auto simp: coherent_def)
  have data: "\<And>b. DATA_START \<le> b \<Longrightarrow> cur s2 b = cur s b" "cur s2 BLOCK_BITMAP_BLK = cur s BLOCK_BITMAP_BLK"
    "total_blocks s2 = total_blocks s" "disk_inode s2 ino = inode1"
    using same_outside_data [OF s2(3)] bitmap_not_journal [OF s2(3)] c1 d2 fs(2) s2(5) by auto
  note sd = same_data [OF ok data(1-3) i1(1-3) s2(2) co data(4)]
  show ?thesis
    by (rule that [of s2]) (use sd data i1 e1 s2(1) d2 c1 in \<open>simp_all add: bindK_def\<close>)
qed

lemma read_chunks_ok:
  assumes "fs_ok s" "pos + len \<le> 2 ^ 32" "\<And>p. pos \<le> p \<Longrightarrow> p < pos + len \<Longrightarrow> byte_at s inode p = Some (f p)"
  shows "read_chunks inode ino pos len s = (Ok (map f [pos..<pos + len]), s)"
  using assms(2,3)
proof (induction len arbitrary: pos rule: less_induct)
  case (less len)
  show ?case
  proof (cases "len = 0")
    case True
    then show ?thesis by (simp add: read_chunks.simps)
  next
    case False
    define n off chunk where "n = pos div BLOCK_SIZE" and "off = pos mod BLOCK_SIZE" and "chunk = min len (BLOCK_SIZE - off)"
    have off: "off < BLOCK_SIZE" by (simp add: off_def BLOCK_SIZE_def)
    have ch: "0 < chunk" "chunk \<le> len" "off + chunk \<le> BLOCK_SIZE" using off False by (auto simp: chunk_def)
    have n: "n < 1048576" using less.prems(1) False by (simp add: n_def BLOCK_SIZE_def div_less_iff_less_mult)
    define b where "b = node (cur s) inode (path_of n)"
    have b: "b \<noteq> 0" using less.prems(2) [of pos] False by (auto simp: byte_at_def b_def n_def Let_def split: if_splits)
    have byte: "cur s b ! (off + i) = f (pos + i)" if "i < chunk" for i
    proof -
      have "(pos + i) div BLOCK_SIZE = n" using chunk_range [of pos "pos + i" chunk] that ch(3) by (simp add: n_def off_def)
      moreover have "(pos + i) mod BLOCK_SIZE = off + i"
        using calculation that ch(3) by (simp add: n_def off_def mod_add_left_eq [symmetric, of pos])
      ultimately show ?thesis using less.prems(2) [of "pos + i"] that ch(2) b by (simp add: byte_at_def b_def)
    qed
    have sl: "slice off chunk (cur s b) = map f [pos..<pos + chunk]"
      using byte length_cur [OF assms(1), of b] ch(3) by (intro nth_equalityI) (auto simp: slice_def)
    have ih: "read_chunks inode ino (pos + chunk) (len - chunk) s = (Ok (map f [pos + chunk..<pos + len]), s)"
      using less.IH [of "len - chunk" "pos + chunk"] less.prems ch by simp
    have up: "[pos..<pos + len] = [pos..<pos + chunk] @ [pos + chunk..<pos + len]"
      using ch(2) upt_add_eq_append [of pos "pos + chunk" "len - chunk"] by simp
    note eq = read_chunks.simps [of inode ino pos len, unfolded Let_def, folded off_def n_def, folded chunk_def]
    show ?thesis
      using False ih sl b by (simp add: eq up get_file_block_find [OF assms(1) n] or_err_def bindK_def read_blk_cur [OF assms(1)] Let_def
          flip: b_def)
  qed
qed

lemma cache_irrelevant [simp]:
  "disk_inode (s\<lparr>cache := c\<rparr>) j = disk_inode s j" "byte_at (s\<lparr>cache := c\<rparr>) i p = byte_at s i p"
  "allocated (s\<lparr>cache := c\<rparr>) b = allocated s b"
  by (simp_all add: disk_inode_def byte_at_def allocated_def Let_def)

lemma holds_cache:
  assumes "holds ino bs s" "coherent ino (s\<lparr>cache := c\<rparr>)"
  shows "holds ino bs (s\<lparr>cache := c\<rparr>)"
  using assms by (simp add: holds_def file_ok_def)


lemma file_write_holds:
  assumes "holds ino bs s" "unat off \<le> length bs" "unat off + length data < 2 ^ 32"
  shows "(\<exists>s'. file_write ino off data s = (Ok (length data), s')
        \<and> holds ino (take (unat off) bs @ data @ drop (unat off + length data) bs) s' \<and> writes_only ino s s')
    \<or> (\<exists>s'. file_write ino off data s = (Err ''NoSpace'', s') \<and> no_space s')"
proof -
  let ?i = "disk_inode s ino" and ?off = "unat off"
  have h: "fs_ok s" "unat ino < MAX_INODES" "coherent ino s" "is_file ?i" "length bs = unat (isize ?i)"
    "\<And>p. p < length bs \<Longrightarrow> byte_at s ?i p = Some (bs ! p)"
    using assms by (auto simp: holds_def file_ok_def)
  obtain c where c: "read_inode ino s = (Ok ?i, s\<lparr>cache := c\<rparr>)" "coherent ino (s\<lparr>cache := c\<rparr>)"
    using read_inode_ok [OF h(1-3)] by metis
  let ?s = "s\<lparr>cache := c\<rparr>"
  have ok: "file_ok ino ?i ?s" using holds_cache [OF assms(1) c(2)] by (simp add: holds_def)
  have start: "file_write ino off data s =
      bindK (write_chunks ?i ino ?off data) (\<lambda>inode1.
        bindK (if unat (isize inode1) < ?off + length data
               then write_inode ino (inode1\<lparr>isize := of_nat (?off + length data)\<rparr>) else retK True) (\<lambda>_.
          bindK commit_txn (\<lambda>_. retK (length data)))) ?s"
    using c(1) h(4) assms(3) by (simp add: file_write_def or_err_def bindK_def)
  from write_chunks_ok [OF ok assms(3)] show ?thesis
  proof (elim disjE exE conjE)
    fix s1 assume "write_chunks ?i ino ?off data ?s = (Err ''NoSpace'', s1)" "no_space s1"
    then show ?thesis unfolding start by simp
  next
    fix i1 s1
    assume w: "write_chunks ?i ino ?off data ?s = (Ok i1, s1)" "file_ok ino i1 s1" "grows ino ?i ?s i1 s1"
      "\<forall>p < 2 ^ 32. if ?off \<le> p \<and> p < ?off + length data then byte_at s1 i1 p = Some (data ! (p - ?off))
         else byte_at ?s ?i p \<noteq> None \<longrightarrow> byte_at s1 i1 p = byte_at ?s ?i p"
    have g: "isize i1 = isize ?i" "itype i1 = itype ?i" "total_blocks s1 = total_blocks s"
      "\<And>b. allocated s b \<Longrightarrow> allocated s1 b" "\<And>j. unat j < MAX_INODES \<Longrightarrow> j \<noteq> ino \<Longrightarrow> disk_inode s1 j = disk_inode s j"
      "\<And>b. allocated s b \<Longrightarrow> b \<notin> node (cur s) ?i ` used_paths (cur s) ?i \<Longrightarrow> cur s1 b = cur s b"
      using w(3) by (simp_all add: grows_def)
    obtain s' where f: "bindK (if unat (isize i1) < ?off + length data
        then write_inode ino (i1\<lparr>isize := of_nat (?off + length data)\<rparr>) else retK True) (\<lambda>_.
          bindK commit_txn (\<lambda>_. retK (length data))) s1 = (Ok (length data), s')"
      "file_ok ino (disk_inode s' ino) s'" "unat (isize (disk_inode s' ino)) = max (unat (isize i1)) (?off + length data)"
      "itype (disk_inode s' ino) = itype i1"
      "\<And>p. p < 2 ^ 32 \<Longrightarrow> byte_at s' (disk_inode s' ino) p = byte_at s1 i1 p"
      "\<And>j. unat j < MAX_INODES \<Longrightarrow> j \<noteq> ino \<Longrightarrow> disk_inode s' j = disk_inode s1 j"
      "\<And>b. allocated s' b = allocated s1 b" "\<And>b. DATA_START \<le> b \<Longrightarrow> cur s' b = cur s1 b" "total_blocks s' = total_blocks s1"
      using finish_write [OF w(2) assms(3)] by metis
    let ?bs = "take ?off bs @ data @ drop (?off + length data) bs"
    have "holds ino ?bs s'"
      unfolding holds_def
    proof (intro conjI allI impI)
      show "is_file (disk_inode s' ino)" using h(4) f(4) g(2) by (simp add: is_file_def)
      show "length ?bs = unat (isize (disk_inode s' ino))" using h(5) g(1) f(3) assms(2) by simp
      fix p assume p: "p < length ?bs"
      then have "p < max (unat (isize ?i)) (?off + length data)" using h(5) assms(2) by simp
      then have lt: "p < 2 ^ 32" using unat_u32 [of "isize ?i"] assms(3) by simp
      have "byte_at s1 i1 p = Some (?bs ! p)"
        using w(4) [rule_format, OF lt] h(5,6) p assms(2) by (auto simp: nth_append split: if_splits)
      then show "byte_at s' (disk_inode s' ino) p = Some (?bs ! p)" using f(5) [OF lt] by simp
    qed (rule f(2))
    moreover have "writes_only ino s s'"
      using f(6-9) g(3-6) by (auto simp: writes_only_def allocated_def [of s])
    ultimately show ?thesis unfolding start using w(1) f(1) by simp
  qed
qed

text \<open>C1: Writing to a file at an offset within it replaces and extends the bytes it holds and touches no other inode
  and no block that belongs to another file; the only other outcome is that no block is free.\<close>

theorem file_write_refines:
  assumes "holds ino bs s" "unat off \<le> length bs" "unat off + length data < 2 ^ 32"
  shows "(\<exists>s'. file_write ino off data s = (Ok (length data), s')
        \<and> holds ino (take (unat off) bs @ data @ drop (unat off + length data) bs) s' \<and> writes_only ino s s')
    \<or> (\<exists>s'. file_write ino off data s = (Err ''NoSpace'', s') \<and> no_space s')"
  by (rule file_write_holds [OF assms])

section \<open>An empty file\<close>

definition fresh_disk :: disk where
  "fresh_disk = blank_disk\<lparr>blocks := (blocks blank_disk)(0 := superblock 2048)\<rparr>"

definition empty_file :: ofs where
  "empty_file = store_inode 1 (new_inode ITYPE_FILE) \<lparr>dev = fresh_disk, total_blocks = 2048, pending = [], cache = InodeCache_new\<rparr>"

lemma length_superblock [simp]: "length (superblock n) = BLOCK_SIZE"
  by (simp add: superblock_def BLOCK_SIZE_def)

lemma new_inode_facts: "inode_shape (new_inode t)" "itype (new_inode t) = t" "isize (new_inode t) = 0" "used_blocks (new_inode t) = 0"
  "root_ok r \<Longrightarrow> field r (new_inode t) = 0"
  by (simp_all add: new_inode_def RawInode_default_def inode_shape_def) (cases r; simp)

lemma empty_file_holds: "holds 1 [] empty_file" "no_space empty_file = False"
proof -
  define s where "s = \<lparr>dev = fresh_disk, total_blocks = 2048, pending = [], cache = InodeCache_new\<rparr>"
  have fs: "fs_ok s"
    by (simp add: s_def fs_ok_def fresh_disk_def) (simp add: blank_disk_def zeros_def BLOCK_SIZE_def sound_def)
  have ino: "unat (1 :: u32) < MAX_INODES" by (simp add: MAX_INODES_def)
  have e: "empty_file = store_inode 1 (new_inode ITYPE_FILE) s" by (simp add: empty_file_def s_def)
  have di: "disk_inode empty_file 1 = new_inode ITYPE_FILE"
    unfolding e by (rule disk_inode_store [OF fs new_inode_facts(1)])
  have "node (cur empty_file) (new_inode ITYPE_FILE) p = 0" if "valid p" for p
    using that new_inode_facts(5) by (cases p) (auto simp: node.simps)
  then have U: "used_paths (cur empty_file) (new_inode ITYPE_FILE) = {}" by (auto simp: used_paths_def simp del: valid.simps)
  have "coherent 1 empty_file" unfolding e by (rule coherent_store) (simp add: s_def InodeCache_new_def)
  moreover have "fs_ok empty_file" unfolding e by (rule fs_ok_store [OF fs ino new_inode_facts(1)])
  ultimately show "holds 1 [] empty_file"
    using U ino new_inode_facts by (simp add: holds_def file_ok_def di is_file_def)
  have "cur s BLOCK_BITMAP_BLK = zeros" by (simp add: s_def cur_def fresh_disk_def blank_disk_def BLOCK_BITMAP_BLK_def)
  then have "\<not> allocated empty_file 70"
    using inode_blk_area(3) [OF ino] by (simp add: allocated_def e cur_store_other bit_at_def zeros_def BLOCK_SIZE_def)
  moreover have "DATA_START \<le> 70" "70 < total_blocks empty_file" by (simp_all add: e s_def DATA_START_def)
  ultimately show "no_space empty_file = False" by (auto simp: no_space_def)
qed

lemma file_write_refines_witness:
  "holds 1 [] empty_file \<and>
   ((\<exists>s'. file_write 1 0 [7, 8] empty_file = (Ok (Suc (Suc 0)), s') \<and> holds 1 [7, 8] s' \<and> writes_only 1 empty_file s')
    \<or> (\<exists>s'. file_write 1 0 [7, 8] empty_file = (Err ''NoSpace'', s') \<and> no_space s'))"
  using file_write_refines [OF empty_file_holds(1), of 0 "[7, 8]"] empty_file_holds(1) by simp


end
