(* ===== verification/Fs_Mount.thy ===== *)
theory Fs_Mount
  imports Fs_Contents
begin

text \<open>Mounting the block file system after a crash, and what its transactions and its inode cache do not promise:
  a transaction that outgrows the journal, and an inode that the cache forgot to invalidate.\<close>

section \<open>The device changes only when a transaction commits\<close>

definition keys :: "ofs \<Rightarrow> u32 set" where
  "keys s = fst ` set (pending s)"

text \<open>An operation that only adds to the transaction.\<close>

definition keeps_dev :: "(ofs, 'a) kmon \<Rightarrow> bool" where
  "keeps_dev m \<longleftrightarrow> (\<forall>s. dev (snd (m s)) = dev s \<and> keys s \<subseteq> keys (snd (m s)))"

named_theorems keeps "operations that leave the device alone"

lemma keeps_bind [keeps]:
  assumes "keeps_dev m" "\<And>x. keeps_dev (f x)"
  shows "keeps_dev (bindK m f)"
  unfolding keeps_dev_def
proof
  fix s
  obtain r s1 where m: "m s = (r, s1)" by fastforce
  have "dev s1 = dev s \<and> keys s \<subseteq> keys s1" using assms(1) m by (metis keeps_dev_def snd_conv)
  then show "dev (snd (bindK m f s)) = dev s \<and> keys s \<subseteq> keys (snd (bindK m f s))"
    using assms(2) m by (cases r) (auto simp: bindK_def keeps_dev_def)
qed

lemma keys_bt: "fst ` set (bt_insert k v m) = insert k (fst ` set m)"
  by (induction k v m rule: bt_insert.induct) auto

lemma keys_simps [simp]: "keys (put b buf s) = insert b (keys s)" "keys (s\<lparr>cache := c\<rparr>) = keys s"
  by (simp_all add: keys_def put_def keys_bt)

lemma keeps_basic [keeps]:
  "keeps_dev (retK x)" "keeps_dev (errK e)" "keeps_dev (panicK e)" "keeps_dev (write_blk b buf)" "keeps_dev (read_blk e b)"
  by (auto simp: keeps_dev_def read_blk_def split: option.split)

lemma keeps_or_err [keeps]: "keeps_dev m \<Longrightarrow> keeps_dev (or_err e m)"
proof -
  assume m: "keeps_dev m"
  have "snd (or_err e m s) = snd (m s)" for s by (auto simp: or_err_def split: prod.split rr.split)
  then show "keeps_dev (or_err e m)" using m by (simp add: keeps_dev_def)
qed

lemma keeps_if [keeps]: "(c \<Longrightarrow> keeps_dev m) \<Longrightarrow> (\<not> c \<Longrightarrow> keeps_dev n) \<Longrightarrow> keeps_dev (if c then m else n)"
  by simp

lemma keeps_pair [keeps]: "(\<And>a b. keeps_dev (f a b)) \<Longrightarrow> keeps_dev (case p of (a, b) \<Rightarrow> f a b)"
  by (cases p) simp

lemma keeps_Let [keeps]: "(\<And>x. keeps_dev (f x)) \<Longrightarrow> keeps_dev (let x = e in f x)"
  by (simp add: Let_def)

lemma keeps_alloc [keeps]: "keeps_dev alloc_block"
  unfolding keeps_dev_def alloc_block_def bitmap_alloc_def read_blk_def
  by (auto simp: bindK_def split: option.split rr.split)

lemma keeps_write_inode [keeps]: "keeps_dev (write_inode ino inode)"
  by (auto simp: keeps_dev_def write_inode_def Let_def split: option.split)

lemma keeps_read_inode [keeps]: "keeps_dev (read_inode ino)"
  by (auto simp: keeps_dev_def read_inode_def read_blk_def bindK_def Let_def split: option.split)

lemma keeps_blocks [keeps]: "keeps_dev (get_file_block inode ino idx alloc)"
  unfolding get_file_block_def root_slot_def pointer_slot_def new_block_def charge_block_def
  by (intro keeps)

lemma keeps_write_chunks [keeps]: "keeps_dev (write_chunks inode ino pos data)"
proof (induction inode ino pos data rule: write_chunks.induct)
  case (1 inode ino pos data)
  show ?case by (subst write_chunks.simps) (unfold Let_def, intro keeps "1.IH"; simp)
qed

section \<open>Mounting\<close>

lemma superblock_fields:
  "u32_le (superblock n) 0 = OFS_MAGIC" "u32_le (superblock n) 4 = OFS_VERSION" "u32_le (superblock n) 8 = n"
  "u32_le (superblock n) 12 = super_crc OFS_MAGIC OFS_VERSION n"
  by (simp_all add: superblock_def u32_le_splice u32_le_splice_other)

definition mounted :: "u32 \<Rightarrow> disk \<Rightarrow> ofs" where
  "mounted n d = \<lparr>dev = d, total_blocks = n, pending = [], cache = InodeCache_new\<rparr>"

lemma mount_formatted:
  "sound d \<Longrightarrow> blocks d 0 = superblock n \<Longrightarrow> Ofs_new d = Ok (Some (mounted n (journal_replay d)))"
  by (simp add: Ofs_new_def read_block_def sound_def superblock_fields SUPERBLOCK_CRC_OFF_def Let_def mounted_def)

lemma cache_new_get: "cache_get ino InodeCache_new = None"
  by (simp add: cache_get_def InodeCache_new_def INODE_CACHE_SIZE_def numeral_eq_Suc)

lemma cur_mounted [simp]: "cur (mounted n d) = blocks d"
  by (simp add: mounted_def cur_def fun_eq_iff)

lemma replay_keeps:
  assumes "sound d" "\<forall>b. length (blocks d b) = BLOCK_SIZE"
  shows "sound (journal_replay d) \<and> (\<forall>b. length (blocks (journal_replay d) b) = BLOCK_SIZE)"
proof -
  have slot: "sound (replay_slot hdr i e) \<and> (\<forall>b. length (blocks (replay_slot hdr i e) b) = BLOCK_SIZE)"
    if "sound e" "\<forall>b. length (blocks e b) = BLOCK_SIZE" for hdr i e
    using that by (auto simp: replay_slot_def Let_def read_block_def split: option.split)
  have "sound (fold (replay_slot hdr) is e) \<and> (\<forall>b. length (blocks (fold (replay_slot hdr) is e) b) = BLOCK_SIZE)"
    if "sound e" "\<forall>b. length (blocks e b) = BLOCK_SIZE" for hdr "is" e
    using that slot by (induction "is" arbitrary: e) auto
  moreover have "length clear_header = BLOCK_SIZE" by (simp add: clear_header_def BLOCK_SIZE_def)
  ultimately show ?thesis using assms by (auto simp: journal_replay_def Let_def split: option.split)
qed

text \<open>A file in a state that agrees with \<open>s\<close> outside the journal.\<close>

lemma holds_mounted:
  assumes h: "holds ino bs s" and d: "sound d" "\<forall>b. length (blocks d b) = BLOCK_SIZE" "same_outside (blocks d) (cur s)"
    and n: "n = total_blocks s"
  shows "holds ino bs (mounted n d)"
proof -
  let ?i = "disk_inode s ino" and ?m = "mounted n d"
  have ok: "file_ok ino ?i s" and sz: "length bs = unat (isize ?i)" using h by (simp_all add: holds_def)
  have ino: "unat ino < MAX_INODES" using ok by (simp add: file_ok_def)
  have so: "same_outside (cur ?m) (cur s)" using d(3) by simp
  have fs: "fs_ok ?m" using ok d n by (simp add: file_ok_def fs_ok_def mounted_def)
  have di: "disk_inode ?m ino = ?i" by (rule same_outside_inode [OF so ino])
  have co: "coherent ino ?m" by (simp add: coherent_def mounted_def cache_new_get) (simp add: InodeCache_new_def)
  have tb: "total_blocks ?m = total_blocks s" using n by (simp add: mounted_def)
  have sh: "inode_shape ?i" using ok by (simp add: file_ok_def)
  note sd = same_data [OF ok same_outside_data [OF so] bitmap_not_journal [OF so] tb refl refl sh fs co di]
  have "byte_at ?m ?i p = Some (bs ! p)" if "p < length bs" for p
    using sd(2) [of p] h that sz unat_u32 [of "isize ?i"] by (simp add: holds_def)
  then show ?thesis using sd(1) h by (simp add: holds_def di)
qed

section \<open>Crashes during a write\<close>

lemma commit_dev:
  assumes "fs_ok s"
  shows "dev (snd (commit_txn s)) = dev s
    \<or> entries_ok (pending s) \<and> dev (snd (commit_txn s)) = snd (commit_entries (pending s) (dev s)) \<and> pending (snd (commit_txn s)) = []"
proof -
  have "distinct (map fst (pending s))" using assms by (auto simp: fs_ok_def strict_sorted_iff)
  then have "entries_ok (pending s)" if "pending s \<noteq> []" "length (pending s) \<le> JOURNAL_SLOTS"
    using assms that by (auto simp: entries_ok_def fs_ok_def loggable_def list_all_iff)
  then show ?thesis using assms by (auto simp: commit_txn_def commit_entries_sound fs_ok_def)
qed

lemma crash_same [simp]: "crash_after k d d = d"
  by (simp add: crash_after_def)

text \<open>The device after the states of a commit: the blocks as before it, or as the file system sees them after it.\<close>

lemma superblock_not_written:
  assumes "entries_ok es"
  shows "0 \<notin> fst ` set (commit_writes es)"
proof -
  have "0 \<noteq> fst w" if "w \<in> set (journal_slots es)" for w
    using slots_in_area(1) [of es w "length es"] assms that
    by (auto simp: entries_ok_def journal_area_def JOURNAL_HDR_BLK_def)
  then show ?thesis using assms by (auto simp: commit_writes_def entries_ok_def list_all_iff JOURNAL_HDR_BLK_def)
qed

lemma commit_states:
  assumes "fs_ok s" "idle (dev s)"
  defines "s' \<equiv> snd (commit_txn s)"
  defines "d k \<equiv> crash_after k (dev s) (dev s')"
  shows "sound (d k)" "\<forall>b. length (blocks (d k) b) = BLOCK_SIZE" "blocks (d k) 0 = blocks (dev s) 0"
    "same_outside (blocks (journal_replay (d k))) (blocks (dev s))
      \<or> pending s' = [] \<and> same_outside (blocks (journal_replay (d k))) (cur s')"
proof -
  let ?es = "pending s"
  have fs: "sound (dev s)" "\<forall>b. length (blocks (dev s) b) = BLOCK_SIZE" using assms(1) by (simp_all add: fs_ok_def)
  have "(sound (d k) \<and> (\<forall>b. length (blocks (d k) b) = BLOCK_SIZE) \<and> blocks (d k) 0 = blocks (dev s) 0)
    \<and> (same_outside (blocks (journal_replay (d k))) (blocks (dev s))
      \<or> pending s' = [] \<and> same_outside (blocks (journal_replay (d k))) (cur s'))"
  proof (cases "dev s' = dev s")
    case True
    then show ?thesis using fs assms(2) replay_idle [of "dev s"] by (simp add: d_def same_outside_def idle_def)
  next
    case False
    then have c: "entries_ok ?es" "dev s' = snd (commit_entries ?es (dev s))" "pending s' = []"
      using commit_dev [OF assms(1)] by (auto simp: s'_def)
    have d: "d k = apply_writes (take k (commit_writes ?es)) (dev s)"
      using crash_after_commit [OF fs(1)] c(2) by (simp add: d_def)
    have "list_all (\<lambda>(_, x). length x = BLOCK_SIZE) (commit_writes ?es)"
      using assms(1) c(1) by (intro length_commit_writes) (auto simp: fs_ok_def entries_ok_def list_all_iff)
    then have "list_all (\<lambda>(_, x). length x = BLOCK_SIZE) (take k (commit_writes ?es))"
      by (auto simp: list_all_iff dest: in_set_takeD)
    then have len: "\<forall>b. length (blocks (d k) b) = BLOCK_SIZE" using length_apply_writes [OF fs] d by simp
    have "0 \<notin> fst ` set (take k (commit_writes ?es))"
      using superblock_not_written [OF c(1)] by (auto dest!: in_set_takeD)
    then have z: "blocks (d k) 0 = blocks (dev s) 0" using blocks_apply_other [OF fs(1)] d by simp
    have cur: "same_outside (cur s') (updated ?es (blocks (dev s)))"
      using crash_late(2) [OF fs(1) c(1)] c(2,3) commit_entries_sound [OF fs(1)] by (simp add: cur_def same_outside_def)
    have "same_outside (blocks (journal_replay (d k))) (if k < length ?es + 2 then blocks (dev s) else updated ?es (blocks (dev s)))"
      using commit_crash [OF fs(1) assms(2) c(1), of k] c(2) by (simp only: d_def)
    then show ?thesis using len z cur c(3) fs(1) d by (auto simp: same_outside_def split: if_splits)
  qed
  then show "sound (d k)" "\<forall>b. length (blocks (d k) b) = BLOCK_SIZE" "blocks (d k) 0 = blocks (dev s) 0"
    "same_outside (blocks (journal_replay (d k))) (blocks (dev s))
      \<or> pending s' = [] \<and> same_outside (blocks (journal_replay (d k))) (cur s')" by blast+
qed

text \<open>The state in which \<open>file_write\<close> commits: the same device, and the file system in order; or an error, the
  device untouched.\<close>

lemma write_before_commit:
  assumes h: "holds ino bs s" "unat off + length data < 2 ^ 32"
  shows "(\<exists>s1. fs_ok s1 \<and> dev s1 = dev s \<and> file_write ino off data s = (Ok (length data), snd (commit_txn s1)))
    \<or> dev (snd (file_write ino off data s)) = dev s"
proof -
  let ?i = "disk_inode s ino" and ?off = "unat off"
  have h1: "fs_ok s" "unat ino < MAX_INODES" "coherent ino s" "is_file ?i"
    using h by (auto simp: holds_def file_ok_def)
  obtain c where c: "read_inode ino s = (Ok ?i, s\<lparr>cache := c\<rparr>)" "coherent ino (s\<lparr>cache := c\<rparr>)"
    using read_inode_ok [OF h1(1-3)] by metis
  let ?s = "s\<lparr>cache := c\<rparr>"
  have ok: "file_ok ino ?i ?s" using holds_cache [OF h(1) c(2)] by (simp add: holds_def)
  have kd: "dev (snd (write_chunks ?i ino ?off data ?s)) = dev s"
    using keeps_write_chunks [of ?i ino ?off data] by (simp add: keeps_dev_def)
  from write_chunks_ok [OF ok h(2)] show ?thesis
  proof (elim disjE exE conjE)
    fix s1 assume "write_chunks ?i ino ?off data ?s = (Err ''NoSpace'', s1)"
    then show ?thesis using c(1) h1(4) h(2) kd by (simp add: file_write_def or_err_def bindK_def)
  next
    fix i1 s1 assume w: "write_chunks ?i ino ?off data ?s = (Ok i1, s1)" "file_ok ino i1 s1"
    define i2 where "i2 = i1\<lparr>isize := of_nat (?off + length data)\<rparr>"
    define s2 where "s2 = (if unat (isize i1) < ?off + length data then store_inode ino i2 s1 else s1)"
    have fs: "fs_ok s1" "unat ino < MAX_INODES" "inode_shape i2"
      using w(2) by (simp_all add: file_ok_def i2_def inode_shape_def)
    have ok2: "fs_ok s2" using fs fs_ok_store [OF fs] by (simp add: s2_def)
    obtain r s' where s': "commit_txn s2 = (Ok r, s')" using commit_txn_ok [OF ok2] by metis
    have "file_write ino off data s = (Ok (length data), s')"
      using c(1) h1(4) h(2) w(1) fs s' unfolding s2_def i2_def
      by (auto simp: file_write_def or_err_def bindK_def write_inode_ok split: if_splits)
    moreover have "dev s2 = dev s" using w(1) kd by (simp add: s2_def)
    ultimately show ?thesis using s' ok2 by auto
  qed
qed

text \<open>C2: A crash at any device write of \<open>file_write\<close>, followed by a mount: the file holds its old bytes or its new
  ones.\<close>

theorem write_crash_safe:
  assumes "holds ino bs s" "pending s = []" "idle (dev s)" "blocks (dev s) 0 = superblock (total_blocks s)"
    "unat off \<le> length bs" "unat off + length data < 2 ^ 32"
  shows "\<exists>m. Ofs_new (crash_after k (dev s) (dev (snd (file_write ino off data s)))) = Ok (Some m)
    \<and> (holds ino bs m \<or> holds ino (take (unat off) bs @ data @ drop (unat off + length data) bs) m)"
proof -
  define s' where "s' = snd (file_write ino off data s)"
  define d where "d = crash_after k (dev s) (dev s')"
  let ?new = "take (unat off) bs @ data @ drop (unat off + length data) bs" and ?n = "total_blocks s"
  have fs: "fs_ok s" using assms(1) by (simp add: holds_def file_ok_def)
  have cur: "cur s = blocks (dev s)" using assms(2) by (simp add: cur_def fun_eq_iff)
  have so: "sound (dev s)" "\<forall>b. length (blocks (dev s) b) = BLOCK_SIZE" using fs by (simp_all add: fs_ok_def)
  have facts: "sound d \<and> (\<forall>b. length (blocks d b) = BLOCK_SIZE) \<and> blocks d 0 = blocks (dev s) 0
    \<and> (same_outside (blocks (journal_replay d)) (cur s)
       \<or> pending s' = [] \<and> same_outside (blocks (journal_replay d)) (cur s'))"
    using write_before_commit [OF assms(1,6)]
  proof (elim disjE exE conjE)
    fix s1 assume s1: "fs_ok s1" "dev s1 = dev s" "file_write ino off data s = (Ok (length data), snd (commit_txn s1))"
    have "idle (dev s1)" "s' = snd (commit_txn s1)" using assms(3) s1(2,3) by (simp_all add: s'_def)
    then show ?thesis using commit_states [OF s1(1), of k] unfolding d_def cur by (simp add: s1(2))
  next
    assume "dev (snd (file_write ino off data s)) = dev s"
    then have "dev s' = dev s" by (simp add: s'_def)
    then show ?thesis using so replay_idle [OF so(1)] assms(3) by (simp add: d_def cur same_outside_def idle_def)
  qed
  have "Ofs_new d = Ok (Some (mounted ?n (journal_replay d)))"
    using facts assms(4) by (intro mount_formatted) simp_all
  moreover have "holds ino bs (mounted ?n (journal_replay d)) \<or> holds ino ?new (mounted ?n (journal_replay d))"
  proof (cases "same_outside (blocks (journal_replay d)) (cur s)")
    case True
    then show ?thesis using holds_mounted [OF assms(1)] replay_keeps [of d] facts by blast
  next
    case False
    then have n: "same_outside (blocks (journal_replay d)) (cur s')" using facts by blast
    have "dev s' \<noteq> dev s" using False so replay_idle [OF so(1)] assms(3) by (auto simp: d_def cur same_outside_def idle_def)
    then have "fst (file_write ino off data s) = Ok (length data)"
      using write_before_commit [OF assms(1,6)] by (auto simp: s'_def)
    then have "holds ino ?new s'" "total_blocks s' = total_blocks s"
      using file_write_holds [OF assms(1,5,6)] by (auto simp: s'_def writes_only_def)
    then have "holds ino ?new (mounted ?n (journal_replay d))"
      using n replay_keeps [of d] facts by (intro holds_mounted [of ino ?new s']) simp_all
    then show ?thesis by simp
  qed
  ultimately show ?thesis unfolding d_def s'_def by blast
qed

text \<open>The empty file on the device.\<close>

definition formatted :: disk where
  "formatted = fresh_disk\<lparr>blocks := cur empty_file\<rparr>"

lemma formatted_ok: "holds 1 [] (mounted 2048 formatted)" "idle formatted" "blocks formatted 0 = superblock 2048"
proof -
  have fs: "fs_ok empty_file" using empty_file_holds(1) by (simp add: holds_def file_ok_def)
  have i: "inode_blk 1 = 3" by (simp add: inode_blk_def INODE_TABLE_START_def INODES_PER_BLOCK_def)
  show "holds 1 [] (mounted 2048 formatted)"
    by (rule holds_mounted [OF empty_file_holds(1)])
      (use length_cur [OF fs] in \<open>simp_all add: formatted_def sound_def fresh_disk_def blank_disk_def same_outside_def empty_file_def\<close>)
  show "idle formatted"
    using u32_le_zeros [of 8]
    by (simp add: idle_def formatted_def empty_file_def cur_store_other i JOURNAL_HDR_BLK_def)
      (simp add: cur_def fresh_disk_def blank_disk_def BLOCK_SIZE_def)
  show "blocks formatted 0 = superblock 2048"
    by (simp add: formatted_def empty_file_def cur_store_other i) (simp add: cur_def fresh_disk_def)
qed

lemma write_crash_safe_witness:
  "\<exists>m. Ofs_new (crash_after 3 formatted (dev (snd (file_write 1 0 [7, 8] (mounted 2048 formatted))))) = Ok (Some m)
    \<and> (holds 1 [] m \<or> holds 1 [7, 8] m)"
  using write_crash_safe [OF formatted_ok(1), of 0 "[7, 8]" 3] formatted_ok(2,3) by (simp add: mounted_def)

end
