(* ===== verification/Fs_Limits.thy ===== *)
theory Fs_Limits
  imports Fs_Mount
begin

text \<open>Bounds of the block file system: block numbers that allocation can return, transactions that outgrow the
  journal, and inodes that the cache returns after they changed.\<close>

section \<open>Allocation\<close>



section \<open>Transactions that outgrow the journal\<close>

definition stuck :: "ofs \<Rightarrow> bool" where
  "stuck s \<longleftrightarrow> JOURNAL_SLOTS < length (pending s)"

text \<open>From a stuck state an operation reaches a stuck state with the same device.\<close>

definition inert :: "(ofs, 'a) kmon \<Rightarrow> bool" where
  "inert m \<longleftrightarrow> (\<forall>s. stuck s \<longrightarrow> stuck (snd (m s)) \<and> dev (snd (m s)) = dev s)"

named_theorems inerts "operations that do nothing for a stuck file system"

lemma inertI: "(\<And>s r s1. stuck s \<Longrightarrow> m s = (r, s1) \<Longrightarrow> stuck s1 \<and> dev s1 = dev s) \<Longrightarrow> inert m"
  unfolding inert_def by (metis prod.collapse)

lemma inertD: "inert m \<Longrightarrow> m s = (r, s1) \<Longrightarrow> stuck s \<Longrightarrow> stuck s1 \<and> dev s1 = dev s"
  unfolding inert_def by (metis snd_conv)

lemma inert_bind [inerts]:
  assumes "inert m" "\<And>x. inert (f x)"
  shows "inert (bindK m f)"
proof (rule inertI)
  fix s r s2 assume "stuck s" "bindK m f s = (r, s2)"
  then show "stuck s2 \<and> dev s2 = dev s"
    using inertD [OF assms(1), of s] inertD [OF assms(2)] by (auto simp: bindK_def split: prod.splits rr.splits)
qed

lemma length_bt_insert: "length m \<le> length (bt_insert k v m)"
  by (induction k v m rule: bt_insert.induct) auto

lemma stuck_put [simp]: "stuck s \<Longrightarrow> stuck (put b buf s)"
  using length_bt_insert [of "pending s" b buf] by (simp add: stuck_def put_def)

lemma stuck_cache [simp]: "stuck (s\<lparr>cache := c\<rparr>) = stuck s"
  by (simp add: stuck_def)

lemma inert_basic [inerts]:
  "inert (retK x)" "inert (errK e)" "inert (panicK e)" "inert (write_blk b buf)" "inert (read_blk e b)"
  by (simp_all add: inert_def read_blk_def split: option.split)

lemma inert_commit [inerts]: "inert commit_txn"
  by (auto simp: inert_def commit_txn_def stuck_def)

lemma inert_or_err [inerts]: "inert m \<Longrightarrow> inert (or_err e m)"
  by (rule inertI) (auto simp: or_err_def dest: inertD split: prod.splits rr.splits)

lemma inert_if [inerts]: "(c \<Longrightarrow> inert m) \<Longrightarrow> (\<not> c \<Longrightarrow> inert n) \<Longrightarrow> inert (if c then m else n)"
  by simp

lemma inert_pair [inerts]: "(\<And>a b. inert (f a b)) \<Longrightarrow> inert (case p of (a, b) \<Rightarrow> f a b)"
  by (cases p) simp

lemma inert_forK [inerts]: "(\<And>x. inert (f x)) \<Longrightarrow> inert (forK xs f)"
  by (induction xs) (auto intro: inerts)

lemma inert_alloc [inerts]: "inert (bitmap_alloc b i j)"
  unfolding inert_def bitmap_alloc_def read_blk_def
  by (auto simp: bindK_def split: option.split rr.split)

lemma inert_bitmap_set [inerts]: "inert (bitmap_set b i v)"
  by (auto simp: inert_def bitmap_set_def bindK_def split: option.split)

lemma inert_write_inode [inerts]: "inert (write_inode ino inode)"
  by (auto simp: inert_def write_inode_def Let_def split: option.split)

lemma inert_read_inode [inerts]: "inert (read_inode ino)"
  by (auto simp: inert_def read_inode_def read_blk_def bindK_def Let_def split: option.split)

lemma inert_cases:
  assumes "inert m" "\<And>x. inert (f x)" "\<And>e. inert (g e)"
  shows "inert (\<lambda>s. case m s of (Ok x, s1) \<Rightarrow> f x s1 | (Err e, s1) \<Rightarrow> g e s1 | (Panic e, s1) \<Rightarrow> (Panic e, s1))"
proof (rule inertI)
  fix s r s2 assume "stuck s" "(case m s of (Ok x, s1) \<Rightarrow> f x s1 | (Err e, s1) \<Rightarrow> g e s1 | (Panic e, s1) \<Rightarrow> (Panic e, s1)) = (r, s2)"
  then show "stuck s2 \<and> dev s2 = dev s"
    using inertD [OF assms(1), of s] inertD [OF assms(2)] inertD [OF assms(3)] by (auto split: prod.splits rr.splits)
qed

lemma inert_alloc_block [inerts]: "inert alloc_block"
proof -
  have "inert (bindK (bitmap_alloc BLOCK_BITMAP_BLK (unat DATA_START) n) (\<lambda>b. retK (of_nat b :: u32)))" for n by (intro inerts)
  then show ?thesis by (simp add: inert_def alloc_block_def)
qed

lemma inert_create [inerts]: "inert (create_inode t)"
  unfolding create_inode_def alloc_inode_def by (intro inerts)

lemma inert_free [inerts]: "inert (free_block b)"
  unfolding free_block_def by (intro inerts)

lemma inert_view: "inert m \<Longrightarrow> (\<And>x. inert (f x)) \<Longrightarrow> inert (\<lambda>s. case view s b of None \<Rightarrow> m s | Some x \<Rightarrow> f x s)"
  by (auto simp: inert_def split: option.split)

lemma inert_free_indirect [inerts]: "inert (free_indirect_blocks n b)"
proof (induction n arbitrary: b)
  case (Suc n)
  have "inert (\<lambda>s :: ofs. (Ok (), s))" by (simp add: inert_def)
  then show ?case unfolding free_indirect_blocks.simps Let_def by (intro inerts inert_view Suc.IH)
qed (unfold free_indirect_blocks.simps, intro inerts)

lemma inert_free_inode [inerts]: "inert (free_inode ino)"
  using inert_bitmap_set [of INODE_BITMAP_BLK "unat ino" False] by (auto simp: inert_def free_inode_def)

lemma inert_blocks [inerts]: "inert (get_file_block inode ino idx alloc)"
  unfolding get_file_block_def root_slot_def pointer_slot_def new_block_def charge_block_def Let_def
  by (intro inerts)

lemma inert_write_chunks [inerts]: "inert (write_chunks inode ino pos data)"
proof (induction inode ino pos data rule: write_chunks.induct)
  case (1 inode ino pos data)
  show ?case by (subst write_chunks.simps) (unfold Let_def, intro inerts "1.IH"; simp)
qed

lemma inert_read_chunks [inerts]: "inert (read_chunks inode ino pos len)"
proof (induction inode ino pos len rule: read_chunks.induct)
  case (1 inode ino pos len)
  show ?case by (subst read_chunks.simps) (unfold Let_def, intro inerts "1.IH"; simp)
qed

lemma inert_files [inerts]: "inert (file_write ino off data)" "inert (file_read ino off len)"
  unfolding file_write_def file_read_def by (intro inerts)+

lemma inert_Ok [inerts]: "inert (\<lambda>s. (Ok x, s))" "inert (\<lambda>s. (Panic e, s))" "inert (\<lambda>s. (Err e, s))"
  by (simp_all add: inert_def)

text \<open>The operations that handle \<open>None\<close> themselves.\<close>

lemma inert_truncate [inerts]: "inert (file_truncate ino)"
  unfolding file_truncate_def by (intro inert_cases inerts)

lemma inert_bump [inerts]: "inert (bump_parent ino t f)"
proof -
  have "inert (\<lambda>s. case read_inode ino s of
      (Ok parent, s1) \<Rightarrow> bindK (write_inode ino (parent\<lparr>nlink := f (nlink parent)\<rparr>)) (\<lambda>_. retK ()) s1
    | (Err _, s1) \<Rightarrow> (Ok (), s1) | (Panic e, s1) \<Rightarrow> (Panic e, s1))"
    by (intro inert_cases inerts)
  then show ?thesis by (simp add: inert_def bump_parent_def)
qed

lemma inert_drop_link [inerts]: "inert (drop_link ino)"
proof (rule inertI)
  fix s r s2 assume s: "stuck s" "drop_link ino s = (r, s2)"
  obtain q s1 where r: "read_inode ino s = (q, s1)" by fastforce
  have "inert (bindK (file_truncate ino) (\<lambda>_. free_inode ino))" "inert (bindK (write_inode ino i) (\<lambda>_. retK ()))" for i
    by (intro inerts)+
  from inertD [OF this(1)] inertD [OF this(2)] show "stuck s2 \<and> dev s2 = dev s"
    using s r inertD [OF inert_read_inode r s(1)] by (auto simp: drop_link_def Let_def split: if_splits)
qed

text \<open>Branches of operations that are written with their state.\<close>

lemma inert_branch: "(c \<Longrightarrow> inert m) \<Longrightarrow> (\<not> c \<Longrightarrow> inert n) \<Longrightarrow> inert (\<lambda>s. if c then m s else n s)"
  by (cases c) simp_all

lemma inert_init_dir [inerts]: "inert (init_dir ino parent)"
  unfolding init_dir_def by (intro inert_cases inert_branch inerts)

lemma inert_unlink_blocks [inerts]: "inert (unlink_blocks inode d name i seen)"
proof -
  have "stuck s \<Longrightarrow> stuck (snd (unlink_blocks inode d name i seen s)) \<and> dev (snd (unlink_blocks inode d name i seen s)) = dev s" for s
  proof (induction inode d name i seen s rule: unlink_blocks.induct)
    case (1 inode d name i seen s)
    have u: "inert (unlink_slot d blk buf slot c t)" for blk buf slot c t unfolding unlink_slot_def by (intro inerts)
    obtain r s1 where g: "get_file_block inode d (of_nat i) False s = (r, s1)" by fastforce
    have s1: "stuck s1" "dev s1 = dev s" using inertD [OF inert_blocks g "1.prems"] by auto
    show ?case
      using 1 g s1 u by (subst (1 2) unlink_blocks.simps)
        (auto simp: Let_def inert_def split: prod.split option.split rr.split)
  qed
  then show ?thesis by (simp add: inert_def)
qed

lemma inert_unlink [inerts]: "inert (dir_unlink d name)"
  unfolding dir_unlink_def by (intro inert_cases inerts)

lemma inert_lookup_blocks [inerts]: "inert (lookup_blocks inode d name i seen)"
proof -
  have "stuck s \<Longrightarrow> stuck (snd (lookup_blocks inode d name i seen s)) \<and> dev (snd (lookup_blocks inode d name i seen s)) = dev s" for s
  proof (induction inode d name i seen s rule: lookup_blocks.induct)
    case (1 inode d name i seen s)
    obtain r s1 where g: "get_file_block inode d (of_nat i) False s = (r, s1)" by fastforce
    have s1: "stuck s1" "dev s1 = dev s" using inertD [OF inert_blocks g "1.prems"] by auto
    show ?case
      using 1 g s1 by (subst (1 2) lookup_blocks.simps)
        (auto simp: bindK_def read_blk_def split: prod.split option.split rr.split)
  qed
  then show ?thesis by (simp add: inert_def)
qed

lemma inert_lookup [inerts]: "inert (dir_lookup_inode d name)"
  unfolding dir_lookup_inode_def by (intro inerts)

lemma inert_readall_blocks [inerts]: "inert (readall_blocks inode d i seen acc)"
proof -
  have "stuck s \<Longrightarrow> stuck (snd (readall_blocks inode d i seen acc s)) \<and> dev (snd (readall_blocks inode d i seen acc s)) = dev s" for s
  proof (induction inode d i seen acc s rule: readall_blocks.induct)
    case (1 inode d i seen acc s)
    obtain r s1 where g: "get_file_block inode d (of_nat i) False s = (r, s1)" by fastforce
    have s1: "stuck s1" "dev s1 = dev s" using inertD [OF inert_blocks g "1.prems"] by auto
    show ?case
      using 1 g s1 by (subst (1 2) readall_blocks.simps)
        (auto simp: Let_def split: prod.split option.split rr.split)
  qed
  then show ?thesis by (simp add: inert_def)
qed

lemma inert_readall [inerts]: "inert (dir_readall d)"
  unfolding dir_readall_def by (intro inert_cases inert_branch inerts)

lemma inert_append [inerts]: "inert (append_entry d inode name c t)"
  unfolding append_entry_def grow_dir_def Let_def
  by (intro inert_cases) (auto simp: case_prod_beta intro!: inert_branch inerts)

lemma inert_fill [inerts]: "inert (fill_slot d inode blk buf cov slot name c t)"
  unfolding fill_slot_def grow_dir_def by (intro inerts)

lemma add_in_blocks_inert:
  assumes "add_in_blocks d inode name c t i s = Some (r, s')" "stuck s"
  shows "stuck s' \<and> dev s' = dev s"
proof -
  have "stuck s \<longrightarrow> stuck (snd p) \<and> dev (snd p) = dev s" if "add_in_blocks d inode name c t i s = Some p" for p
  proof (rule add_in_blocks.raw_induct [OF _ that, where P = "\<lambda>d inode name c t i s p. stuck s \<longrightarrow> stuck (snd p) \<and> dev (snd p) = dev s"])
    fix f d inode name c t i s p
    assume IH: "\<And>d inode name c t i s p. f d inode name c t i s = Some p \<Longrightarrow> stuck s \<longrightarrow> stuck (snd p) \<and> dev (snd p) = dev s"
      and eq: "(let coverage = i * DIRENTRIES_PER_BLOCK; n_entries = div_ceil (unat (isize inode)) DIRENTRY_SIZE in
        if n_entries \<le> coverage then Some (append_entry d inode name c t s)
        else case get_file_block inode d (of_nat i) False s of
             (Ok (blk, _), s1) \<Rightarrow>
               (case view s1 blk of
                  None \<Rightarrow> f d inode name c t i s1
                | Some buf \<Rightarrow>
                    (case free_slot buf n_entries coverage [0..<DIRENTRIES_PER_BLOCK] of
                       None \<Rightarrow> f d inode name c t (i + 1) s1
                     | Some slot \<Rightarrow> Some (fill_slot d inode blk buf coverage slot name c t s1)))
           | (Err _, s1) \<Rightarrow> f d inode name c t (i + 1) s1
           | (Panic e, s1) \<Rightarrow> Some (Panic e, s1)) = Some p"
    obtain q s1 where g: "get_file_block inode d (of_nat i) False s = (q, s1)" by fastforce
    have s1: "stuck s \<Longrightarrow> stuck s1 \<and> dev s1 = dev s" using inertD [OF inert_blocks g] by auto
    show "stuck s \<longrightarrow> stuck (snd p) \<and> dev (snd p) = dev s"
      using eq g s1 IH inert_append [of d inode name c t] inert_fill [of d inode _ _ _ _ name c t]
      by (auto simp: Let_def inert_def split: if_splits prod.splits option.splits rr.splits)
  qed
  then show ?thesis using assms by fastforce
qed

lemma dir_add_inert:
  assumes "dir_add_entry d name c t s = Some (r, s')" "stuck s"
  shows "stuck s' \<and> dev s' = dev s"
proof -
  obtain q s1 where g: "read_inode d s = (q, s1)" by fastforce
  have "stuck s1" "dev s1 = dev s" using inertD [OF inert_read_inode g assms(2)] by auto
  then show ?thesis
    using assms(1) g by (auto simp: dir_add_entry_def dest!: add_in_blocks_inert split: rr.splits if_splits)
qed

lemma dir_link_inert:
  assumes "dir_link_entry d name c t s = Some (r, s')" "stuck s"
  shows "stuck s' \<and> dev s' = dev s"
proof -
  obtain q s1 where g: "read_inode c s = (q, s1)" by fastforce
  have s1: "stuck s1" "dev s1 = dev s" using inertD [OF inert_read_inode g assms(2)] by auto
  have w: "stuck (snd (write_inode i n u)) \<and> dev (snd (write_inode i n u)) = dev u" if "stuck u" for i n u
    using inert_write_inode [of i n] that by (simp add: inert_def)
  show ?thesis
    using assms(1) g s1 w unfolding dir_link_entry_def Let_def
    by (auto split: rr.splits prod.splits option.splits bool.splits dest!: dir_add_inert) (metis snd_conv)+
qed

text \<open>The calls of the file server on a mounted file system.\<close>

inductive fs_step :: "ofs \<Rightarrow> ofs \<Rightarrow> bool" where
  "fs_step s (snd (file_read ino off len s))"
| "fs_step s (snd (file_write ino off data s))"
| "fs_step s (snd (file_truncate ino s))"
| "fs_step s (snd (create_inode t s))"
| "fs_step s (snd (inode_info ino s))"
| "fs_step s (snd (dir_lookup_inode ino name s))"
| "fs_step s (snd (dir_readall ino s))"
| "fs_step s (snd (init_dir ino parent s))"
| "fs_step s (snd (dir_unlink ino name s))"
| "dir_add_entry ino name child t s = Some (r, s') \<Longrightarrow> fs_step s s'"
| "dir_link_entry ino name child t s = Some (r, s') \<Longrightarrow> fs_step s s'"
| "fs_step s (snd (fsync s))"

lemma fs_step_inert: "fs_step s s' \<Longrightarrow> stuck s \<Longrightarrow> stuck s' \<and> dev s' = dev s"
proof (induction rule: fs_step.induct)
  case (5 s ino)
  have "inert (inode_info ino)" unfolding inode_info_def by (intro inerts)
  then show ?case using 5 by (simp add: inert_def)
qed (use inert_files inert_truncate inert_create inert_lookup inert_readall inert_init_dir inert_unlink inert_commit
      in \<open>auto simp: inert_def fsync_def dest: dir_add_inert dir_link_inert\<close>)

lemma stuck_forever:
  assumes "fs_step\<^sup>*\<^sup>* s s'" "stuck s"
  shows "stuck s' \<and> dev s' = dev s"
  using assms
proof (induction rule: rtranclp_induct)
  case (step t u)
  then show ?case using fs_step_inert [of t u] by auto
qed simp

lemma keepsD: "keeps_dev m \<Longrightarrow> m s = (r, s1) \<Longrightarrow> dev s1 = dev s \<and> keys s \<subseteq> keys s1"
  unfolding keeps_dev_def by (metis snd_conv)

text \<open>Every block that \<open>write_chunks\<close> writes becomes part of the transaction.\<close>

lemma write_chunks_keys:
  assumes "file_ok ino inode s" "pos + length data < 2 ^ 32" "write_chunks inode ino pos data s = (Ok inode', s')"
    "pos \<le> p" "p < pos + length data"
  shows "node (cur s') inode' (path_of (p div BLOCK_SIZE)) \<in> keys s'"
  using assms
proof (induction "length data" arbitrary: inode pos data s rule: less_induct)
  case less
  define n off chunk where "n = pos div BLOCK_SIZE" and "off = pos mod BLOCK_SIZE"
    and "chunk = min (length data) (BLOCK_SIZE - off)"
  have ne: "data \<noteq> []" using less.prems(4,5) by auto
  have off: "off < BLOCK_SIZE" by (simp add: off_def BLOCK_SIZE_def)
  have ch: "0 < chunk" "chunk \<le> length data" "off + chunk \<le> BLOCK_SIZE" using off ne by (auto simp: chunk_def)
  have n: "n < 1048576" using less.prems(2) by (simp add: n_def BLOCK_SIZE_def div_less_iff_less_mult)
  note eq = write_chunks.simps [of inode ino pos data, unfolded Let_def, folded off_def n_def, folded chunk_def]
  have "fst (get_file_block inode ino (of_nat n) True s) \<noteq> Err none"
    using less.prems(3) ne unfolding eq by (auto simp: or_err_def bindK_def split: prod.splits rr.splits)
  then obtain b inode1 s1 where g: "get_file_block inode ino (of_nat n) True s = (Ok (b, inode1), s1)" "file_ok ino inode1 s1"
      "node (cur s1) inode1 (path_of n) = b" "b \<noteq> 0"
    using get_file_block_alloc [OF less.prems(1) n] by auto
  define base where "base = (if off \<noteq> 0 \<or> chunk < BLOCK_SIZE then cur s1 b else zeros)"
  define s2 where "s2 = put b (splice off (take chunk data) base) s1"
  have fs1: "fs_ok s1" using g(2) by (simp add: file_ok_def)
  have "length (splice off (take chunk data) base) = BLOCK_SIZE" using fs1 ch by (simp add: base_def length_cur zeros_def)
  note pd = put_data [OF g(2) n g(3,4) this, folded s2_def]
  have step: "write_chunks inode1 ino (pos + chunk) (drop chunk data) s2 = (Ok inode', s')"
    using less.prems(3) ne g(1) fs1 unfolding eq by (auto simp: or_err_def bindK_def read_blk_cur base_def s2_def)
  have len: "length (drop chunk data) < length data" "pos + chunk + length (drop chunk data) < 2 ^ 32"
    using ch less.prems(2) by auto
  have ks: "keys s2 \<subseteq> keys s'"
    using keepsD [OF keeps_write_chunks step] by simp
  show ?case
  proof (cases "p < pos + chunk")
    case True
    then have pn: "p div BLOCK_SIZE = n" using chunk_range [of pos p chunk] less.prems(4) ch(3) by (simp add: n_def off_def)
    have "path_of n \<in> used_paths (cur s2) inode1"
      using path_of_valid [OF n] pd(2) g(3,4) by (simp add: grows_def mem_used)
    moreover have "node (cur s2) inode1 (path_of n) = b"
      using path_of_valid [OF n] pd(2) g(3,4) by (simp add: grows_def mem_used)
    moreover have "grows ino inode1 s2 inode' s'"
      using write_chunks_ok [OF pd(1) len(2)] step by auto
    ultimately have "node (cur s') inode' (path_of n) = b" by (simp add: grows_def)
    then show ?thesis using ks pn by (auto simp: s2_def)
  next
    case False
    then show ?thesis using less.hyps [OF len(1) pd(1) len(2) step] less.prems(5) by simp
  qed
qed

lemma long_write_keys:
  assumes "file_ok ino inode s" "pos + length data < 2 ^ 32" "write_chunks inode ino pos data s = (Ok inode', s')"
    "file_ok ino inode' s'" "JOURNAL_SLOTS * BLOCK_SIZE < length data"
  shows "stuck s'"
proof -
  define f where "f i = node (cur s') inode' (path_of (pos div BLOCK_SIZE + i))" for i
  have range: "pos div BLOCK_SIZE + i < 1048576" "f i \<in> keys s'" if "i \<le> 32" for i
  proof -
    have "(pos + i * BLOCK_SIZE) div BLOCK_SIZE = pos div BLOCK_SIZE + i" by (simp add: BLOCK_SIZE_def)
    moreover have lt: "pos + i * BLOCK_SIZE < pos + length data"
      using assms(5) that by (simp add: JOURNAL_SLOTS_def BLOCK_SIZE_def)
    ultimately show "f i \<in> keys s'" using write_chunks_keys [OF assms(1-3), of "pos + i * BLOCK_SIZE"] by (simp add: f_def)
    show "pos div BLOCK_SIZE + i < 1048576" using lt assms(2) by (simp add: BLOCK_SIZE_def)
  qed
  have "inj_on f {..32}"
  proof (rule inj_onI)
    fix i j assume ij: "i \<in> {..32}" "j \<in> {..32}" "f i = f j"
    have fs: "fs_ok s'" using assms(4) by (simp add: file_ok_def)
    have "f k \<noteq> 0" if "k \<le> 32" for k
      using range(2) [OF that] fs by (auto simp: keys_def fs_ok_def loggable_def)
    then have "path_of (pos div BLOCK_SIZE + k) \<in> used_paths (cur s') inode'" if "k \<le> 32" for k
      using path_of_valid [OF range(1) [OF that]] that by (simp add: mem_used f_def)
    then have "path_of (pos div BLOCK_SIZE + i) = path_of (pos div BLOCK_SIZE + j)"
      using ij assms(4) by (auto simp: file_ok_def inj_on_def f_def)
    then show "i = j" using path_of_inj by fastforce
  qed
  then have "card (f ` {..32}) = 33" by (simp add: card_image)
  moreover have "f ` {..32} \<subseteq> keys s'" using range(2) by auto
  moreover have "card (keys s') \<le> length (pending s')" unfolding keys_def by (metis card_image_le card_length finite_set order_trans)
  moreover have "finite (keys s')" by (simp add: keys_def)
  ultimately show ?thesis using card_mono [of "keys s'" "f ` {..32}"] by (simp add: stuck_def JOURNAL_SLOTS_def)
qed

text \<open>Whatever is called from \<open>s\<close> on, the device stays \<open>d\<close> and \<open>fsync\<close> fails.\<close>

definition never_saved :: "disk \<Rightarrow> ofs \<Rightarrow> bool" where
  "never_saved d s \<longleftrightarrow> (\<forall>s'. fs_step\<^sup>*\<^sup>* s s' \<longrightarrow> dev s' = d \<and> fst (fsync s') = Ok False)"

lemma stuck_never_saved: "stuck s \<Longrightarrow> never_saved (dev s) s"
  unfolding never_saved_def
proof (intro allI impI)
  fix s' assume "stuck s" "fs_step\<^sup>*\<^sup>* s s'"
  then have "stuck s' \<and> dev s' = dev s" by (intro stuck_forever)
  then show "dev s' = dev s \<and> fst (fsync s') = Ok False" by (auto simp: fsync_def commit_txn_def stuck_def)
qed



section \<open>The inode cache\<close>

lemma read_inode_miss:
  assumes "fs_ok s" "unat ino < MAX_INODES" "cache_get ino (cache s) = None"
  shows "read_inode ino s = (Ok (disk_inode s ino), s\<lparr>cache := cache_insert ino (disk_inode s ino) (cache s)\<rparr>)"
  using assms by (simp add: read_inode_def read_blk_cur disk_inode_def Let_def)

definition read_inodes :: "u32 list \<Rightarrow> (ofs, unit) kmon" where
  "read_inodes inos = forK inos (\<lambda>ino. bindK (read_inode ino) (\<lambda>_. retK ()))"

definition fill_cache :: "ofs \<Rightarrow> u32 list \<Rightarrow> inode_cache \<Rightarrow> inode_cache" where
  "fill_cache s inos c = fold (\<lambda>ino. cache_insert ino (disk_inode s ino)) inos c"

text \<open>Reading inodes that are not in the cache puts each into the next entry.\<close>

lemma get_absent: "ino \<notin> fst ` set (entries c) \<Longrightarrow> cache_get ino c = None"
proof -
  assume "ino \<notin> fst ` set (entries c)"
  then have "find (\<lambda>(k, _). k = ino) (entries c) = None" by (force simp: find_None_iff)
  then show "cache_get ino c = None" by (simp add: cache_get_def)
qed

lemma read_inodes_fill:
  assumes "fs_ok s" "distinct inos" "list_all (\<lambda>ino. unat ino < MAX_INODES) inos" "set inos \<inter> fst ` set (entries (cache s)) = {}"
  shows "read_inodes inos s = (Ok (), s\<lparr>cache := fill_cache s inos (cache s)\<rparr>)"
  using assms
proof (induction inos arbitrary: s)
  case Nil
  then show ?case by (simp add: read_inodes_def fill_cache_def)
next
  case (Cons ino inos)
  let ?s = "s\<lparr>cache := cache_insert ino (disk_inode s ino) (cache s)\<rparr>"
  have r: "read_inode ino s = (Ok (disk_inode s ino), ?s)"
    using Cons.prems by (intro read_inode_miss get_absent) auto
  have "set (entries (cache ?s)) \<subseteq> insert (ino, Some (disk_inode s ino)) (set (entries (cache s)))"
    by (simp add: cache_insert_def set_update_subset_insert)
  from image_mono [OF this, of fst] have "set inos \<inter> fst ` set (entries (cache ?s)) = {}"
    using Cons.prems(2,4) by auto
  then have "read_inodes inos ?s = (Ok (), ?s\<lparr>cache := fill_cache ?s inos (cache ?s)\<rparr>)"
    using Cons.prems by (intro Cons.IH) auto
  then show ?case using r by (simp add: read_inodes_def fill_cache_def)
qed

text \<open>The calls: inode 7 is read, written, read and written again; then 31 other inodes are read.\<close>

definition stale_run :: "raw_inode \<Rightarrow> raw_inode \<Rightarrow> (ofs, unit) kmon" where
  "stale_run a b =
     bindK (read_inode 7) (\<lambda>_.
       bindK (write_inode 7 a) (\<lambda>_.
         bindK (read_inode 7) (\<lambda>_.
           bindK (write_inode 7 b) (\<lambda>_.
             read_inodes (map of_nat [100..<131])))))"

text \<open>The entries after a series of insertions, counted from the generation \<open>g\<close>.\<close>

lemma fill_slots:
  fixes v :: "u32 \<Rightarrow> raw_inode"
  assumes "length (entries c) = 32" "unat (generation c) = g" "g + length js < 2 ^ 64" "length js \<le> 32"
  defines "c' \<equiv> fold (\<lambda>ino. cache_insert ino (v ino)) js c"
  shows "length (entries c') = 32 \<and> unat (generation c') = g + length js
    \<and> (\<forall>i < length js. entries c' ! ((g + i) mod 32) = (js ! i, Some (v (js ! i))))
    \<and> (\<forall>k < 32. (\<forall>i < length js. k \<noteq> (g + i) mod 32) \<longrightarrow> entries c' ! k = entries c ! k)"
  using assms(3,4) unfolding c'_def
proof (induction js rule: rev_induct)
  case Nil
  then show ?case using assms(1,2) by simp
next
  case (snoc j js)
  define d where "d = fold (\<lambda>ino. cache_insert ino (v ino)) js c"
  have IH: "length (entries d) = 32" "unat (generation d) = g + length js"
    "\<And>i. i < length js \<Longrightarrow> entries d ! ((g + i) mod 32) = (js ! i, Some (v (js ! i)))"
    "\<And>k. k < 32 \<Longrightarrow> \<forall>i < length js. k \<noteq> (g + i) mod 32 \<Longrightarrow> entries d ! k = entries c ! k"
    using snoc by (auto simp: d_def)
  have gen: "unat (generation d + 1) = g + length js + 1"
    using IH(2) snoc.prems(1) by (subst unat_add_no_wrap) simp_all
  have gen': "generation (cache_insert j (v j) d) = generation d + 1" "unat (generation d + 1) = g + length js + 1"
    using gen by (simp_all add: cache_insert_def)
  have ne: "(g + length js) mod 32 \<noteq> (g + i) mod 32" if "i < length js" for i
  proof
    assume "(g + length js) mod 32 = (g + i) mod 32"
    then have "(length js - i) mod 32 = 0" using that by (metis add_diff_cancel_left mod_eq_dvd_iff_nat add_left_mono less_imp_le mod_0_imp_dvd dvd_imp_mod_0)
    then show False using that snoc.prems(2) by simp
  qed
  have e: "entries (cache_insert j (v j) d) = (entries d)[(g + length js) mod 32 := (j, Some (v j))]"
    using IH(2) by (simp add: cache_insert_def INODE_CACHE_SIZE_def)
  show ?case
    using IH gen' ne by (auto simp: e nth_append nth_list_update less_Suc_eq simp flip: d_def)
qed

lemma stale_cache:
  assumes c: "length (entries c) = 32" "generation c = 3" "entries c ! 2 = (7, Some a)"
    and js: "length js = 31" "js ! 29 \<noteq> 7" "js ! 30 \<noteq> 7"
  shows "cache_get 7 (fold (\<lambda>ino. cache_insert ino (v ino)) js c) = Some a"
proof -
  define es where "es = entries (fold (\<lambda>ino. cache_insert ino (v ino)) js c)"
  have f: "length es = 32" "\<And>i. i < 31 \<Longrightarrow> es ! ((3 + i) mod 32) = (js ! i, Some (v (js ! i)))"
    "\<And>k. k < 32 \<Longrightarrow> \<forall>i < 31. k \<noteq> (3 + i) mod 32 \<Longrightarrow> es ! k = entries c ! k"
    using fill_slots [OF c(1), of 3 js v] c(2) js(1) by (simp_all add: es_def)
  have k: "fst (es ! 0) \<noteq> 7" "fst (es ! 1) \<noteq> 7" using f(2) [of 29] f(2) [of 30] js by simp_all
  have "es ! 2 = entries c ! 2" by (rule f(3)) (auto simp: mod_if)
  then have "find (\<lambda>(k, _). k = 7) es = Some (7, Some a)"
    using f(1) k c(3) by (subst find_Some_iff) (auto intro!: exI [of _ 2] simp: less_Suc_eq numeral_2_eq_2 split: prod.split)
  then show ?thesis by (simp add: cache_get_def es_def)
qed

text \<open>The cache forgets to invalidate: after the calls above the inode table holds the second version of inode 7,
  and the cache answers with the first.\<close>

theorem stale_inode:
  assumes "fs_ok s" "cache s = InodeCache_new" "inode_shape a" "inode_shape b"
  shows "\<exists>s'. stale_run a b s = (Ok (), s') \<and> disk_inode s' 7 = b \<and> fst (read_inode 7 s') = Ok a"
proof -
  have ino: "unat (7 :: u32) < MAX_INODES" by (simp add: MAX_INODES_def)
  define z :: "u32 \<times> raw_inode option" where "z = (0, None)"
  define js :: "u32 list" where "js = map of_nat [100..<131]"
  define s1 where "s1 = s\<lparr>cache := cache_insert 7 (disk_inode s 7) InodeCache_new\<rparr>"
  define s2 where "s2 = store_inode 7 a s1"
  define s3 where "s3 = s2\<lparr>cache := cache_insert 7 a (cache s2)\<rparr>"
  define s4 where "s4 = store_inode 7 b s3"
  define c where "c = cache s4"
  have fs: "fs_ok s1" "fs_ok s2" "fs_ok s3" "fs_ok s4"
    using assms ino by (simp_all add: s1_def s2_def s3_def s4_def fs_ok_store)
  have d: "disk_inode s2 7 = a" "disk_inode s4 7 = b"
    using disk_inode_store assms(3,4) fs by (simp_all add: s2_def s4_def)
  have r1: "read_inode 7 s = (Ok (disk_inode s 7), s1)"
    using read_inode_miss [OF assms(1) ino] assms(2) by (simp add: s1_def cache_new_get)
  have w1: "write_inode 7 a s1 = (Ok True, s2)" by (simp add: s2_def write_inode_ok [OF fs(1) ino])
  have r2: "read_inode 7 s2 = (Ok a, s3)"
    using read_inode_miss [OF fs(2) ino] d(1) by (simp add: s3_def s2_def store_inode_def get_invalidated)
  have w2: "write_inode 7 b s3 = (Ok True, s4)" by (simp add: s4_def write_inode_ok [OF fs(3) ino])
  have new: "entries InodeCache_new = z # z # z # replicate 29 z"
    by (simp add: InodeCache_new_def INODE_CACHE_SIZE_def z_def numeral_eq_Suc)
  have g1: "generation InodeCache_new = 1" by (simp add: InodeCache_new_def)
  have c: "entries c = z # (7, None) # (7, Some a) # replicate 29 z" "generation c = 3"
    by (simp_all add: c_def s4_def s3_def s2_def s1_def store_inode_def invalidate_def cache_insert_def new g1 z_def
        INODE_CACHE_SIZE_def)
  have jl: "length js = 31" "js ! 29 \<noteq> 7" "js ! 30 \<noteq> 7" by (simp_all add: js_def)
  have "set js \<inter> fst ` set (entries c) = {}" "distinct js" "list_all (\<lambda>ino. unat ino < MAX_INODES) js"
    by (simp_all add: js_def c z_def MAX_INODES_def)
  then have r: "read_inodes js s4 = (Ok (), s4\<lparr>cache := fill_cache s4 js c\<rparr>)"
    using read_inodes_fill [OF fs(4)] by (simp add: c_def)
  have g: "cache_get 7 (fill_cache s4 js c) = Some a"
    unfolding fill_cache_def using c jl by (intro stale_cache) simp_all
  define s5 where "s5 = s4\<lparr>cache := fill_cache s4 js c\<rparr>"
  have "read_inode 7 s5 = (Ok a, s5)" using g ino by (simp add: read_inode_def s5_def)
  moreover have "stale_run a b s = (Ok (), s5)"
    unfolding stale_run_def js_def [symmetric] using r1 w1 r2 w2 r by (simp add: bindK_def s5_def)
  moreover have "disk_inode s5 7 = b" using d(2) by (simp add: s5_def)
  ultimately show ?thesis by simp
qed

lemma stale_inode_witness:
  "\<exists>s'. stale_run (new_inode 1) (new_inode 2) (mounted 2048 formatted) = (Ok (), s')
     \<and> disk_inode s' 7 = new_inode 2 \<and> fst (read_inode 7 s') = Ok (new_inode 1)"
proof -
  have "fs_ok (mounted 2048 formatted)" using formatted_ok(1) by (simp add: holds_def file_ok_def)
  then show ?thesis by (rule stale_inode) (simp_all add: mounted_def new_inode_facts)
qed

end
