(* ===== verification/Spec2Isabelle.thy ===== *)
theory Spec2Isabelle
  imports Memory Channel Calls Gzip Dns Trace Crypto Elf Initrd Fs_Limits
begin

text \<open>
  Verification of openv, a RISC-V microkernel in Rust (\<open>src/src\<close>) with its user-space servers
  (\<open>src/user\<close>).

  \<^bold>\<open>Parts.\<close>  The kernel owns physical memory (\<open>mm\<close>), processes and their scheduling (\<open>posix\<close>), capabilities
  and IPC (\<open>ipc\<close>, \<open>syscall/ipc.rs\<close>), the system calls (\<open>syscall\<close>) and the trap path (\<open>trap\<close>).  Files,
  packages and devices are user-space servers that talk to it by IPC.

  \<^bold>\<open>Conventions.\<close>  \<open>Prelude\<close> fixes the machine integers, the result type \<open>rr\<close> of fallible operations
  (\<open>Ok\<close>, \<open>Err\<close>, \<open>Panic\<close>) and the state-passing monad \<open>kmon\<close>; \<open>Bytes\<close> has ordered maps, little-endian words,
  slices and strings, \<open>Errno\<close> the error numbers.  An operation of the source is a definition of the same
  name over the state record of its component.  Arithmetic is at the width of the source; the dev
  profile panics on overflow, and the model says so where it can happen.  Locks, TLB flushes and
  interrupts between harts are not state.

  \<^bold>\<open>Theories and sources.\<close>
  \<^item> \<open>Pmm\<close> (\<open>mm/pmm.rs\<close>): the frame allocator, a free list linked through the frames themselves;
    \<open>Frame_Pool\<close>: its contract as locales, interpreted on \<open>Pmm\<close> and, in \<open>Swap\<close>, on the allocator with
    eviction.
  \<^item> \<open>Vmm\<close> (\<open>mm/vmm.rs\<close>): Sv39 page tables in physical memory.  \<open>pt_wf\<close> says the tables form a tree.
  \<^item> \<open>Swap\<close> (\<open>mm/swap.rs\<close>), \<open>Job\<close> (\<open>posix/job.rs\<close>), \<open>Fault\<close> (\<open>trap/page_fault.rs\<close>), \<open>Vmo\<close> (\<open>mm/vmo.rs\<close>);
    \<open>Memory\<close> holds the properties of the memory system as a whole.
  \<^item> \<open>Elf\<close> (\<open>posix/elf.rs\<close>): the loader, over the page tables; \<open>Initrd\<close> (\<open>initrd.rs\<close>): the tar archive that the
    programs come from.
  \<^item> \<open>Handle\<close> (\<open>ipc/handle.rs\<close>): the handle table, with the contract of a capability table;
    \<open>Fifo\<close> and \<open>Channel\<close> (\<open>ipc/channel.rs\<close>, \<open>ipc/port.rs\<close>): message queues as instances of one
    first-in first-out contract.
  \<^item> \<open>Sched\<close> (\<open>posix/process.rs\<close>): run queue, sleep queue, \<open>schedule\<close>, shared page tables.
  \<^item> \<open>Process\<close> (\<open>posix/process.rs\<close>, \<open>ipc/msg.rs\<close>): process records, user memory, messages;
    \<open>Sync_Ipc\<close> (\<open>syscall/ipc.rs\<close>): synchronous IPC, as a transition system with an invariant.
  \<^item> \<open>Locks\<close> (\<open>syscall/ipc.rs\<close>): file locks and \<open>fcntl\<close>; \<open>Exit\<close> (\<open>posix/spawn.rs\<close>, \<open>syscall/proc.rs\<close>): exit and
    \<open>waitpid\<close>; \<open>Signals\<close> (\<open>syscall/proc.rs\<close>): signals, futexes, sleeping; \<open>Calls\<close> (\<open>syscall/proc.rs\<close>,
    \<open>syscall/pm.rs\<close>, \<open>syscall/mod.rs\<close>): the other calls and the dispatch of all of them.
  \<^item> \<open>Trace\<close> (\<open>trace.rs\<close>): trace programs, their virtual machine and the ring of records.
  \<^item> \<open>Crypto\<close> (\<open>crypto.rs\<close>, \<open>posix/user.rs\<close>): padding and message schedule of SHA-256, users and groups.
  \<^item> \<open>Gzip\<close> and \<open>Dns\<close> (\<open>pkg/src/gzip.rs\<close>, \<open>pkg/src/dns.rs\<close>): decompression to a vector or to a file through a
    ring, as instances of one sink; the messages of name resolution.
  \<^item> \<open>Journal\<close> (\<open>vfs-server/src/blockio.rs\<close> and the journal of \<open>blockfs.rs\<close>): devices, commit and replay;
    \<open>Blockfs\<close>: the other operations of \<open>blockfs.rs\<close>; \<open>Fs_State\<close>, \<open>Fs_Files\<close>, \<open>Fs_Contents\<close>: bitmaps and inodes, the
    tree of blocks of a file, the bytes of a file; \<open>Fs_Mount\<close>: crashes and mounting; \<open>Fs_Limits\<close>: what
    happens at the limits of the allocator, the journal and the inode cache.

  \<^bold>\<open>What the lemmas show.\<close>  Allocation refines a list of free frames; mapping changes exactly one
  translation and an error changes none; a copy-on-write fault gives a private copy; swapping a
  page out and in restores it; a loaded program reads the bytes of its file; charges stay within
  job limits; handles name what was inserted; queues deliver in order; the scheduler picks the
  first live process; synchronous IPC delivers, and its queues hold only blocked senders; file
  locks stay exclusive; an exit wakes its waiter; no sequence of calls gives a process a
  capability that none had; a trace program sees its context only.  A file of the block file
  system is a byte string, and a crash at any write leaves its old or its new bytes.  The two
  decompressors agree.  Further theorems exhibit behaviour of the code that contradicts its
  comments or the intent of the operation.

  \<^bold>\<open>Bounds.\<close>  Loops of the source over tables of 512 entries are folds.  \<open>unmap_range\<close>, the walks along job
  parents, name decompression, the search for a free directory slot and the loop of the trace
  machine are \<open>partial_function\<close>s, whose value is \<open>None\<close> when the code does not return; termination
  is proved on the inputs where it holds.  No model uses fuel.

  \<^bold>\<open>Not modelled.\<close>  Assembly, device registers and DMA, the serial line, and the third-party crates
  (\<open>smoltcp\<close>, \<open>fdt\<close>, the heap allocator); the network stack, which is a client of \<open>smoltcp\<close>; the ext2
  file system, a second one behind the interface of the modelled one; \<open>spawn\<close>, \<open>fork\<close> and \<open>exec\<close> as calls,
  of which the loader, the page-table operations and the archive are modelled; \<open>epoll\<close>; the
  compression rounds of SHA-256 and with them the check of passwords; the request
  loops of the servers; the shell and the small programs.
\<close>

end
